(* ===== verification/Prelude.thy ===== *)
theory Prelude
  imports Main "HOL-Library.Word" "HOL-Library.Sublist"
begin

text \<open>
  Shared vocabulary of the development: Go's machine types, the conversions between
  \<^verbatim>\<open>[]byte\<close> and \<^verbatim>\<open>string\<close>, decimal and hexadecimal printing, wrap-around of
  \<^verbatim>\<open>int64\<close>, and the fixed-width big-endian codecs of \<^verbatim>\<open>encoding/binary\<close>.
  The codecs are an interface (locale \<open>be_codec\<close>) that is interpreted at the three
  widths the wire formats use.  The collection \<open>go_simps\<close> holds the facts about Go values
  that the component proofs rewrite with.
\<close>

named_theorems go_simps \<open>rewrite rules for Go byte slices and strings\<close>

section \<open>Machine types\<close>

type_synonym byte = "8 word"
type_synonym bytes = "8 word list"
type_synonym u16 = "16 word"
type_synonym u32 = "32 word"
type_synonym u64 = "64 word"

text \<open>Go's \<^verbatim>\<open>int64\<close> is an \<^typ>\<open>int\<close> on which every arithmetic result is wrapped.\<close>

definition i64 :: "int \<Rightarrow> int" where
  "i64 x = (x + 2 ^ 63) mod 2 ^ 64 - 2 ^ 63"

lemma i64_id [go_simps]: "- (2 ^ 63) \<le> x \<Longrightarrow> x < 2 ^ 63 \<Longrightarrow> i64 x = x"
  by (simp add: i64_def)

lemma i64_range: "- (2 ^ 63) \<le> i64 x \<and> i64 x < 2 ^ 63"
proof -
  have "0 \<le> (x + 2 ^ 63) mod 2 ^ 64" and "(x + 2 ^ 63) mod 2 ^ 64 < 2 ^ 64"
    by simp_all
  then show ?thesis by (simp add: i64_def)
qed

lemma sint_i64: "sint (word_of_int x :: u64) = i64 x"
  by (simp add: int_word_sint i64_def)

lemma sint_small:
  assumes "unat (w :: u64) < 2 ^ 63"
  shows "sint w = int (unat w)"
proof -
  have "int (unat w) < 2 ^ 63" using assms by (simp only: of_nat_less_numeral_power_cancel_iff)
  moreover have "- (2 ^ 63) \<le> uint w" by (rule order_trans [OF _ uint_ge_0]) simp
  ultimately have "i64 (uint w) = uint w" by (intro i64_id) simp_all
  then show ?thesis using sint_i64 [of "uint w"] by simp
qed

text \<open>Go slices \<^verbatim>\<open>xs[a:b]\<close>; every use in the sources is guarded by a length check.\<close>

abbreviation slice :: "nat \<Rightarrow> nat \<Rightarrow> 'a list \<Rightarrow> 'a list" where
  "slice a b xs \<equiv> take (b - a) (drop a xs)"

section \<open>Byte slices and strings\<close>

text \<open>
  A Go string is a sequence of bytes, as is Isabelle's \<^typ>\<open>string\<close>.  The conversions
  \<^verbatim>\<open>[]byte(s)\<close> and \<^verbatim>\<open>string(b)\<close> copy the bytes.
\<close>

definition byte_of :: "char \<Rightarrow> byte" where
  "byte_of c = word_of_nat (of_char c)"

definition char_of_byte :: "byte \<Rightarrow> char" where
  "char_of_byte b = char_of (unat b)"

abbreviation bytes_of :: "string \<Rightarrow> bytes" where
  "bytes_of s \<equiv> map byte_of s"

abbreviation string_of :: "bytes \<Rightarrow> string" where
  "string_of bs \<equiv> map char_of_byte bs"

lemma unat_byte_of [simp]: "unat (byte_of c) = of_char c"
proof -
  have "(of_char c :: nat) < 256" by simp
  moreover have "byte_of c = word_of_nat (of_char c)"
    by (simp add: byte_of_def)
  ultimately show ?thesis by (simp add: unat_of_nat)
qed

lemma char_of_byte_of [simp]: "char_of_byte (byte_of c) = c"
  by (simp add: char_of_byte_def)

lemma byte_of_char_of [simp]: "byte_of (char_of_byte b) = b"
proof (rule word_unat_eq_iff [THEN iffD2])
  have "unat b < 256" using unsigned_less [of b, where ?'a = nat] by simp
  then show "unat (byte_of (char_of_byte b)) = unat b"
    by (simp add: char_of_byte_def)
qed

lemma byte_char_comp [simp]:
  "char_of_byte \<circ> byte_of = id" "byte_of \<circ> char_of_byte = id"
  by (simp_all add: fun_eq_iff)

lemma string_of_bytes_of: "string_of (bytes_of s) = s"
  by simp

lemma bytes_of_string_of: "bytes_of (string_of bs) = bs"
  by simp

lemma string_of_eq_iff [simp]: "string_of a = string_of b \<longleftrightarrow> a = b"
  by (metis bytes_of_string_of)

lemma bytes_of_eq_iff [simp]: "bytes_of a = bytes_of b \<longleftrightarrow> a = b"
  by (metis string_of_bytes_of)

section \<open>Printing\<close>

text \<open>The verb \<^verbatim>\<open>%d\<close> on a value that is not negative.\<close>

definition digit :: "nat \<Rightarrow> char" where
  "digit d = char_of (48 + d)"

fun dec :: "nat \<Rightarrow> string" where
  "dec n = (if n < 10 then [digit n] else dec (n div 10) @ [digit (n mod 10)])"

declare dec.simps [simp del]

definition undec :: "string \<Rightarrow> nat" where
  "undec s = foldl (\<lambda>acc c. 10 * acc + (of_char c - 48)) 0 s"

definition is_digit :: "char \<Rightarrow> bool" where
  "is_digit c \<longleftrightarrow> 48 \<le> (of_char c :: nat) \<and> (of_char c :: nat) \<le> 57"

lemma digit_eqs:
  "digit 0 = CHR ''0''" "digit (Suc 0) = CHR ''1''" "digit 1 = CHR ''1''" "digit 2 = CHR ''2''"
  "digit 3 = CHR ''3''" "digit 4 = CHR ''4''" "digit 5 = CHR ''5''" "digit 6 = CHR ''6''"
  "digit 7 = CHR ''7''" "digit 8 = CHR ''8''" "digit 9 = CHR ''9''"
  by (simp_all add: digit_def char_of_def bit_iff_odd)

lemma of_char_digit: "d < 10 \<Longrightarrow> of_char (digit d) = (48 + d :: nat)"
  by (simp add: digit_def)

lemma undec_dec [simp]: "undec (dec n) = n"
proof (induction n rule: dec.induct)
  case (1 n)
  show ?case
  proof (cases "n < 10")
    case True
    then show ?thesis by (simp add: dec.simps [of n] undec_def of_char_digit)
  next
    case False
    with 1 have "undec (dec (n div 10)) = n div 10" by simp
    with False show ?thesis
      by (simp add: dec.simps [of n] undec_def of_char_digit)
  qed
qed

lemma dec_inject [simp]: "dec m = dec n \<longleftrightarrow> m = n"
  by (metis undec_dec)

lemma dec_digits: "c \<in> set (dec n) \<Longrightarrow> is_digit c"
proof (induction n rule: dec.induct)
  case (1 n)
  then show ?case
    by (cases "n < 10") (auto simp: dec.simps [of n] is_digit_def of_char_digit)
qed

lemma dec_not_Nil [simp]: "dec n \<noteq> []"
  by (subst dec.simps) simp

text \<open>The verb \<^verbatim>\<open>%d\<close> on a signed value.\<close>

definition dec_int :: "int \<Rightarrow> string" where
  "dec_int i = (if i < 0 then CHR ''-'' # dec (nat (- i)) else dec (nat i))"

text \<open>\<^verbatim>\<open>hex.EncodeToString\<close>: two lower-case digits per byte.\<close>

definition hexdigit :: "nat \<Rightarrow> char" where
  "hexdigit d = (if d < 10 then char_of (48 + d) else char_of (87 + d))"

definition hex :: "bytes \<Rightarrow> string" where
  "hex bs = concat (map (\<lambda>b. [hexdigit (unat b div 16), hexdigit (unat b mod 16)]) bs)"

definition unhexdigit :: "char \<Rightarrow> nat" where
  "unhexdigit c = (let n = of_char c in if n < 58 then n - 48 else n - 87)"

lemma unhexdigit_hexdigit: "d < 16 \<Longrightarrow> unhexdigit (hexdigit d) = d"
  by (simp add: unhexdigit_def hexdigit_def Let_def)

lemma length_hex [simp]: "length (hex bs) = 2 * length bs"
  by (induction bs) (simp_all add: hex_def)

lemma unat_byte_less [simp]: "unat (b :: byte) < 256"
  using unsigned_less [of b, where ?'a = nat] by simp

lemma hex_byte_inject:
  assumes "[hexdigit (unat a div 16), hexdigit (unat a mod 16)] =
    [hexdigit (unat b div 16), hexdigit (unat (b :: byte) mod 16)]"
  shows "(a :: byte) = b"
proof -
  have hi: "unat x div 16 < 16" for x :: byte
    using unat_byte_less [of x] by (simp add: less_mult_imp_div_less)
  have "unhexdigit (hexdigit (unat a div 16)) = unhexdigit (hexdigit (unat b div 16))"
    and "unhexdigit (hexdigit (unat a mod 16)) = unhexdigit (hexdigit (unat b mod 16))"
    using assms by simp_all
  then have "unat a div 16 = unat b div 16" and "unat a mod 16 = unat b mod 16"
    by (simp_all add: unhexdigit_hexdigit hi)
  then have "unat a = unat b"
    using div_mult_mod_eq [of "unat a" 16] div_mult_mod_eq [of "unat b" 16] by metis
  then show ?thesis by (simp add: word_unat_eq_iff)
qed

lemma hex_inject [simp]: "hex a = hex b \<longleftrightarrow> a = b"
proof
  show "a = b" if "hex a = hex b"
    using that
  proof (induction a arbitrary: b)
    case Nil
    then have "length (hex b) = 0" by (simp add: hex_def)
    then show ?case by simp
  next
    case (Cons x a)
    then have "length (hex b) = 2 * Suc (length a)" by (metis length_Cons length_hex)
    then obtain y b' where b: "b = y # b'" by (cases b) (auto simp: hex_def)
    with Cons.prems have "x = y" and "hex a = hex b'"
      using hex_byte_inject [of x y] by (auto simp: hex_def)
    with Cons.IH b show ?case by blast
  qed
qed simp

lemma hexdigit_ge: "d < 16 \<Longrightarrow> 48 \<le> (of_char (hexdigit d) :: nat)"
  by (simp add: hexdigit_def)

lemma hex_ge: "c \<in> set (hex bs) \<Longrightarrow> 48 \<le> (of_char c :: nat)"
proof -
  assume "c \<in> set (hex bs)"
  then obtain b where "c = hexdigit (unat (b :: byte) div 16) \<or> c = hexdigit (unat b mod 16)"
    by (auto simp: hex_def)
  moreover have "unat b div 16 < 16" using unat_byte_less [of b] by (simp add: less_mult_imp_div_less)
  ultimately show ?thesis using hexdigit_ge by auto
qed

lemma hex_chars [simp]: "CHR ''/'' \<notin> set (hex bs)" "CHR ''.'' \<notin> set (hex bs)"
  using hex_ge [of "CHR ''/''" bs] hex_ge [of "CHR ''.''" bs] by auto

section \<open>Fixed-width big-endian codecs\<close>

text \<open>
  \<^verbatim>\<open>binary.BigEndian.PutUintN\<close> writes the bytes of a value from the most significant
  one, \<^verbatim>\<open>binary.BigEndian.UintN\<close> reads them back.  Both are instances of one pair of
  functions on any width.
\<close>

definition be_nat :: "bytes \<Rightarrow> nat" where
  "be_nat bs = foldl (\<lambda>acc b. 256 * acc + unat b) 0 bs"

definition be_get :: "bytes \<Rightarrow> 'a::len word" where
  "be_get bs = word_of_nat (be_nat bs)"

fun be_digits :: "nat \<Rightarrow> nat \<Rightarrow> bytes" where
  "be_digits 0 n = []"
| "be_digits (Suc k) n = be_digits k (n div 256) @ [word_of_nat (n mod 256)]"

definition be_put :: "nat \<Rightarrow> 'a::len word \<Rightarrow> bytes" where
  "be_put k w = be_digits k (unat w)"

lemma length_be_digits [simp]: "length (be_digits k n) = k"
  by (induction k arbitrary: n) simp_all

lemma be_nat_snoc [simp]: "be_nat (bs @ [b]) = 256 * be_nat bs + unat b"
  by (simp add: be_nat_def)

lemma be_nat_digits: "n < 256 ^ k \<Longrightarrow> be_nat (be_digits k n) = n"
proof (induction k arbitrary: n)
  case 0
  then show ?case by (simp add: be_nat_def)
next
  case (Suc k)
  then have "n div 256 < 256 ^ k"
    by (simp add: less_mult_imp_div_less mult.commute)
  moreover have "unat (word_of_nat (n mod 256) :: byte) = n mod 256"
    by (simp add: unat_of_nat)
  ultimately show ?case using Suc.IH by simp
qed

lemma be_nat_bound: "be_nat bs < 256 ^ length bs"
proof (induction bs rule: rev_induct)
  case Nil
  then show ?case by (simp add: be_nat_def)
next
  case (snoc b bs)
  have "256 * be_nat bs + unat b < 256 * (be_nat bs + 1)"
    using unat_byte_less [of b] by (simp add: algebra_simps)
  also have "\<dots> \<le> 256 * 256 ^ length bs"
    using snoc by (intro mult_le_mono) simp_all
  finally show ?case by simp
qed

lemma be_digits_nat: "be_digits (length bs) (be_nat bs) = bs"
proof (induction bs rule: rev_induct)
  case Nil
  then show ?case by simp
next
  case (snoc b bs)
  have "(256 * be_nat bs + unat b) div 256 = be_nat bs"
    and "(256 * be_nat bs + unat b) mod 256 = unat b"
    by simp_all
  with snoc show ?case by simp
qed

text \<open>
  The contract a client of a fixed-width codec relies on, and what follows from it for
  fields laid out one after the other.
\<close>

locale be_codec =
  fixes put :: "'a \<Rightarrow> bytes"
    and get :: "bytes \<Rightarrow> 'a"
    and width :: nat
  assumes put_length: "length (put x) = width"
    and get_put: "get (put x) = x"
    and put_get: "length bs = width \<Longrightarrow> put (get bs) = bs"
begin

lemma take_put: "take width (put x @ r) = put x"
  by (simp add: put_length)

lemma drop_put: "drop width (put x @ r) = r"
  by (simp add: put_length)

lemma get_field: "get (take width (put x @ r)) = x"
  by (simp add: put_length get_put)

lemma put_inject: "put x = put y \<longleftrightarrow> x = y"
  by (metis get_put)

lemma put_append_inject: "put x @ r = put y @ s \<longleftrightarrow> x = y \<and> r = s"
  by (metis append_eq_append_conv put_inject put_length)

lemma field_split: "width \<le> length bs \<Longrightarrow> put (get (take width bs)) @ drop width bs = bs"
  by (simp add: put_get min_absorb2)

end

lemma be_codec_word:
  assumes w: "LENGTH('a::len) = 8 * k"
  shows "be_codec (be_put k :: 'a word \<Rightarrow> bytes) be_get k"
proof
  have pow: "(256 :: nat) ^ k = 2 ^ LENGTH('a)"
    by (simp add: w power_mult)
  show "length (be_put k x) = k" for x :: "'a word"
    by (simp add: be_put_def)
  show "be_get (be_put k x) = x" for x :: "'a word"
    using unsigned_less [of x, where ?'a = nat] by (simp add: be_put_def be_get_def be_nat_digits pow)
  show "be_put k (be_get bs :: 'a word) = bs" if "length bs = k" for bs
  proof -
    have "be_nat bs < 2 ^ LENGTH('a)"
      using be_nat_bound [of bs] that by (simp add: pow)
    then have "unat (be_get bs :: 'a word) = be_nat bs"
      by (simp add: be_get_def unat_of_nat)
    then show ?thesis using be_digits_nat [of bs] that by (simp add: be_put_def)
  qed
qed

definition PutUint16 :: "u16 \<Rightarrow> bytes" where "PutUint16 = be_put 2"
definition PutUint32 :: "u32 \<Rightarrow> bytes" where "PutUint32 = be_put 4"
definition PutUint64 :: "u64 \<Rightarrow> bytes" where "PutUint64 = be_put 8"
definition Uint16 :: "bytes \<Rightarrow> u16" where "Uint16 = be_get"
definition Uint32 :: "bytes \<Rightarrow> u32" where "Uint32 = be_get"
definition Uint64 :: "bytes \<Rightarrow> u64" where "Uint64 = be_get"

interpretation c16: be_codec PutUint16 Uint16 2
  unfolding PutUint16_def Uint16_def by (rule be_codec_word) simp

interpretation c32: be_codec PutUint32 Uint32 4
  unfolding PutUint32_def Uint32_def by (rule be_codec_word) simp

interpretation c64: be_codec PutUint64 Uint64 8
  unfolding PutUint64_def Uint64_def by (rule be_codec_word) simp

lemmas codec_simps [go_simps] =
  c16.put_length c32.put_length c64.put_length
  c16.get_put c32.get_put c64.get_put
  c16.take_put c32.take_put c64.take_put
  c16.drop_put c32.drop_put c64.drop_put
  c16.put_append_inject c32.put_append_inject c64.put_append_inject

end
