(* ===== verification/Gostd.thy ===== *)
theory Gostd
  imports Prelude
begin

text \<open>
  The parts of Go's standard library that the sources call and whose behaviour the theorems
  depend on: \<^verbatim>\<open>io\<close> readers and writers with their errors, \<^verbatim>\<open>unicode/utf8\<close>,
  \<^verbatim>\<open>path/filepath\<close> on Unix, and \<^verbatim>\<open>strconv.ParseUint\<close>.
\<close>

section \<open>Readers and writers\<close>

datatype ioerr = EOF | ErrUnexpectedEOF | IOErr string

text \<open>
  A reader delivers the bytes of its buffer and then fails with \<open>rend\<close>: \<^const>\<open>EOF\<close> for
  a stream that was closed, another error for a broken or timed-out connection.
\<close>

record reader =
  rbuf :: bytes
  rend :: ioerr

text \<open>\<^verbatim>\<open>io.ReadFull\<close>: \<^const>\<open>EOF\<close> only when nothing at all could be read.\<close>

definition ReadFull :: "nat \<Rightarrow> reader \<Rightarrow> (ioerr + bytes) \<times> reader" where
  "ReadFull n r =
     (if n \<le> length (rbuf r) then (Inr (take n (rbuf r)), r\<lparr>rbuf := drop n (rbuf r)\<rparr>)
      else (Inl (if rbuf r \<noteq> [] \<and> rend r = EOF then ErrUnexpectedEOF else rend r),
            r\<lparr>rbuf := []\<rparr>))"

text \<open>\<^verbatim>\<open>io.CopyN\<close>: the bytes copied, and the error when fewer than \<open>n\<close> arrived.\<close>

definition CopyN :: "nat \<Rightarrow> reader \<Rightarrow> bytes \<times> ioerr option \<times> reader" where
  "CopyN n r =
     (take n (rbuf r), if n \<le> length (rbuf r) then None else Some (rend r),
      r\<lparr>rbuf := drop n (rbuf r)\<rparr>)"

text \<open>
  A writer records every \<^verbatim>\<open>Write\<close> call in \<open>wout\<close>.  With \<open>wlimit = Some (k, e)\<close> the
  transport accepts \<open>k\<close> more bytes and then fails with \<open>e\<close>, so that a failing write may
  have sent a prefix.
\<close>

record writer =
  wout :: "bytes list"
  wlimit :: "(nat \<times> ioerr) option"

definition Write :: "bytes \<Rightarrow> writer \<Rightarrow> ioerr option \<times> writer" where
  "Write b w =
     (case wlimit w of
        None \<Rightarrow> (None, w\<lparr>wout := wout w @ [b]\<rparr>)
      | Some (k, e) \<Rightarrow>
          if length b \<le> k
          then (None, w\<lparr>wout := wout w @ [b], wlimit := Some (k - length b, e)\<rparr>)
          else (Some e, w\<lparr>wout := wout w @ [take k b], wlimit := Some (0, e)\<rparr>))"

definition sent :: "writer \<Rightarrow> bytes" where
  "sent w = concat (wout w)"

lemma Write_ok: "Write b w = (None, w') \<Longrightarrow> wout w' = wout w @ [b]"
  by (auto simp: Write_def split: option.splits prod.splits if_splits)

lemma Write_sent_prefix: "Write b w = (e, w') \<Longrightarrow> \<exists>p. prefix p b \<and> sent w' = sent w @ p"
  by (auto simp: Write_def sent_def take_is_prefix split: option.splits prod.splits if_splits)

section \<open>UTF-8\<close>

text \<open>
  \<^verbatim>\<open>utf8.DecodeRune\<close> and \<^verbatim>\<open>utf8.Valid\<close>: the length of the well-formed encoding at
  the head of a byte sequence, with the second-byte ranges that exclude overlong forms,
  surrogates and values above U+10FFFF.
\<close>

definition utf8_lo :: "byte \<Rightarrow> byte" where
  "utf8_lo b = (if b = 0xE0 then 0xA0 else if b = 0xF0 then 0x90 else 0x80)"

definition utf8_hi :: "byte \<Rightarrow> byte" where
  "utf8_hi b = (if b = 0xED then 0x9F else if b = 0xF4 then 0x8F else 0xBF)"

definition utf8_cont :: "byte \<Rightarrow> bool" where
  "utf8_cont b \<longleftrightarrow> 0x80 \<le> b \<and> b \<le> 0xBF"

fun utf8_size :: "bytes \<Rightarrow> nat option" where
  "utf8_size [] = None"
| "utf8_size (b # r) =
     (if b < 0x80 then Some 1
      else if b < 0xC2 then None
      else if b < 0xE0 then
        (case r of b1 # _ \<Rightarrow> if utf8_cont b1 then Some 2 else None | [] \<Rightarrow> None)
      else if b < 0xF0 then
        (case r of b1 # b2 # _ \<Rightarrow>
           if utf8_lo b \<le> b1 \<and> b1 \<le> utf8_hi b \<and> utf8_cont b2 then Some 3 else None
         | _ \<Rightarrow> None)
      else if b \<le> 0xF4 then
        (case r of b1 # b2 # b3 # _ \<Rightarrow>
           if utf8_lo b \<le> b1 \<and> b1 \<le> utf8_hi b \<and> utf8_cont b2 \<and> utf8_cont b3 then Some 4
           else None
         | _ \<Rightarrow> None)
      else None)"

lemma utf8_size_pos: "utf8_size bs = Some n \<Longrightarrow> 0 < n \<and> n \<le> length bs"
  by (cases bs) (auto split: if_splits list.splits)

declare utf8_size.simps [simp del]

function utf8_valid :: "bytes \<Rightarrow> bool" where
  "utf8_valid bs =
     (if bs = [] then True
      else case utf8_size bs of None \<Rightarrow> False | Some n \<Rightarrow> utf8_valid (drop n bs))"
  by pat_completeness auto
termination
  by (relation "measure length") (auto dest: utf8_size_pos)

declare utf8_valid.simps [simp del]

lemma utf8_validD:
  "utf8_valid bs \<Longrightarrow> bs \<noteq> [] \<Longrightarrow> \<exists>n. utf8_size bs = Some n \<and> utf8_valid (drop n bs)"
  using utf8_valid.simps [of bs] by (auto split: option.splits)

lemma utf8_valid_ascii: "\<forall>b \<in> set bs. b < 0x80 \<Longrightarrow> utf8_valid bs"
  by (induction bs) (simp_all add: utf8_valid.simps utf8_size.simps)

section \<open>File paths (Unix)\<close>

definition filepath_Base :: "string \<Rightarrow> string" where
  "filepath_Base p =
     (if p = [] then ''.''
      else let q = rev (dropWhile (\<lambda>c. c = CHR ''/'') (rev p));
               r = rev (takeWhile (\<lambda>c. c \<noteq> CHR ''/'') (rev q))
           in if r = [] then ''/'' else r)"

fun ext_scan :: "string \<Rightarrow> string \<Rightarrow> string" where
  "ext_scan acc [] = []"
| "ext_scan acc (c # cs) =
     (if c = CHR ''/'' then [] else if c = CHR ''.'' then c # acc else ext_scan (c # acc) cs)"

definition filepath_Ext :: "string \<Rightarrow> string" where
  "filepath_Ext p = ext_scan [] (rev p)"

fun split_slash :: "string \<Rightarrow> string list" where
  "split_slash [] = [[]]"
| "split_slash (c # cs) =
     (if c = CHR ''/'' then [] # split_slash cs
      else case split_slash cs of s # ss \<Rightarrow> (c # s) # ss | [] \<Rightarrow> [[c]])"

fun join_slash :: "string list \<Rightarrow> string" where
  "join_slash [] = []"
| "join_slash [s] = s"
| "join_slash (s # ss) = s @ CHR ''/'' # join_slash ss"

text \<open>\<open>out\<close> holds the elements kept so far, the last one first.\<close>

definition clean_step :: "bool \<Rightarrow> string list \<Rightarrow> string \<Rightarrow> string list" where
  "clean_step rooted out e =
     (if e = [] \<or> e = ''.'' then out
      else if e = ''..'' then
        (case out of [] \<Rightarrow> if rooted then [] else [e]
         | x # out' \<Rightarrow> if x = ''..'' then e # out else out')
      else e # out)"

definition clean_elems :: "string \<Rightarrow> string list" where
  "clean_elems p = foldl (clean_step (p \<noteq> [] \<and> hd p = CHR ''/'')) [] (split_slash p)"

definition filepath_Clean :: "string \<Rightarrow> string" where
  "filepath_Clean p =
     (let body = join_slash (rev (clean_elems p))
      in if p \<noteq> [] \<and> hd p = CHR ''/'' then CHR ''/'' # body
         else if body = [] then ''.'' else body)"

definition filepath_Join :: "string list \<Rightarrow> string" where
  "filepath_Join es =
     (case dropWhile (\<lambda>e. e = []) es of
        [] \<Rightarrow> []
      | ds \<Rightarrow> filepath_Clean (join_slash ds))"

text \<open>A name that denotes a file directly inside the directory it is joined to.\<close>

definition plain_name :: "string \<Rightarrow> bool" where
  "plain_name n \<longleftrightarrow> n \<noteq> [] \<and> CHR ''/'' \<notin> set n \<and> n \<noteq> ''.'' \<and> n \<noteq> ''..''"

lemma plain_long: "2 < length n \<Longrightarrow> CHR ''/'' \<notin> set n \<Longrightarrow> plain_name n"
  by (auto simp: plain_name_def)

lemma Base_no_slash: "n \<noteq> [] \<Longrightarrow> CHR ''/'' \<notin> set n \<Longrightarrow> filepath_Base n = n"
proof -
  assume ne: "n \<noteq> []" and ns: "CHR ''/'' \<notin> set n"
  have h: "hd (rev n) \<noteq> CHR ''/''"
    using ne ns by (metis hd_in_set rev_is_Nil_conv set_rev)
  have 1: "dropWhile (\<lambda>c. c = CHR ''/'') (rev n) = rev n"
    using h ne by (cases "rev n") auto
  have 2: "takeWhile (\<lambda>c. c \<noteq> CHR ''/'') (rev n) = rev n"
    using ns by (auto simp: takeWhile_eq_all_conv)
  show ?thesis using ne by (simp add: filepath_Base_def 1 2 Let_def)
qed

lemma Base_slash_cases: "filepath_Base p = ''/'' \<or> CHR ''/'' \<notin> set (filepath_Base p)"
proof -
  have "CHR ''/'' \<notin> set (takeWhile (\<lambda>c. c \<noteq> CHR ''/'') xs)" for xs
    by (auto dest: set_takeWhileD)
  then show ?thesis by (simp add: filepath_Base_def Let_def)
qed

lemma Base_not_Nil: "filepath_Base p \<noteq> []"
  by (simp add: filepath_Base_def Let_def)

lemma split_slash_not_Nil [simp]: "split_slash s \<noteq> []"
  by (induction s) (auto split: list.splits)

lemma split_slash_no_slash: "CHR ''/'' \<notin> set n \<Longrightarrow> split_slash n = [n]"
  by (induction n) auto

lemma split_slash_append: "split_slash (a @ CHR ''/'' # b) = split_slash a @ split_slash b"
  by (induction a) (auto split: list.splits)

lemma join_slash_snoc: "join_slash (xs @ [x]) = (if xs = [] then x else join_slash xs @ CHR ''/'' # x)"
proof (induction xs rule: join_slash.induct)
  case (3 s s' ss)
  then show ?case by simp
qed simp_all

text \<open>
  Joining a directory and a plain name appends exactly that name: the result lies directly
  below the (cleaned) directory.
\<close>

lemma clean_step_not_Nil: "[] \<notin> set out \<Longrightarrow> [] \<notin> set (clean_step b out e)"
  by (auto simp: clean_step_def split: list.splits)

lemma foldl_clean_not_Nil: "[] \<notin> set out \<Longrightarrow> [] \<notin> set (foldl (clean_step b) out es)"
  by (induction es arbitrary: out) (simp_all add: clean_step_not_Nil)

lemma clean_elems_not_Nil: "e \<in> set (clean_elems d) \<Longrightarrow> e \<noteq> []"
  using foldl_clean_not_Nil [of "[]"] unfolding clean_elems_def by fastforce

lemma join_clean_Nil: "join_slash (rev (clean_elems d)) = [] \<longleftrightarrow> clean_elems d = []"
proof (cases "clean_elems d")
  case (Cons x xs)
  then have "x \<noteq> []" using clean_elems_not_Nil [of x d] by simp
  then show ?thesis by (simp add: Cons join_slash_snoc)
qed simp

lemma Join_plain:
  assumes d: "d \<noteq> []" and n: "plain_name n"
  shows "filepath_Join [d, n] =
    (if clean_elems d \<noteq> [] then filepath_Clean d @ CHR ''/'' # n
     else if hd d = CHR ''/'' then CHR ''/'' # n else n)"
proof -
  let ?p = "d @ CHR ''/'' # n" and ?r = "hd d = CHR ''/''"
  let ?body = "join_slash (rev (clean_elems d))"
  have el: "clean_elems ?p = n # clean_elems d"
  proof -
    have "split_slash ?p = split_slash d @ [n]"
      using n by (simp add: split_slash_append plain_name_def split_slash_no_slash)
    moreover have "clean_step b out n = n # out" for b out
      using n by (simp add: plain_name_def clean_step_def)
    ultimately show ?thesis using d by (simp add: clean_elems_def)
  qed
  have "filepath_Join [d, n] = filepath_Clean ?p"
    using d n by (simp add: filepath_Join_def plain_name_def)
  also have "\<dots> = (let b = (if clean_elems d = [] then n else ?body @ CHR ''/'' # n)
      in if ?r then CHR ''/'' # b else b)"
    using d n by (simp add: filepath_Clean_def el join_slash_snoc plain_name_def)
  finally have J: "filepath_Join [d, n] = \<dots>" .
  have C: "filepath_Clean d =
      (if ?r then CHR ''/'' # ?body else if clean_elems d = [] then ''.'' else ?body)"
    using d by (simp add: filepath_Clean_def join_clean_Nil)
  show ?thesis by (simp add: J C Let_def)
qed

text \<open>Cleaning is idempotent: the elements it keeps are the ones a second pass keeps.\<close>

definition settled_elems :: "bool \<Rightarrow> string list \<Rightarrow> bool" where
  "settled_elems b out \<longleftrightarrow> (\<forall>e \<in> set out. e \<noteq> [] \<and> e \<noteq> ''.'' \<and> CHR ''/'' \<notin> set e) \<and>
     foldl (clean_step b) [] (rev out) = out"

lemma clean_step_cases:
  "clean_step b out e = out \<or> clean_step b out e = [] \<or> clean_step b out e = e # out \<and> e \<noteq> [] \<and> e \<noteq> ''.'' \<or>
   (\<exists>x out'. out = x # out' \<and> clean_step b out e = out' \<and> x \<noteq> ''..'')"
  by (cases out) (simp_all add: clean_step_def)

lemma settled_step:
  assumes "settled_elems b out" and "CHR ''/'' \<notin> set e"
  shows "settled_elems b (clean_step b out e)"
proof -
  consider "clean_step b out e = out" | "clean_step b out e = []"
    | (push) "clean_step b out e = e # out" "e \<noteq> []" "e \<noteq> ''.''"
    | (pop) x out' where "out = x # out'" "clean_step b out e = out'" "x \<noteq> ''..''"
    using clean_step_cases [of b out e] by blast
  then show ?thesis
  proof cases
    case push
    then show ?thesis using assms by (simp add: settled_elems_def)
  next
    case pop
    let ?Y = "foldl (clean_step b) [] (rev out')"
    have el: "\<forall>e \<in> set (x # out'). e \<noteq> [] \<and> e \<noteq> ''.'' \<and> CHR ''/'' \<notin> set e"
      and fo: "clean_step b ?Y x = x # out'"
      using assms(1) pop(1) by (simp_all add: settled_elems_def)
    have "clean_step b ?Y x = x # ?Y" using el pop(3) by (simp add: clean_step_def)
    then show ?thesis using el fo pop(2) by (simp add: settled_elems_def)
  qed (use assms in \<open>simp_all add: settled_elems_def\<close>)
qed

lemma settled_foldl: "settled_elems b out \<Longrightarrow> (\<And>e. e \<in> set es \<Longrightarrow> CHR ''/'' \<notin> set e) \<Longrightarrow> settled_elems b (foldl (clean_step b) out es)"
  by (induction es arbitrary: out) (simp_all add: settled_step)

lemma split_slash_elems: "e \<in> set (split_slash s) \<Longrightarrow> CHR ''/'' \<notin> set e"
  by (induction s arbitrary: e) (auto split: list.splits if_splits)

lemma split_join: "xs \<noteq> [] \<Longrightarrow> (\<And>e. e \<in> set xs \<Longrightarrow> CHR ''/'' \<notin> set e) \<Longrightarrow> split_slash (join_slash xs) = xs"
  by (induction xs rule: join_slash.induct) (auto simp: split_slash_append split_slash_no_slash)

lemma clean_elems_settled: "settled_elems (p \<noteq> [] \<and> hd p = CHR ''/'') (clean_elems p)"
  unfolding clean_elems_def
  by (rule settled_foldl) (auto simp: settled_elems_def split_slash_elems)

lemma clean_body_head:
  assumes "clean_elems d \<noteq> []"
  shows "join_slash (rev (clean_elems d)) \<noteq> [] \<and> hd (join_slash (rev (clean_elems d))) \<noteq> CHR ''/''"
proof -
  obtain x xs where x: "rev (clean_elems d) = x # xs" using assms by (cases "rev (clean_elems d)") auto
  then have "x \<in> set (clean_elems d)" by (metis list.set_intros(1) set_rev)
  then have "x \<noteq> [] \<and> CHR ''/'' \<notin> set x" using clean_elems_settled [of d] by (auto simp: settled_elems_def)
  then show ?thesis using x by (cases x; cases xs) auto
qed

lemma clean_elems_Clean: "d \<noteq> [] \<Longrightarrow> clean_elems (filepath_Clean d) = clean_elems d"
proof -
  assume d: "d \<noteq> []"
  let ?r = "hd d = CHR ''/''" and ?E = "clean_elems d"
  have s: "settled_elems ?r ?E" using clean_elems_settled [of d] d by simp
  have sp: "?E \<noteq> [] \<Longrightarrow> split_slash (join_slash (rev ?E)) = rev ?E"
    using s by (intro split_join) (auto simp: settled_elems_def)
  have f: "foldl (clean_step ?r) [] (rev ?E) = ?E" using s by (simp add: settled_elems_def)
  note h = clean_body_head [of d]
  show ?thesis
  proof (cases "?E = []")
    case True
    then show ?thesis by (simp add: filepath_Clean_def clean_elems_def clean_step_def)
  next
    case False
    then show ?thesis
      using sp h f d by (cases ?r) (simp_all add: filepath_Clean_def clean_elems_def clean_step_def)
  qed
qed

lemma Join_elems:
  assumes "d \<noteq> []" and "plain_name n"
  shows "clean_elems (filepath_Join [d, n]) = n # clean_elems d" and "filepath_Join [d, n] \<noteq> []"
proof -
  let ?p = "d @ CHR ''/'' # n"
  have J: "filepath_Join [d, n] = filepath_Clean ?p"
    using assms by (simp add: filepath_Join_def plain_name_def)
  have "clean_elems ?p = n # clean_elems d"
    using assms by (simp add: clean_elems_def split_slash_append split_slash_no_slash plain_name_def clean_step_def)
  then show "clean_elems (filepath_Join [d, n]) = n # clean_elems d"
    using clean_elems_Clean [of ?p] by (simp add: J)
  moreover have "clean_elems [] = []" by (simp add: clean_elems_def clean_step_def)
  ultimately show "filepath_Join [d, n] \<noteq> []" by (metis list.distinct(1))
qed

lemma Join_inject:
  "d \<noteq> [] \<Longrightarrow> plain_name n \<Longrightarrow> plain_name m \<Longrightarrow> filepath_Join [d, n] = filepath_Join [d, m] \<longleftrightarrow> n = m"
  using Join_elems(1) [of d n] Join_elems(1) [of d m] by (metis list.inject)

lemma Join_append:
  assumes "d \<noteq> []" and "plain_name n" and "plain_name (n @ s)"
  shows "filepath_Join [d, n] @ s = filepath_Join [d, n @ s]"
  using assms by (simp add: Join_plain)

lemma Join_levels:
  assumes "d \<noteq> []" and "plain_name n" and "plain_name m" and "plain_name k"
  shows "filepath_Join [d, k] \<noteq> filepath_Join [filepath_Join [d, n], m]"
proof
  assume "filepath_Join [d, k] = filepath_Join [filepath_Join [d, n], m]"
  then have "k # clean_elems d = m # n # clean_elems d"
    using Join_elems [of d k] Join_elems [of d n] Join_elems(1) [of "filepath_Join [d, n]" m] assms by simp
  then show False by simp
qed

section \<open>Parsing decimal numbers\<close>

text \<open>\<^verbatim>\<open>strconv.ParseUint(v, 10, 32)\<close>; \<open>None\<close> is a syntax or range error.\<close>

definition ParseUint32 :: "string \<Rightarrow> nat option" where
  "ParseUint32 v =
     (if v = [] \<or> \<not> list_all is_digit v then None
      else if undec v < 2 ^ 32 then Some (undec v) else None)"

lemma ParseUint32_dec: "n < 2 ^ 32 \<Longrightarrow> ParseUint32 (dec n) = Some n"
  by (auto simp: ParseUint32_def list_all_iff dec_digits)

end
