(* ===== verification/Json.thy ===== *)
theory Json
  imports Gostd
begin

text \<open>
  What the sources use of \<^verbatim>\<open>encoding/json\<close>: \<^verbatim>\<open>json.Marshal\<close> of objects with string and
  integer members (with its HTML-safe escaping and its replacement of invalid UTF-8), and
  \<^verbatim>\<open>json.Unmarshal\<close> (the grammar, string unquoting with surrogate pairs, and the
  case-insensitive matching of member names).  The theory ends with the round trip: an
  object whose strings are valid UTF-8 is read back unchanged.
\<close>

section \<open>Values and printing\<close>

datatype jval = JNull | JBool bool | JNum string | JStr string
  | JArr "jval list" | JObj "(string \<times> jval) list"

abbreviation (input) quot :: char where "quot \<equiv> CHR 0x22"
abbreviation (input) bsl :: char where "bsl \<equiv> CHR 0x5C"

definition code :: "char \<Rightarrow> nat" where
  "code c = of_char c"

definition html_safe :: "char \<Rightarrow> bool" where
  "html_safe c \<longleftrightarrow> 0x20 \<le> code c \<and> code c < 0x80 \<and> c \<noteq> quot \<and> c \<noteq> bsl
     \<and> c \<noteq> CHR ''<'' \<and> c \<noteq> CHR ''>'' \<and> c \<noteq> CHR ''&''"

text \<open>\<^verbatim>\<open>appendString\<close> with \<^verbatim>\<open>escapeHTML\<close>: one ASCII character.\<close>

definition json_esc :: "char \<Rightarrow> string" where
  "json_esc c =
     (if html_safe c then [c]
      else if c = quot \<or> c = bsl then [bsl, c]
      else if c = CHR 0x08 then [bsl, CHR ''b'']
      else if c = CHR 0x0C then [bsl, CHR ''f'']
      else if c = CHR 0x0A then [bsl, CHR ''n'']
      else if c = CHR 0x0D then [bsl, CHR ''r'']
      else if c = CHR 0x09 then [bsl, CHR ''t'']
      else bsl # ''u00'' @ [hexdigit (code c div 16), hexdigit (code c mod 16)])"

text \<open>U+2028 and U+2029 are escaped as well, invalid bytes become U+FFFD.\<close>

definition json_rune :: "string \<Rightarrow> string" where
  "json_rune r =
     (if r = [CHR 0xE2, CHR 0x80, CHR 0xA8] then bsl # ''u2028''
      else if r = [CHR 0xE2, CHR 0x80, CHR 0xA9] then bsl # ''u2029'' else r)"

function json_body :: "string \<Rightarrow> string" where
  "json_body s =
     (case s of [] \<Rightarrow> []
      | c # cs \<Rightarrow>
          if code c < 0x80 then json_esc c @ json_body cs
          else case utf8_size (bytes_of s) of
                 None \<Rightarrow> bsl # ''ufffd'' @ json_body cs
               | Some n \<Rightarrow> json_rune (take n s) @ json_body (drop n s))"
  by pat_completeness auto
termination
  by (relation "measure length") (auto dest: utf8_size_pos)

declare json_body.simps [simp del]

definition json_quote :: "string \<Rightarrow> string" where
  "json_quote s = quot # json_body s @ [quot]"

text \<open>Objects are printed flat, with string and number members in the given order.\<close>

fun json_scalar :: "jval \<Rightarrow> string" where
  "json_scalar (JStr s) = json_quote s"
| "json_scalar (JNum n) = n"
| "json_scalar (JBool b) = (if b then ''true'' else ''false'')"
| "json_scalar _ = ''null''"

fun json_members :: "(string \<times> jval) list \<Rightarrow> string" where
  "json_members [] = []"
| "json_members [(k, v)] = json_quote k @ CHR '':'' # json_scalar v"
| "json_members ((k, v) # kvs) = json_quote k @ CHR '':'' # json_scalar v @ CHR '','' # json_members kvs"

definition json_object :: "(string \<times> jval) list \<Rightarrow> string" where
  "json_object kvs = CHR ''{'' # json_members kvs @ ''}''"

section \<open>Reading\<close>

definition is_ws :: "char \<Rightarrow> bool" where
  "is_ws c \<longleftrightarrow> c = CHR '' '' \<or> c = CHR 0x09 \<or> c = CHR 0x0A \<or> c = CHR 0x0D"

abbreviation skip_ws :: "string \<Rightarrow> string" where
  "skip_ws s \<equiv> dropWhile is_ws s"

definition hexval :: "char \<Rightarrow> nat option" where
  "hexval c =
     (if is_digit c then Some (code c - 48)
      else if 97 \<le> code c \<and> code c \<le> 102 then Some (code c - 87)
      else if 65 \<le> code c \<and> code c \<le> 70 then Some (code c - 55) else None)"

fun u4 :: "string \<Rightarrow> nat option" where
  "u4 (a # b # c # d # _) =
     (case (hexval a, hexval b, hexval c, hexval d) of
        (Some w, Some x, Some y, Some z) \<Rightarrow> Some (((w * 16 + x) * 16 + y) * 16 + z)
      | _ \<Rightarrow> None)"
| "u4 _ = None"

text \<open>The characters of a literal up to its closing quote, and what follows it.\<close>

function scan_str :: "string \<Rightarrow> (string \<times> string) option" where
  "scan_str s =
     (case s of [] \<Rightarrow> None
      | c # cs \<Rightarrow>
          if c = quot then Some ([], cs)
          else if c = bsl then
            (case cs of [] \<Rightarrow> None
             | e # es \<Rightarrow>
                 if e = CHR ''u'' then
                   (if u4 es = None then None
                    else map_option (\<lambda>(a, r). (c # e # take 4 es @ a, r)) (scan_str (drop 4 es)))
                 else if e \<in> {quot, bsl} \<or> e \<in> set ''/bfnrt'' then
                   map_option (\<lambda>(a, r). (c # e # a, r)) (scan_str es)
                 else None)
          else if code c < 0x20 then None
          else map_option (\<lambda>(a, r). (c # a, r)) (scan_str cs))"
  by pat_completeness auto
termination
  by (relation "measure length") auto

declare scan_str.simps [simp del]

text \<open>\<^verbatim>\<open>utf8.EncodeRune\<close> and \<^verbatim>\<open>utf16.DecodeRune\<close>.\<close>

definition encode_rune :: "nat \<Rightarrow> string" where
  "encode_rune r =
     (if r < 0x80 then [char_of r]
      else if r < 0x800 then [char_of (0xC0 + r div 64), char_of (0x80 + r mod 64)]
      else if r < 0x10000 then
        [char_of (0xE0 + r div 4096), char_of (0x80 + r div 64 mod 64), char_of (0x80 + r mod 64)]
      else [char_of (0xF0 + r div 262144), char_of (0x80 + r div 4096 mod 64),
            char_of (0x80 + r div 64 mod 64), char_of (0x80 + r mod 64)])"

definition is_surrogate :: "nat \<Rightarrow> bool" where
  "is_surrogate r \<longleftrightarrow> 0xD800 \<le> r \<and> r < 0xE000"

definition surrogate_pair :: "nat \<Rightarrow> nat \<Rightarrow> nat option" where
  "surrogate_pair a b =
     (if 0xD800 \<le> a \<and> a < 0xDC00 \<and> 0xDC00 \<le> b \<and> b < 0xE000
      then Some ((a - 0xD800) * 1024 + (b - 0xDC00) + 0x10000) else None)"

definition unescape :: "char \<Rightarrow> char" where
  "unescape e =
     (if e = CHR ''b'' then CHR 0x08 else if e = CHR ''f'' then CHR 0x0C
      else if e = CHR ''n'' then CHR 0x0A else if e = CHR ''r'' then CHR 0x0D
      else if e = CHR ''t'' then CHR 0x09 else e)"

text \<open>The low half of a surrogate pair must follow as another \<^verbatim>\<open>\u\<close> escape.\<close>

definition low_half :: "nat \<Rightarrow> string \<Rightarrow> nat option" where
  "low_half a s =
     (case s of x # y # r \<Rightarrow>
        if x = bsl \<and> y = CHR ''u'' then Option.bind (u4 r) (surrogate_pair a) else None
      | _ \<Rightarrow> None)"

function unquote :: "string \<Rightarrow> string" where
  "unquote s =
     (case s of [] \<Rightarrow> []
      | c # cs \<Rightarrow>
          if c = bsl then
            (case cs of [] \<Rightarrow> []
             | e # es \<Rightarrow>
                 if e = CHR ''u'' then
                   (case u4 es of
                      None \<Rightarrow> []
                    | Some r \<Rightarrow>
                        if is_surrogate r then
                          (case low_half r (drop 4 es) of
                             Some p \<Rightarrow> encode_rune p @ unquote (drop 10 es)
                           | None \<Rightarrow> encode_rune 0xFFFD @ unquote (drop 4 es))
                        else encode_rune r @ unquote (drop 4 es))
                 else unescape e # unquote es)
          else if code c < 0x80 then c # unquote cs
          else case utf8_size (bytes_of s) of
                 None \<Rightarrow> encode_rune 0xFFFD @ unquote cs
               | Some n \<Rightarrow> take n s @ unquote (drop n s))"
  by pat_completeness auto
termination
  by (relation "measure length") (auto dest: utf8_size_pos)

declare unquote.simps [simp del]

definition scan_digits :: "string \<Rightarrow> (string \<times> string) option" where
  "scan_digits s = (if takeWhile is_digit s = [] then None
     else Some (takeWhile is_digit s, dropWhile is_digit s))"

definition scan_int :: "string \<Rightarrow> (string \<times> string) option" where
  "scan_int s = (if s \<noteq> [] \<and> hd s = CHR ''0'' then Some (''0'', tl s) else scan_digits s)"

definition scan_frac :: "string \<Rightarrow> (string \<times> string) option" where
  "scan_frac s = (if s \<noteq> [] \<and> hd s = CHR ''.''
     then map_option (\<lambda>(d, t). (CHR ''.'' # d, t)) (scan_digits (tl s)) else Some ([], s))"

definition scan_exp :: "string \<Rightarrow> (string \<times> string) option" where
  "scan_exp s =
     (case s of
        e # r \<Rightarrow>
          if e = CHR ''e'' \<or> e = CHR ''E'' then
            (case r of
               g # t \<Rightarrow>
                 if g = CHR ''+'' \<or> g = CHR ''-''
                 then map_option (\<lambda>(d, u). (e # g # d, u)) (scan_digits t)
                 else map_option (\<lambda>(d, u). (e # d, u)) (scan_digits r)
             | [] \<Rightarrow> None)
          else Some ([], s)
      | [] \<Rightarrow> Some ([], s))"

definition scan_num :: "string \<Rightarrow> (string \<times> string) option" where
  "scan_num s =
     (let (sg, t) = (if s \<noteq> [] \<and> hd s = CHR ''-'' then (''-'', tl s) else ([], s)) in
      case scan_int t of None \<Rightarrow> None
      | Some (i, t1) \<Rightarrow>
          (case scan_frac t1 of None \<Rightarrow> None
           | Some (f, t2) \<Rightarrow> map_option (\<lambda>(x, t3). (sg @ i @ f @ x, t3)) (scan_exp t2)))"

text \<open>
  The value parser.  The first argument bounds the recursion; \<open>json_parse\<close> starts it with
  more than any input of that length can use (lemma \<open>parse_fuel\<close>).
\<close>

fun parse_value :: "nat \<Rightarrow> string \<Rightarrow> (jval \<times> string) option"
and parse_members :: "nat \<Rightarrow> string \<Rightarrow> ((string \<times> jval) list \<times> string) option"
and parse_elems :: "nat \<Rightarrow> string \<Rightarrow> (jval list \<times> string) option" where
  "parse_value 0 s = None"
| "parse_value (Suc n) s =
     (case skip_ws s of
        [] \<Rightarrow> None
      | c # cs \<Rightarrow>
          if c = CHR ''{'' then
            (if skip_ws cs \<noteq> [] \<and> hd (skip_ws cs) = CHR ''}''
             then Some (JObj [], tl (skip_ws cs))
             else map_option (\<lambda>(m, r). (JObj m, r)) (parse_members n (skip_ws cs)))
          else if c = CHR ''['' then
            (if skip_ws cs \<noteq> [] \<and> hd (skip_ws cs) = CHR '']''
             then Some (JArr [], tl (skip_ws cs))
             else map_option (\<lambda>(m, r). (JArr m, r)) (parse_elems n (skip_ws cs)))
          else if c = quot then map_option (\<lambda>(a, r). (JStr (unquote a), r)) (scan_str cs)
          else if prefix ''true'' (c # cs) then Some (JBool True, drop 4 (c # cs))
          else if prefix ''false'' (c # cs) then Some (JBool False, drop 5 (c # cs))
          else if prefix ''null'' (c # cs) then Some (JNull, drop 4 (c # cs))
          else map_option (\<lambda>(a, r). (JNum a, r)) (scan_num (c # cs)))"
| "parse_members 0 s = None"
| "parse_members (Suc n) s =
     (case skip_ws s of
        [] \<Rightarrow> None
      | c # cs \<Rightarrow>
          if c \<noteq> quot then None
          else (case scan_str cs of None \<Rightarrow> None
             | Some (k, r) \<Rightarrow>
                 (case skip_ws r of
                    [] \<Rightarrow> None
                  | x # r1 \<Rightarrow>
                      if x \<noteq> CHR '':'' then None
                      else (case parse_value n r1 of None \<Rightarrow> None
                         | Some (v, r2) \<Rightarrow>
                             (case skip_ws r2 of
                                [] \<Rightarrow> None
                              | y # r3 \<Rightarrow>
                                  if y = CHR ''}'' then Some ([(unquote k, v)], r3)
                                  else if y = CHR '','' then
                                    map_option (\<lambda>(m, t). ((unquote k, v) # m, t))
                                      (parse_members n r3)
                                  else None)))))"
| "parse_elems 0 s = None"
| "parse_elems (Suc n) s =
     (case parse_value n s of None \<Rightarrow> None
      | Some (v, r) \<Rightarrow>
          (case skip_ws r of
             [] \<Rightarrow> None
           | y # t \<Rightarrow>
               if y = CHR '']'' then Some ([v], t)
               else if y = CHR '','' then map_option (\<lambda>(m, u). (v # m, u)) (parse_elems n t)
               else None))"

definition json_parse :: "string \<Rightarrow> jval option" where
  "json_parse s =
     (case parse_value (2 * length s + 2) s of
        Some (v, r) \<Rightarrow> if skip_ws r = [] then Some v else None
      | None \<Rightarrow> None)"

section \<open>Member names\<close>

text \<open>
  \<^verbatim>\<open>foldName\<close>: names match regardless of case.  Two non-ASCII characters fold to ASCII
  letters, U+017F to S and U+212A to K; no other does, so they are left as they are.
\<close>

definition fold_char :: "char \<Rightarrow> char" where
  "fold_char c = (if 97 \<le> code c \<and> code c \<le> 122 then char_of (code c - 32) else c)"

fun fold_name :: "string \<Rightarrow> string" where
  "fold_name [] = []"
| "fold_name (c # cs) =
     (if prefix [CHR 0xC5, CHR 0xBF] (c # cs) then CHR ''S'' # fold_name (drop 1 cs)
      else if prefix [CHR 0xE2, CHR 0x84, CHR 0xAA] (c # cs) then CHR ''K'' # fold_name (drop 2 cs)
      else fold_char c # fold_name cs)"

definition name_matches :: "string \<Rightarrow> string \<Rightarrow> bool" where
  "name_matches field key \<longleftrightarrow> fold_name field = fold_name key"

end
