(* ===== verification/Json_Fuel.thy ===== *)
theory Json_Fuel
  imports Json
begin

text \<open>
  The recursion bound of the JSON reader is large enough: every function of the parser
  consumes input, and past twice the length of the input more fuel changes nothing.  So a
  document that \<^const>\<open>json_parse\<close> refuses is refused because of its text.
\<close>

lemma scan_str_consumes: "scan_str s = Some (a, r) \<Longrightarrow> length r < length s"
proof (induction "length s" arbitrary: s a rule: less_induct)
  case less
  have IH: "scan_str t = Some (b, r) \<Longrightarrow> length t < length s \<Longrightarrow> length r < length t" for t b
    using less.hyps by blast
  show ?case
  proof (cases s)
    case Nil
    with less.prems show ?thesis by (simp add: scan_str.simps)
  next
    case (Cons c cs)
    have "r = cs \<or> (\<exists>t b. scan_str t = Some (b, r) \<and> length t \<le> length cs)"
    proof (cases "c = bsl")
      case False
      with less.prems Cons show ?thesis
        by (subst (asm) scan_str.simps) (auto split: if_splits)
    next
      case True
      with less.prems Cons obtain e es where es: "cs = e # es"
        by (subst (asm) scan_str.simps) (auto split: list.splits)
      have "(\<exists>b. scan_str es = Some (b, r)) \<or> (\<exists>b. scan_str (drop 4 es) = Some (b, r))"
        using less.prems True unfolding Cons es
        by (subst (asm) scan_str.simps) (auto split: if_splits)
      moreover have "length es \<le> length cs" "length (drop 4 es) \<le> length cs"
        by (simp_all add: es)
      ultimately show ?thesis by blast
    qed
    then show ?thesis using IH Cons by fastforce
  qed
qed

lemma scan_digits_consumes: "scan_digits s = Some (a, r) \<Longrightarrow> length r < length s"
  by (cases s) (auto simp: scan_digits_def le_imp_less_Suc length_dropWhile_le split: if_splits)

lemma scan_int_consumes: "scan_int s = Some (a, r) \<Longrightarrow> length r < length s"
  by (auto simp: scan_int_def split: if_splits dest: scan_digits_consumes)

lemma scan_frac_consumes: "scan_frac s = Some (a, r) \<Longrightarrow> length r \<le> length s"
  by (auto simp: scan_frac_def split: if_splits dest!: scan_digits_consumes)

lemma scan_exp_consumes: "scan_exp s = Some (a, r) \<Longrightarrow> length r \<le> length s"
  by (auto simp: scan_exp_def split: list.splits if_splits dest!: scan_digits_consumes)

lemma scan_num_consumes: "scan_num s = Some (a, r) \<Longrightarrow> length r < length s"
  by (auto simp: scan_num_def Let_def split: option.splits if_splits
      dest!: scan_int_consumes scan_frac_consumes scan_exp_consumes)

lemma skip_ws_length: "length (skip_ws s) \<le> length s"
  by (rule length_dropWhile_le)

lemma skip_ws_Cons: "skip_ws s = c # cs \<Longrightarrow> length cs < length s"
  using skip_ws_length [of s] by simp

lemma skip_ws_tl: "skip_ws s \<noteq> [] \<Longrightarrow> length (tl (skip_ws s)) < length s"
  using skip_ws_length [of s] by (cases "skip_ws s") auto

lemmas consumes = scan_str_consumes scan_num_consumes skip_ws_Cons skip_ws_tl

lemma parse_consumes:
  "parse_value n s = Some (v, r) \<Longrightarrow> length r < length s"
  "parse_members n s = Some (m, r) \<Longrightarrow> length r < length s"
  "parse_elems n s = Some (e, r) \<Longrightarrow> length r < length s"
proof (induction n s and n s and n s arbitrary: v r and m r and e r
    rule: parse_value_parse_members_parse_elems.induct)
  case (2 n s)
  from 2(3) obtain c cs where c: "skip_ws s = c # cs" by (auto split: list.splits)
  have "length cs < length s" using c by (rule skip_ws_Cons)
  note cs = this skip_ws_length [of cs] skip_ws_tl [of cs]
  note pv = 2(3) [unfolded parse_value.simps(2) c list.case]
  let ?t = "skip_ws cs"
  consider (empty) "?t \<noteq> []" "r = tl ?t"
    | (obj) m where "c = CHR ''{''" "\<not> (?t \<noteq> [] \<and> hd ?t = CHR ''}'')" "parse_members n ?t = Some (m, r)"
    | (arr) e where "c \<noteq> CHR ''{''" "c = CHR ''[''" "\<not> (?t \<noteq> [] \<and> hd ?t = CHR '']'')"
        "parse_elems n ?t = Some (e, r)"
    | (str) a where "scan_str cs = Some (a, r)"
    | (num) a where "scan_num (c # cs) = Some (a, r)"
    | (lit) "r = drop 4 (c # cs) \<or> r = drop 5 (c # cs)"
    using pv by (simp split: if_splits) blast+
  then show ?case
  proof cases
    case empty
    then show ?thesis using cs by simp
  next
    case obj
    then show ?thesis using cs 2(1) [OF c obj] by linarith
  next
    case arr
    then show ?thesis using cs 2(2) [OF c arr] by linarith
  next
    case str
    then show ?thesis using cs scan_str_consumes [OF str] by linarith
  next
    case num
    have "length (c # cs) \<le> length s" using skip_ws_length [of s] c by simp
    then show ?thesis using scan_num_consumes [OF num] by linarith
  next
    case lit
    then show ?thesis using cs by auto
  qed
next
  case (4 n s)
  from 4(3) obtain cs k r0 r1 v r2 y r3 where c: "skip_ws s = quot # cs"
    and k: "scan_str cs = Some (k, r0)" and x: "skip_ws r0 = CHR '':'' # r1"
    and v: "parse_value n r1 = Some (v, r2)" and y: "skip_ws r2 = y # r3"
    and r: "r = r3 \<or> y \<noteq> CHR ''}'' \<and> y = CHR '','' \<and> (\<exists>m. parse_members n r3 = Some (m, r))"
    by (auto split: list.splits option.splits if_splits)
  have "length r3 < length s"
    using skip_ws_Cons [OF c] scan_str_consumes [OF k] skip_ws_Cons [OF x]
      4(1) [OF c _ k _ x _ v] skip_ws_Cons [OF y] by fastforce
  with r 4(2) [OF c _ k _ x _ v _ y] show ?case by fastforce
next
  case (6 n s)
  from 6(3) obtain v r2 y r3 where v: "parse_value n s = Some (v, r2)" and y: "skip_ws r2 = y # r3"
    and r: "r = r3 \<or> y \<noteq> CHR '']'' \<and> y = CHR '','' \<and> (\<exists>m. parse_elems n r3 = Some (m, r))"
    by (auto split: list.splits option.splits if_splits)
  have "length r3 < length s" using 6(1) [OF v] skip_ws_Cons [OF y] by linarith
  with r 6(2) [OF v _ y] show ?case by fastforce
qed simp_all

lemma parse_value_step:
  assumes "\<And>c cs. skip_ws s = c # cs \<Longrightarrow> parse_members m (skip_ws cs) = parse_members n (skip_ws cs)"
    and "\<And>c cs. skip_ws s = c # cs \<Longrightarrow> parse_elems m (skip_ws cs) = parse_elems n (skip_ws cs)"
  shows "parse_value (Suc m) s = parse_value (Suc n) s"
proof (cases "skip_ws s")
  case Nil
  show ?thesis by (simp only: parse_value.simps(2) Nil list.case)
next
  case (Cons c cs)
  show ?thesis
    by (simp only: parse_value.simps(2) Cons list.case assms(1) [OF Cons] assms(2) [OF Cons])
qed

lemma parse_members_step:
  assumes "\<And>t. length t < length s \<Longrightarrow> parse_value m t = parse_value n t"
    and "\<And>t. length t < length s \<Longrightarrow> parse_members m t = parse_members n t"
  shows "parse_members (Suc m) s = parse_members (Suc n) s"
proof -
  have "skip_ws s = c # cs \<Longrightarrow> scan_str cs = Some (k, r) \<Longrightarrow> skip_ws r = x # r1 \<Longrightarrow>
      length r1 < length s" for c cs k r x r1
    by (auto dest!: consumes)
  moreover have "skip_ws s = c # cs \<Longrightarrow> scan_str cs = Some (k, r) \<Longrightarrow> skip_ws r = x # r1 \<Longrightarrow>
      parse_value n r1 = Some (v, r2) \<Longrightarrow> skip_ws r2 = y # r3 \<Longrightarrow>
      length r3 < length s" for c cs k r x r1 v r2 y r3
    by (auto dest!: consumes parse_consumes)
  ultimately show ?thesis using assms by (simp del: dropWhile_eq_Nil_conv split: list.split option.split)
qed

lemma parse_elems_step:
  assumes "parse_value m s = parse_value n s"
    and "\<And>t. length t < length s \<Longrightarrow> parse_elems m t = parse_elems n t"
  shows "parse_elems (Suc m) s = parse_elems (Suc n) s"
proof -
  have "parse_value n s = Some (v, r) \<Longrightarrow> skip_ws r = y # t \<Longrightarrow> length t < length s" for v r y t
    by (auto dest!: consumes parse_consumes)
  then show ?thesis using assms by (simp del: dropWhile_eq_Nil_conv split: list.split option.split)
qed

lemma parse_more_fuel:
  "(2 * length s + 1 \<le> n \<longrightarrow> parse_value (Suc n) s = parse_value n s) \<and>
   (2 * length s + 1 \<le> n \<longrightarrow> parse_members (Suc n) s = parse_members n s) \<and>
   (2 * length s + 2 \<le> n \<longrightarrow> parse_elems (Suc n) s = parse_elems n s)"
proof (induction n arbitrary: s)
  case 0
  then show ?case by simp
next
  case (Suc n)
  note IH = Suc.IH
  have "parse_value (Suc (Suc n)) s = parse_value (Suc n) s" if f: "2 * length s + 1 \<le> Suc n"
  proof (rule parse_value_step)
    fix c cs
    assume "skip_ws s = c # cs"
    then have "length cs < length s" by (rule skip_ws_Cons)
    with f skip_ws_length [of cs] have "2 * length (skip_ws cs) + 2 \<le> n" by linarith
    with IH [of "skip_ws cs"]
    show "parse_members (Suc n) (skip_ws cs) = parse_members n (skip_ws cs)"
      and "parse_elems (Suc n) (skip_ws cs) = parse_elems n (skip_ws cs)"
      by simp_all
  qed
  moreover have "parse_members (Suc (Suc n)) s = parse_members (Suc n) s"
    if f: "2 * length s + 1 \<le> Suc n"
    using f IH by (intro parse_members_step) auto
  moreover have "parse_elems (Suc (Suc n)) s = parse_elems (Suc n) s"
    if f: "2 * length s + 2 \<le> Suc n"
    using f IH by (intro parse_elems_step) auto
  ultimately show ?case by blast
qed

text \<open>Any larger bound gives the same answer as the one \<^const>\<open>json_parse\<close> uses.\<close>

lemma parse_fuel: "parse_value (2 * length s + 2 + k) s = parse_value (2 * length s + 2) s"
proof (induction k)
  case (Suc k)
  have "parse_value (Suc (2 * length s + 2 + k)) s = parse_value (2 * length s + 2 + k) s"
    using parse_more_fuel [of s "2 * length s + 2 + k"] by simp
  with Suc show ?case by simp
qed simp

end
