(* ===== verification/Wire.thy ===== *)
theory Wire
  imports Gostd
begin

text \<open>
  The frame format of \<^verbatim>\<open>dataexchange.go\<close>: the frame types and their names, the frame cap
  read from the environment, and the body of a frame, that is the bytes after its eight-byte
  header (\<open>wirePayload\<close> builds it, \<open>parseFramePayload\<close> reads it), with the trace body.  The
  header itself and the tagged wrapper are added in \<^verbatim>\<open>Frames\<close> and \<^verbatim>\<open>Tagged\<close>.
\<close>

section \<open>Constants\<close>

definition TypeText :: u32 where [simp]: "TypeText = 1"
definition TypeBinary :: u32 where [simp]: "TypeBinary = 2"
definition TypeJSON :: u32 where [simp]: "TypeJSON = 3"
definition TypeFile :: u32 where [simp]: "TypeFile = 4"
definition TypeTrace :: u32 where [simp]: "TypeTrace = 5"
definition TypeFileStream :: u32 where [simp]: "TypeFileStream = 7"
definition TypeGoverned :: u32 where [simp]: "TypeGoverned = 8"
definition TypeGovernedFileStream :: u32 where [simp]: "TypeGovernedFileStream = 9"
definition TypeTagged :: u32 where [simp]: "TypeTagged = 10"

definition maxFilenameLen :: nat where [simp]: "maxFilenameLen = 255"

definition DefaultMaxFrameSize :: u32 where
  "DefaultMaxFrameSize = push_bit 20 64"

definition TypeName :: "u32 \<Rightarrow> string" where
  "TypeName t =
     (if t = TypeText then ''TEXT''
      else if t = TypeBinary then ''BINARY''
      else if t = TypeJSON then ''JSON''
      else if t = TypeFile then ''FILE''
      else if t = TypeTrace then ''TRACE''
      else if t = TypeFileStream then ''FILESTREAM''
      else if t = TypeGoverned then ''GOVERNED''
      else if t = TypeGovernedFileStream then ''GOVERNED_FILESTREAM''
      else if t = TypeTagged then ''TAGGED''
      else ''UNKNOWN('' @ dec (unat t) @ '')'')"

text \<open>
  The package variable \<^verbatim>\<open>MaxFrameSize\<close> as a function of the environment variable
  \<^verbatim>\<open>PILOT_DATAEXCHANGE_MAX_FRAME\<close> (the empty string when unset).  Everything that uses the
  variable takes it as an argument below.
\<close>

definition MaxFrameSize :: "string \<Rightarrow> u32" where
  "MaxFrameSize v =
     (if v = [] then DefaultMaxFrameSize
      else case ParseUint32 v of
             None \<Rightarrow> DefaultMaxFrameSize
           | Some n \<Rightarrow> if n < 2 ^ 16 \<or> 2 ^ 31 \<le> n then DefaultMaxFrameSize else word_of_nat n)"

section \<open>Frames and errors\<close>

record Frame =
  Type :: u32
  Payload :: bytes
  Filename :: string
  MessageID :: string
  ReplyTo :: string

record TraceFrame =
  SentAtNs :: int
  InnerType :: u32
  TracePayload :: bytes

text \<open>One constructor per error the package builds or passes on.\<close>

datatype error =
    Io ioerr
  | FrameTooLarge u32 u32
  | FilenameTooLong nat
  | FilenameInvalidUTF8
  | FilenameTraversalChars
  | FilenameTraversalName string
  | NotTrace u32
  | TraceTooShort nat
  | InvalidMessageID
  | InvalidReplyTo
  | TaggedInTagged
  | TaggedFrameTooLarge nat nat u32
  | TaggedTooShort nat
  | TaggedHeaderLen nat
  | TaggedTruncated nat nat
  | JsonSyntax
  | JsonType
  | TaggedHeaderError error
  | TaggedNested
  | DataexchangeError error
  | FrameRequired
  | ReadAck error
  | Rejected string

definition mkFrame :: "u32 \<Rightarrow> bytes \<Rightarrow> Frame" where
  "mkFrame t p = \<lparr>Type = t, Payload = p, Filename = [], MessageID = [], ReplyTo = []\<rparr>"

lemma mkFrame_sel [simp]:
  "Type (mkFrame t p) = t" "Payload (mkFrame t p) = p" "Filename (mkFrame t p) = []"
  "MessageID (mkFrame t p) = []" "ReplyTo (mkFrame t p) = []"
  by (simp_all add: mkFrame_def)

section \<open>Frame bodies\<close>

definition wirePayload :: "Frame \<Rightarrow> error + bytes" where
  "wirePayload f =
     (if Type f \<noteq> TypeFile then Inr (Payload f)
      else let name = bytes_of (Filename f) in
           if length name > maxFilenameLen then Inl (FilenameTooLong (length name))
           else Inr (PutUint16 (word_of_nat (length name)) @ name @ Payload f))"

definition ContainsSlash :: "string \<Rightarrow> bool" where
  "ContainsSlash s \<longleftrightarrow> CHR ''/'' \<in> set s \<or> CHR 0x5C \<in> set s"

text \<open>
  A file body that is too short for its length prefix, or for the name the prefix announces,
  is kept whole as the payload of a frame without a name.
\<close>

definition parseFramePayload :: "u32 \<Rightarrow> bytes \<Rightarrow> error + Frame" where
  "parseFramePayload ftype payload =
     (let f = mkFrame ftype payload in
      if ftype = TypeFile \<and> 2 \<le> length payload then
        let nameLen = Uint16 (slice 0 2 payload) in
        if unat nameLen + 2 \<le> length payload then
          if unat nameLen > maxFilenameLen then Inl (FilenameTooLong (unat nameLen))
          else let nameBytes = slice 2 (unat (2 + nameLen)) payload in
            if \<not> utf8_valid nameBytes then Inl FilenameInvalidUTF8
            else let name = string_of nameBytes in
              if ContainsSlash name then Inl FilenameTraversalChars
              else let data = drop (unat (2 + nameLen)) payload in
                if name \<noteq> [] then
                  let b = filepath_Base name in
                  if b = ''.'' \<or> b = ''..'' then Inl (FilenameTraversalName b)
                  else Inr (f\<lparr>Filename := b, Payload := data\<rparr>)
                else Inr (f\<lparr>Payload := data\<rparr>)
        else Inr f
      else Inr f)"

definition tracePayload :: "TraceFrame \<Rightarrow> bytes" where
  "tracePayload tf =
     PutUint32 (InnerType tf) @ PutUint64 (word_of_int (SentAtNs tf)) @ TracePayload tf"

definition ReadTracePayload :: "Frame \<Rightarrow> error + TraceFrame" where
  "ReadTracePayload f =
     (if Type f \<noteq> TypeTrace then Inl (NotTrace (Type f))
      else if length (Payload f) < 12 then Inl (TraceTooShort (length (Payload f)))
      else Inr \<lparr>SentAtNs = sint (Uint64 (slice 4 12 (Payload f))),
                InnerType = Uint32 (slice 0 4 (Payload f)),
                TracePayload = drop 12 (Payload f)\<rparr>)"

section \<open>Well-formed frames\<close>

text \<open>The file names that can travel: what the reader accepts, the empty name included.\<close>

definition valid_filename :: "string \<Rightarrow> bool" where
  "valid_filename n \<longleftrightarrow> length n \<le> maxFilenameLen \<and> utf8_valid (bytes_of n) \<and>
     \<not> ContainsSlash n \<and> n \<noteq> ''.'' \<and> n \<noteq> ''..''"

definition wf_body :: "Frame \<Rightarrow> bool" where
  "wf_body f \<longleftrightarrow> (if Type f = TypeFile then valid_filename (Filename f) else Filename f = [])"

definition untagged :: "Frame \<Rightarrow> bool" where
  "untagged f \<longleftrightarrow> MessageID f = [] \<and> ReplyTo f = []"

lemma Frame_eqI:
  "Type f = Type g \<Longrightarrow> Payload f = Payload g \<Longrightarrow> Filename f = Filename g \<Longrightarrow>
   MessageID f = MessageID g \<Longrightarrow> ReplyTo f = ReplyTo g \<Longrightarrow> f = (g :: Frame)"
  by (cases f; cases g) simp

lemma wirePayload_tags: "wirePayload (f\<lparr>MessageID := a, ReplyTo := b\<rparr>) = wirePayload f"
  by (cases f) (simp add: wirePayload_def Let_def)

lemma wirePayload_wf: "wf_body f \<Longrightarrow> \<exists>p. wirePayload f = Inr p"
  by (auto simp: wirePayload_def wf_body_def valid_filename_def Let_def)

lemma wirePayload_length:
  "wirePayload f = Inr p \<Longrightarrow> length p \<le> length (Payload f) + 2 + maxFilenameLen"
  by (auto simp: wirePayload_def Let_def codec_simps split: if_splits)

text \<open>Reading the body of a well-formed frame gives back the frame without its tags.\<close>

lemma parse_wirePayload:
  assumes wf: "wf_body f" and p: "wirePayload f = Inr p"
  shows "parseFramePayload (Type f) p = Inr (f\<lparr>MessageID := [], ReplyTo := []\<rparr>)"
proof (cases "Type f = TypeFile")
  case False
  with wf p show ?thesis
    by (auto simp: parseFramePayload_def wirePayload_def wf_body_def intro!: Frame_eqI)
next
  case True
  let ?n = "bytes_of (Filename f)"
  have vf: "valid_filename (Filename f)" using wf True by (simp add: wf_body_def)
  then have len: "length (Filename f) \<le> 255" by (simp add: valid_filename_def)
  have pe: "p = PutUint16 (word_of_nat (length (Filename f))) @ ?n @ Payload f"
    using p True by (auto simp: wirePayload_def Let_def split: if_splits)
  have u: "unat (word_of_nat (length (Filename f)) :: u16) = length (Filename f)"
    using len by (simp add: unat_of_nat)
  have u2: "unat (2 + word_of_nat (length (Filename f)) :: u16) = 2 + length (Filename f)"
    using len by (simp add: unat_word_ariths unat_of_nat)
  have d: "drop 2 p = ?n @ Payload f" by (simp add: pe codec_simps)
  have "drop (2 + length (Filename f)) p = drop (length (Filename f)) (drop 2 p)"
    by (simp add: add.commute)
  then have d2: "drop (2 + length (Filename f)) p = Payload f" by (simp add: d)
  have base: "Filename f \<noteq> [] \<Longrightarrow> filepath_Base (Filename f) = Filename f"
    using vf by (auto simp: valid_filename_def ContainsSlash_def intro: Base_no_slash)
  have "2 \<le> length p" and "length (Filename f) + 2 \<le> length p"
    by (simp_all add: pe codec_simps)
  with True vf u u2 d d2 base len show ?thesis
    by (auto simp: parseFramePayload_def Let_def pe codec_simps valid_filename_def
        intro!: Frame_eqI)
qed

text \<open>Conversely, whatever the reader accepts is well-formed.\<close>

lemma parseFramePayload_wf:
  assumes "parseFramePayload t p = Inr f"
  shows "Type f = t \<and> wf_body f \<and> untagged f \<and> length (Payload f) \<le> length p"
proof (cases "t = TypeFile \<and> 2 \<le> length p \<and> unat (Uint16 (slice 0 2 p)) + 2 \<le> length p")
  case False
  then have "f = mkFrame t p"
    using assms by (auto simp: parseFramePayload_def Let_def split: if_splits)
  moreover have "utf8_valid []" by (simp add: utf8_valid.simps)
  ultimately show ?thesis
    by (auto simp: wf_body_def untagged_def valid_filename_def ContainsSlash_def)
next
  case True
  let ?k = "Uint16 (slice 0 2 p)"
  let ?n = "string_of (slice 2 (unat (2 + ?k)) p)"
  from assms True have k: "unat ?k \<le> 255" and v: "utf8_valid (bytes_of ?n)"
    and s: "\<not> ContainsSlash ?n"
    and f: "f = (mkFrame t p)\<lparr>Filename := Filename f, Payload := drop (unat (2 + ?k)) p\<rparr>"
    and nm: "Filename f = ?n \<or> Filename f = filepath_Base ?n \<and> ?n \<noteq> []"
    and nt: "Filename f \<noteq> ''.''" "Filename f \<noteq> ''..''"
    by (auto simp: parseFramePayload_def Let_def split: if_splits)
  have "Filename f = ?n"
    using nm s by (auto simp: ContainsSlash_def Base_no_slash)
  moreover have "unat (2 + ?k) = 2 + unat ?k" using k by (simp add: unat_word_ariths)
  then have "length ?n \<le> 255" using k by simp
  ultimately have "wf_body f" using v s nt f True
    by (metis Frame.select_convs(1) Frame.surjective Frame.update_convs(2,3) maxFilenameLen_def
        mkFrame_def valid_filename_def wf_body_def)
  then show ?thesis using f
    by (metis (no_types, lifting) Frame.ext_inject Frame.surjective Frame.update_convs(2,3)
        diff_le_self length_drop mkFrame_def untagged_def)
qed

lemma ReadTrace_tracePayload:
  assumes "- (2 ^ 63) \<le> SentAtNs tf" and "SentAtNs tf < 2 ^ 63"
  shows "ReadTracePayload (mkFrame TypeTrace (tracePayload tf)) = Inr tf"
proof -
  have s: "sint (word_of_int (SentAtNs tf) :: u64) = SentAtNs tf"
    using assms by (simp add: sint_i64 i64_id)
  let ?p = "tracePayload tf"
  have "slice 0 4 ?p = PutUint32 (InnerType tf)" by (simp add: tracePayload_def codec_simps)
  moreover have "drop 4 ?p = PutUint64 (word_of_int (SentAtNs tf)) @ TracePayload tf"
    by (simp add: tracePayload_def codec_simps)
  then have "slice 4 12 ?p = PutUint64 (word_of_int (SentAtNs tf))"
    and "drop 8 (drop 4 ?p) = TracePayload tf" by (simp_all add: codec_simps)
  moreover have "\<not> length ?p < 12" by (simp add: tracePayload_def codec_simps)
  ultimately show ?thesis
    by (simp add: ReadTracePayload_def codec_simps s)
qed

end
