(* ===== verification/Json_Roundtrip.thy ===== *)
theory Json_Roundtrip
  imports Json
begin

text \<open>
  What printing and reading JSON do to each other: a printed string literal is scanned up to
  its closing quote and unquoted to the original valid UTF-8 string, a printed flat object is
  parsed back to its members, and the recursion bound of \<^const>\<open>json_parse\<close> is never what
  makes a document fail.
\<close>

section \<open>String literals\<close>

lemma byte_of_code: "unat (byte_of c) = code c"
  by (simp add: code_def)

lemma code_less [simp]: "code c < 256"
  by (simp add: code_def)

lemma byte_of_less_iff: "byte_of c < 0x80 \<longleftrightarrow> code c < 0x80"
  by (simp add: word_less_nat_alt code_def)

lemma code_eq_iff: "code a = code b \<longleftrightarrow> a = b"
  by (simp add: code_def)

text \<open>The bytes of a multi-byte encoding are all outside ASCII.\<close>

lemma utf8_high:
  assumes "utf8_size (b # bs) = Some n" and "\<not> b < 0x80" and "x \<in> set (take n (b # bs))"
  shows "\<not> x < 0x80"
proof -
  have lo: "0x80 \<le> utf8_lo c" for c by (simp add: utf8_lo_def)
  show ?thesis
    using assms lo [of b] unfolding utf8_size.simps
    by (auto simp: utf8_cont_def not_less split: if_splits list.splits dest: order_trans)
qed

text \<open>Only the bytes of the encoding itself decide its length.\<close>

lemma utf8_size_take: "utf8_size bs = Some n \<Longrightarrow> utf8_size (take n bs @ r) = Some n"
  by (cases bs) (auto simp: utf8_size.simps split: if_splits list.splits)

definition literal_char :: "char \<Rightarrow> bool" where
  "literal_char c \<longleftrightarrow> 0x20 \<le> code c \<and> c \<noteq> quot \<and> c \<noteq> bsl"

lemma scan_str_literal:
  "\<forall>c \<in> set xs. literal_char c \<Longrightarrow>
   scan_str (xs @ r) = map_option (\<lambda>(a, t). (xs @ a, t)) (scan_str r)"
proof (induction xs)
  case Nil
  then show ?case by (cases "scan_str r") auto
next
  case (Cons x xs)
  then show ?case
    by (subst append_Cons, subst scan_str.simps)
      (cases "scan_str r", auto simp: literal_char_def)
qed

lemma scan_str_close: "scan_str (quot # r) = Some ([], r)"
  by (subst scan_str.simps) simp

lemma scan_str_simple_escape:
  "e \<in> {quot, bsl} \<or> e \<in> set ''/bfnrt'' \<Longrightarrow>
   scan_str (bsl # e # r) = map_option (\<lambda>(a, t). (bsl # e # a, t)) (scan_str r)"
  by (subst scan_str.simps) auto

lemma scan_str_u_escape:
  "length h = 4 \<Longrightarrow> u4 h \<noteq> None \<Longrightarrow>
   scan_str (bsl # CHR ''u'' # h @ r) =
     map_option (\<lambda>(a, t). (bsl # CHR ''u'' # h @ a, t)) (scan_str r)"
proof -
  assume h: "length h = 4" and ok: "u4 h \<noteq> None"
  then obtain a b c d where hh: "h = [a, b, c, d]"
    by (auto simp: length_Suc_conv numeral_eq_Suc)
  have "u4 (h @ r) = u4 h" by (simp add: hh)
  with ok h show ?thesis by (subst scan_str.simps) (auto simp del: u4.simps)
qed

lemma hexval_hexdigit: "d < 16 \<Longrightarrow> hexval (hexdigit d) = Some d"
  by (simp add: hexval_def hexdigit_def is_digit_def code_def)

lemma u4_code: "u4 (''00'' @ [hexdigit (code c div 16), hexdigit (code c mod 16)]) = Some (code c)"
proof -
  have "code c div 16 < 16" by (simp add: less_mult_imp_div_less)
  moreover have "hexval (CHR ''0'') = Some 0" by (simp add: hexval_def is_digit_def code_def)
  ultimately show ?thesis by (simp add: hexval_hexdigit)
qed

lemma scan_str_esc:
  assumes "code c < 0x80"
  shows "scan_str (json_esc c @ r) = map_option (\<lambda>(a, t). (json_esc c @ a, t)) (scan_str r)"
proof -
  consider "html_safe c" | "\<not> html_safe c" "c = quot \<or> c = bsl"
    | "c = CHR 0x08" | "c = CHR 0x0C" | "c = CHR 0x0A" | "c = CHR 0x0D" | "c = CHR 0x09"
    | "json_esc c = bsl # ''u00'' @ [hexdigit (code c div 16), hexdigit (code c mod 16)]"
    by (atomize_elim, unfold json_esc_def, auto)
  then show ?thesis
  proof cases
    case 1
    then have "literal_char c" by (auto simp: html_safe_def literal_char_def)
    with 1 scan_str_literal [of "[c]" r] show ?thesis by (simp add: json_esc_def)
  next
    case 8
    with scan_str_u_escape [of "''00'' @ [hexdigit (code c div 16), hexdigit (code c mod 16)]" r]
      u4_code [of c] show ?thesis by simp
  qed (auto simp: json_esc_def html_safe_def code_def scan_str_simple_escape)
qed

lemma scan_str_rune:
  assumes "utf8_size (bytes_of s) = Some n" and "s = c # cs" and "\<not> code c < 0x80"
  shows "scan_str (json_rune (take n s) @ r) =
    map_option (\<lambda>(a, t). (json_rune (take n s) @ a, t)) (scan_str r)"
proof -
  have u: "u4 ''2028'' \<noteq> None" "u4 ''2029'' \<noteq> None"
    by (simp_all add: hexval_def is_digit_def code_def)
  have "literal_char x" if "x \<in> set (take n s)" for x
  proof -
    from that have x: "byte_of x \<in> set (take n (byte_of c # bytes_of cs))"
      using assms(2) by (metis image_eqI list.set_map list.simps(9) take_map)
    have sz: "utf8_size (byte_of c # bytes_of cs) = Some n" and hi: "\<not> byte_of c < 0x80"
      using assms by (simp_all add: byte_of_less_iff)
    have "\<not> byte_of x < 0x80" by (rule utf8_high [OF sz hi x])
    then have "\<not> code x < 0x80" by (simp add: byte_of_less_iff)
    then show ?thesis by (auto simp: literal_char_def code_def)
  qed
  then have "scan_str (take n s @ r) = map_option (\<lambda>(a, t). (take n s @ a, t)) (scan_str r)"
    by (intro scan_str_literal) blast
  with scan_str_u_escape [of "''2028''" r] scan_str_u_escape [of "''2029''" r] u show ?thesis
    by (simp add: json_rune_def del: u4.simps)
qed

lemma json_body_Nil [simp]: "json_body [] = []"
  by (subst json_body.simps) simp

lemma json_body_Cons:
  "json_body (c # cs) =
     (if code c < 0x80 then json_esc c @ json_body cs
      else case utf8_size (bytes_of (c # cs)) of
             None \<Rightarrow> bsl # ''ufffd'' @ json_body cs
           | Some n \<Rightarrow> json_rune (take n (c # cs)) @ json_body (drop n (c # cs)))"
  by (subst json_body.simps) simp

lemma scan_str_body: "scan_str (json_body s @ quot # r) = Some (json_body s, r)"
proof (induction s rule: json_body.induct)
  case (1 s)
  show ?case
  proof (cases s)
    case Nil
    then show ?thesis by (simp add: scan_str_close)
  next
    case (Cons c cs)
    consider "code c < 0x80" | "\<not> code c < 0x80" "utf8_size (bytes_of s) = None"
      | n where "\<not> code c < 0x80" "utf8_size (bytes_of s) = Some n" by fastforce
    then show ?thesis
    proof cases
      case 1
      with Cons "1.IH"(1) show ?thesis
        by (simp add: json_body_Cons scan_str_esc)
    next
      case 2
      have "u4 ''fffd'' \<noteq> None" by (simp add: hexval_def is_digit_def code_def)
      with 2 Cons "1.IH"(2) scan_str_u_escape [of "''fffd''"] show ?thesis
        by (simp add: json_body_Cons del: u4.simps)
    next
      case (3 n)
      with Cons "1.IH"(3) scan_str_rune [OF 3(2) Cons 3(1)] show ?thesis
        by (simp add: json_body_Cons)
    qed
  qed
qed

lemma unquote_Nil [simp]: "unquote [] = []"
  by (subst unquote.simps) simp

lemma unquote_ascii: "c \<noteq> bsl \<Longrightarrow> code c < 0x80 \<Longrightarrow> unquote (c # cs) = c # unquote cs"
  by (subst unquote.simps) simp

lemma unquote_simple_escape:
  "e \<noteq> CHR ''u'' \<Longrightarrow> unquote (bsl # e # es) = unescape e # unquote es"
  by (subst unquote.simps) simp

lemma unquote_u_escape:
  assumes "length h = 4" and "u4 h = Some v" and "\<not> is_surrogate v"
  shows "unquote (bsl # CHR ''u'' # h @ r) = encode_rune v @ unquote r"
proof -
  from assms(1) obtain a b c d where hh: "h = [a, b, c, d]"
    by (auto simp: length_Suc_conv numeral_eq_Suc)
  have "u4 (h @ r) = Some v" using assms(2) by (simp add: hh)
  with assms show ?thesis by (subst unquote.simps) (simp del: u4.simps)
qed

lemma unquote_esc:
  assumes "code c < 0x80"
  shows "unquote (json_esc c @ r) = c # unquote r"
proof -
  consider "html_safe c" | "\<not> html_safe c" "c = quot \<or> c = bsl"
    | "c = CHR 0x08" | "c = CHR 0x0C" | "c = CHR 0x0A" | "c = CHR 0x0D" | "c = CHR 0x09"
    | "json_esc c = bsl # ''u00'' @ [hexdigit (code c div 16), hexdigit (code c mod 16)]"
    by (atomize_elim, unfold json_esc_def, auto)
  then show ?thesis
  proof cases
    case 1
    then show ?thesis by (simp add: json_esc_def unquote_ascii html_safe_def)
  next
    case 8
    have "\<not> is_surrogate (code c)" using assms by (simp add: is_surrogate_def)
    moreover have "encode_rune (code c) = [c]"
      using assms by (simp add: encode_rune_def code_def)
    ultimately show ?thesis
      using 8 unquote_u_escape [OF _ u4_code [of c], of r] by simp
  qed (auto simp: json_esc_def html_safe_def code_def unquote_simple_escape unescape_def)
qed

lemma unquote_rune:
  assumes "utf8_size (bytes_of s) = Some n" and "s = c # cs" and "\<not> code c < 0x80"
  shows "unquote (json_rune (take n s) @ r) = take n s @ unquote r"
proof -
  have "0 < n" using assms(1) utf8_size_pos by blast
  then obtain m where m: "n = Suc m" by (cases n) auto
  have "utf8_size (bytes_of (take n s @ r)) = Some n"
    using utf8_size_take [OF assms(1), of "bytes_of r"] by (simp add: take_map)
  moreover have "c \<noteq> bsl" using assms(3) by (auto simp: code_def)
  moreover have "n \<le> length s" using assms(1) utf8_size_pos [of "bytes_of s" n] by simp
  ultimately have plain: "unquote (take n s @ r) = take n s @ unquote r"
    using assms(2,3) m by (subst unquote.simps) simp
  have "u4 ''2028'' = Some 0x2028" "u4 ''2029'' = Some 0x2029"
    by (simp_all add: hexval_def is_digit_def code_def)
  then have "unquote (bsl # ''u2028'' @ r) = [CHR 0xE2, CHR 0x80, CHR 0xA8] @ unquote r"
    and "unquote (bsl # ''u2029'' @ r) = [CHR 0xE2, CHR 0x80, CHR 0xA9] @ unquote r"
    using unquote_u_escape [of "''2028''" "0x2028" r] unquote_u_escape [of "''2029''" "0x2029" r]
    by (simp_all add: is_surrogate_def encode_rune_def char_of_def bit_0 del: u4.simps)
  with plain show ?thesis by (auto simp: json_rune_def)
qed

text \<open>Reading a printed string gives the string back, provided it was valid UTF-8.\<close>

lemma unquote_body: "utf8_valid (bytes_of s) \<Longrightarrow> unquote (json_body s) = s"
proof (induction s rule: json_body.induct)
  case (1 s)
  show ?case
  proof (cases s)
    case Nil
    then show ?thesis by simp
  next
    case (Cons c cs)
    have "bytes_of s \<noteq> []" by (simp add: Cons)
    with utf8_validD [OF "1.prems"] obtain n where n: "utf8_size (bytes_of s) = Some n"
      and "utf8_valid (drop n (bytes_of s))" by blast
    then have v: "utf8_valid (bytes_of (drop n s))" by (simp add: drop_map)
    show ?thesis
    proof (cases "code c < 0x80")
      case True
      then have "n = 1" using n Cons by (simp add: utf8_size.simps byte_of_less_iff)
      with v Cons have "utf8_valid (bytes_of cs)" by simp
      with "1.IH"(1) [OF Cons True] Cons True show ?thesis
        by (simp add: json_body_Cons unquote_esc)
    next
      case False
      with "1.IH"(3) [OF Cons False n v] n Cons unquote_rune [OF n Cons False] show ?thesis
        by (simp add: json_body_Cons)
    qed
  qed
qed

section \<open>Flat objects\<close>

definition flat_value :: "jval \<Rightarrow> bool" where
  "flat_value v \<longleftrightarrow> (\<exists>s. v = JStr s \<and> utf8_valid (bytes_of s)) \<or> (\<exists>n. v = JNum (dec n))"

definition flat_members :: "(string \<times> jval) list \<Rightarrow> bool" where
  "flat_members kvs \<longleftrightarrow> (\<forall>(k, v) \<in> set kvs. utf8_valid (bytes_of k) \<and> flat_value v)"

lemma dec_head: "\<exists>d r. dec n = d # r \<and> is_digit d \<and> (d = CHR ''0'' \<longrightarrow> r = [])"
proof (induction n rule: dec.induct)
  case (1 n)
  show ?case
  proof (cases "n < 10")
    case True
    then show ?thesis
      by (simp add: dec.simps [of n] is_digit_def of_char_digit)
  next
    case False
    with 1 obtain d r where d: "dec (n div 10) = d # r" "is_digit d" "d = CHR ''0'' \<longrightarrow> r = []"
      by blast
    have "d \<noteq> CHR ''0''"
    proof
      assume "d = CHR ''0''"
      with d have "dec (n div 10) = ''0''" by simp
      then have "undec (dec (n div 10)) = 0" by (simp add: undec_def)
      with False show False by simp
    qed
    with d False show ?thesis by (simp add: dec.simps [of n])
  qed
qed

text \<open>A printed number ends where the member separator or the closing brace follows.\<close>

lemma takeWhile_dec:
  assumes "x = CHR '','' \<or> x = CHR ''}''"
  shows "takeWhile is_digit (dec n @ x # r) = dec n"
    and "dropWhile is_digit (dec n @ x # r) = x # r"
proof -
  have "\<not> is_digit x" using assms by (auto simp: is_digit_def)
  with dec_digits [of _ n] show "takeWhile is_digit (dec n @ x # r) = dec n"
    and "dropWhile is_digit (dec n @ x # r) = x # r"
    by (simp_all add: takeWhile_append dropWhile_append)
qed

lemma scan_num_dec:
  assumes x: "x = CHR '','' \<or> x = CHR ''}''"
  shows "scan_num (dec n @ x # r) = Some (dec n, x # r)"
proof -
  obtain d t where d: "dec n = d # t" "is_digit d" "d = CHR ''0'' \<longrightarrow> t = []"
    using dec_head by blast
  have ne: "d \<noteq> CHR ''-''" using d(2) by (auto simp: is_digit_def)
  have i: "scan_int (dec n @ x # r) = Some (dec n, x # r)"
  proof (cases "d = CHR ''0''")
    case True
    then show ?thesis using d by (simp add: scan_int_def)
  next
    case False
    then have "scan_int (dec n @ x # r) = scan_digits (dec n @ x # r)"
      using d by (simp add: scan_int_def)
    then show ?thesis by (simp add: scan_digits_def takeWhile_dec [OF x])
  qed
  have f: "scan_frac (x # r) = Some ([], x # r)" and e: "scan_exp (x # r) = Some ([], x # r)"
    using x by (auto simp: scan_frac_def scan_exp_def)
  with d(1) ne i show ?thesis by (simp add: scan_num_def)
qed

lemma parse_scalar:
  assumes v: "flat_value v" and x: "x = CHR '','' \<or> x = CHR ''}''"
  shows "parse_value (Suc n) (json_scalar v @ x # r) = Some (v, x # r)"
proof -
  consider (s) s where "v = JStr s" "utf8_valid (bytes_of s)" | (n) m where "v = JNum (dec m)"
    using v by (auto simp: flat_value_def)
  then show ?thesis
  proof cases
    case s
    then show ?thesis
      by (simp add: json_quote_def is_ws_def scan_str_body unquote_body)
  next
    case n
    obtain d t where d: "dec m = d # t" "is_digit d" using dec_head by blast
    have nd: "\<not> is_digit c" if "c \<in> set ''{[tfn '' \<or> c \<in> {quot, CHR 0x09, CHR 0x0A, CHR 0x0D}" for c
      using that by (auto simp: is_digit_def)
    have "d \<notin> set ''{[tfn ''" "d \<notin> {quot, CHR 0x09, CHR 0x0A, CHR 0x0D}"
      using d(2) nd by blast+
    with n d scan_num_dec [OF x, of m r] show ?thesis
      by (auto simp: is_ws_def)
  qed
qed

lemma parse_members_print:
  "flat_members kvs \<Longrightarrow> kvs \<noteq> [] \<Longrightarrow> length kvs < n \<Longrightarrow>
   parse_members n (json_members kvs @ CHR ''}'' # r) = Some (kvs, r)"
proof (induction kvs arbitrary: n rule: json_members.induct)
  case 1
  then show ?case by simp
next
  case (2 k v)
  then obtain m where n: "n = Suc (Suc m)"
    by (metis Suc_lessE length_Cons less_zeroE list.size(3) not0_implies_Suc)
  have "utf8_valid (bytes_of k)" "flat_value v" using 2 by (auto simp: flat_members_def)
  then show ?case
    using parse_scalar [of v "CHR ''}''" m r]
    by (simp add: n json_quote_def is_ws_def scan_str_body unquote_body del: parse_value.simps)
next
  case (3 k v kv kvs)
  then obtain m where n: "n = Suc (Suc m)" and len: "length (kv # kvs) < Suc m"
    by (cases n; cases "n - 1") auto
  have kv: "utf8_valid (bytes_of k)" "flat_value v" "flat_members (kv # kvs)"
    using 3(2) by (auto simp: flat_members_def)
  then have "parse_members (Suc m) (json_members (kv # kvs) @ CHR ''}'' # r) = Some (kv # kvs, r)"
    using "3.IH" len by blast
  with kv show ?case
    using parse_scalar [of v "CHR '',''" m "json_members (kv # kvs) @ CHR ''}'' # r"]
    by (simp add: n json_quote_def is_ws_def scan_str_body unquote_body
        del: parse_value.simps parse_members.simps(2) json_members.simps(3)
        add: parse_members.simps(2) [of "Suc m"] json_members.simps(3) [of k v kv kvs])
qed

lemma length_json_members: "length kvs \<le> length (json_members kvs)"
  by (induction kvs rule: json_members.induct) simp_all

lemma json_members_head: "kvs \<noteq> [] \<Longrightarrow> \<exists>r. json_members kvs = quot # r"
  by (induction kvs rule: json_members.induct) (simp_all add: json_quote_def)

text \<open>A printed object is parsed back to exactly its members.\<close>

lemma json_parse_object:
  assumes "flat_members kvs"
  shows "json_parse (json_object kvs) = Some (JObj kvs)"
proof (cases "kvs = []")
  case True
  then show ?thesis by (simp add: json_parse_def json_object_def is_ws_def numeral_eq_Suc)
next
  case False
  let ?f = "2 * length (json_object kvs) + 1"
  obtain t where t: "json_members kvs = quot # t" using json_members_head [OF False] by blast
  have "parse_members ?f (json_members kvs @ CHR ''}'' # []) = Some (kvs, [])"
    using length_json_members [of kvs]
    by (intro parse_members_print assms False) (simp add: json_object_def)
  then have "parse_value (Suc ?f) (json_object kvs) = Some (JObj kvs, [])"
    by (simp add: json_object_def is_ws_def t del: parse_members.simps)
  then show ?thesis by (simp add: json_parse_def del: parse_value.simps)
qed

end
