(* ===== verification/Tagged.thy ===== *)
theory Tagged
  imports Wire Json_Roundtrip
begin

text \<open>
  Request/reply correlation, \<^verbatim>\<open>tagged.go\<close>: message identifiers, the JSON header of a
  \<^verbatim>\<open>TypeTagged\<close> frame, and the payload that wraps another frame's body behind that header.
\<close>

section \<open>Identifiers\<close>

definition MaxMessageIDLen :: nat where [simp]: "MaxMessageIDLen = 128"
definition maxTaggedHeaderLen :: nat where [simp]: "maxTaggedHeaderLen = 1024"

definition id_char :: "char \<Rightarrow> bool" where
  "id_char c \<longleftrightarrow>
     (code (CHR ''a'') \<le> code c \<and> code c \<le> code (CHR ''z'')) \<or>
     (code (CHR ''A'') \<le> code c \<and> code c \<le> code (CHR ''Z'')) \<or>
     (code (CHR ''0'') \<le> code c \<and> code c \<le> code (CHR ''9'')) \<or>
     c = CHR ''-'' \<or> c = CHR ''_'' \<or> c = CHR ''.'' \<or> c = CHR '':''"

definition ValidMessageID :: "string \<Rightarrow> bool" where
  "ValidMessageID i \<longleftrightarrow> \<not> (length i = 0 \<or> length i > MaxMessageIDLen) \<and> list_all id_char i"

text \<open>
  \<open>NewMessageID\<close> on the sixteen bytes that \<^verbatim>\<open>rand.Read\<close> delivered; \<^verbatim>\<open>rand.Read\<close> does not
  fail on supported platforms.
\<close>

definition NewMessageID :: "bytes \<Rightarrow> string" where
  "NewMessageID b = hex b"

section \<open>The header\<close>

record taggedHeader =
  hMessageID :: string
  hReplyTo :: string

definition validateTaggedHeader :: "taggedHeader \<Rightarrow> error option" where
  "validateTaggedHeader h =
     (if hMessageID h \<noteq> [] \<and> \<not> ValidMessageID (hMessageID h) then Some InvalidMessageID
      else if hReplyTo h \<noteq> [] \<and> \<not> ValidMessageID (hReplyTo h) then Some InvalidReplyTo
      else None)"

text \<open>
  \<^verbatim>\<open>json.Marshal\<close> of the header: members in field order, empty ones omitted
  (\<^verbatim>\<open>omitempty\<close>).
\<close>

definition header_members :: "taggedHeader \<Rightarrow> (string \<times> jval) list" where
  "header_members h =
     (if hMessageID h = [] then [] else [(''message_id'', JStr (hMessageID h))]) @
     (if hReplyTo h = [] then [] else [(''reply_to'', JStr (hReplyTo h))])"

definition marshalHeader :: "taggedHeader \<Rightarrow> bytes" where
  "marshalHeader h = bytes_of (json_object (header_members h))"

text \<open>
  \<^verbatim>\<open>json.Unmarshal\<close> into the header: a later member overrides an earlier one, null leaves a
  field as it is, a member of another type is an error reported after the whole object was
  read, unknown members are ignored.
\<close>

definition set_member :: "taggedHeader \<times> bool \<Rightarrow> string \<times> jval \<Rightarrow> taggedHeader \<times> bool" where
  "set_member acc kv =
     (case acc of (h, bad) \<Rightarrow> case kv of (k, v) \<Rightarrow>
        if name_matches ''message_id'' k then
          (case v of JStr s \<Rightarrow> (h\<lparr>hMessageID := s\<rparr>, bad) | JNull \<Rightarrow> (h, bad) | _ \<Rightarrow> (h, True))
        else if name_matches ''reply_to'' k then
          (case v of JStr s \<Rightarrow> (h\<lparr>hReplyTo := s\<rparr>, bad) | JNull \<Rightarrow> (h, bad) | _ \<Rightarrow> (h, True))
        else (h, bad))"

definition unmarshalHeader :: "bytes \<Rightarrow> error + taggedHeader" where
  "unmarshalHeader b =
     (case json_parse (string_of b) of
        None \<Rightarrow> Inl JsonSyntax
      | Some (JObj m) \<Rightarrow>
          (case foldl set_member (\<lparr>hMessageID = [], hReplyTo = []\<rparr>, False) m of
             (h, bad) \<Rightarrow> if bad then Inl JsonType else Inr h)
      | Some JNull \<Rightarrow> Inr \<lparr>hMessageID = [], hReplyTo = []\<rparr>
      | Some _ \<Rightarrow> Inl JsonType)"

section \<open>Tagged payloads\<close>

definition MaxTaggedOverhead :: nat where
  "MaxTaggedOverhead =
     2 + length (json_object [(''message_id'', JStr []), (''reply_to'', JStr [])]) + 2 * MaxMessageIDLen + 4"

definition headerOf :: "Frame \<Rightarrow> taggedHeader" where
  "headerOf f = \<lparr>hMessageID = MessageID f, hReplyTo = ReplyTo f\<rparr>"

text \<open>The argument \<open>mx\<close> is \<^verbatim>\<open>MaxFrameSize\<close>.  Marshalling two strings cannot fail.\<close>

definition taggedWirePayload :: "u32 \<Rightarrow> Frame \<Rightarrow> error + bytes" where
  "taggedWirePayload mx f =
     (if Type f = TypeTagged then Inl TaggedInTagged
      else case validateTaggedHeader (headerOf f) of
        Some e \<Rightarrow> Inl (DataexchangeError e)
      | None \<Rightarrow>
          let header = marshalHeader (headerOf f) in
          case wirePayload f of
            Inl e \<Rightarrow> Inl e
          | Inr inner \<Rightarrow>
              let size = 2 + length header + 4 + length inner in
              if size > unat mx then Inl (TaggedFrameTooLarge size (length inner) mx)
              else Inr (PutUint16 (word_of_nat (length header)) @ header @ PutUint32 (Type f) @ inner))"

definition decodeTaggedPayload :: "bytes \<Rightarrow> error + (taggedHeader \<times> u32 \<times> bytes)" where
  "decodeTaggedPayload payload =
     (if length payload < 2 then Inl (TaggedTooShort (length payload))
      else let headerLen = unat (Uint16 (slice 0 2 payload)) in
        if headerLen = 0 \<or> headerLen > maxTaggedHeaderLen then Inl (TaggedHeaderLen headerLen)
        else if length payload < 2 + headerLen + 4 then Inl (TaggedTruncated (length payload) headerLen)
        else case unmarshalHeader (slice 2 (2 + headerLen) payload) of
          Inl e \<Rightarrow> Inl (TaggedHeaderError e)
        | Inr h \<Rightarrow>
            (case validateTaggedHeader h of
               Some e \<Rightarrow> Inl (TaggedHeaderError e)
             | None \<Rightarrow>
                 let innerType = Uint32 (slice (2 + headerLen) (2 + headerLen + 4) payload) in
                 if innerType = TypeTagged then Inl TaggedNested
                 else Inr (h, innerType, drop (2 + headerLen + 4) payload)))"

section \<open>Identifiers and headers\<close>

lemma id_char_safe: "id_char c \<Longrightarrow> html_safe c"
  by (auto simp: id_char_def html_safe_def code_def)

lemma id_char_ascii: "id_char c \<Longrightarrow> code c < 0x80"
  using id_char_safe by (simp add: html_safe_def)

lemma json_body_id: "list_all id_char s \<Longrightarrow> json_body s = s"
  by (induction s) (auto simp: json_body_Cons id_char_ascii id_char_safe json_esc_def)

lemma id_utf8: "list_all id_char s \<Longrightarrow> utf8_valid (bytes_of s)"
  by (rule utf8_valid_ascii) (auto simp: list_all_iff byte_of_less_iff dest: id_char_ascii)

definition valid_header :: "taggedHeader \<Rightarrow> bool" where
  "valid_header h \<longleftrightarrow> (hMessageID h = [] \<or> ValidMessageID (hMessageID h)) \<and>
     (hReplyTo h = [] \<or> ValidMessageID (hReplyTo h))"

lemma validate_iff: "validateTaggedHeader h = None \<longleftrightarrow> valid_header h"
  by (auto simp: validateTaggedHeader_def valid_header_def)

lemma valid_header_ids:
  "valid_header h \<Longrightarrow> list_all id_char (hMessageID h) \<and> list_all id_char (hReplyTo h)"
  by (auto simp: valid_header_def ValidMessageID_def)

lemma flat_header: "valid_header h \<Longrightarrow> flat_members (header_members h)"
proof -
  assume "valid_header h"
  then have "list_all id_char (hMessageID h)" "list_all id_char (hReplyTo h)"
    using valid_header_ids by blast+
  moreover have "utf8_valid (bytes_of ''message_id'')" "utf8_valid (bytes_of ''reply_to'')"
    by (rule id_utf8, simp add: id_char_def code_def)+
  ultimately show ?thesis
    by (auto simp: header_members_def flat_members_def flat_value_def id_utf8)
qed

lemma key_matching:
  "name_matches ''message_id'' ''message_id''" "name_matches ''reply_to'' ''reply_to''"
  "\<not> name_matches ''message_id'' ''reply_to''"
  by (simp_all add: name_matches_def fold_char_def code_def)

lemma unmarshal_marshal: "valid_header h \<Longrightarrow> unmarshalHeader (marshalHeader h) = Inr h"
  using json_parse_object [OF flat_header, of h]
  by (cases h) (auto simp: unmarshalHeader_def marshalHeader_def header_members_def set_member_def
      key_matching)

lemma length_marshal:
  assumes "valid_header h"
  shows "length (marshalHeader h) \<le> 31 + length (hMessageID h) + length (hReplyTo h)"
    and "2 \<le> length (marshalHeader h)"
proof -
  have "json_body (hMessageID h) = hMessageID h" "json_body (hReplyTo h) = hReplyTo h"
    using valid_header_ids [OF assms] json_body_id by blast+
  moreover have "json_body ''message_id'' = ''message_id''" "json_body ''reply_to'' = ''reply_to''"
    by (rule json_body_id, simp add: id_char_def code_def)+
  ultimately show "length (marshalHeader h) \<le> 31 + length (hMessageID h) + length (hReplyTo h)"
    and "2 \<le> length (marshalHeader h)"
    by (auto simp: marshalHeader_def header_members_def json_object_def json_quote_def)
qed

lemma length_header_le: "valid_header h \<Longrightarrow> length (marshalHeader h) \<le> 287"
  using length_marshal(1) [of h] by (auto simp: valid_header_def ValidMessageID_def)

lemma MaxTaggedOverhead_eq: "MaxTaggedOverhead = 293"
proof -
  have "json_body ''message_id'' = ''message_id''" "json_body ''reply_to'' = ''reply_to''"
    by (rule json_body_id, simp add: id_char_def code_def)+
  then show ?thesis by (simp add: MaxTaggedOverhead_def json_object_def json_quote_def)
qed

section \<open>Tagged payloads round trip\<close>

lemma taggedWirePayload_ok:
  assumes "taggedWirePayload mx f = Inr p"
  shows "Type f \<noteq> TypeTagged" and "valid_header (headerOf f)"
    and "\<exists>inner. wirePayload f = Inr inner \<and>
      p = PutUint16 (word_of_nat (length (marshalHeader (headerOf f)))) @
            marshalHeader (headerOf f) @ PutUint32 (Type f) @ inner \<and> length p \<le> unat mx"
  using assms
  by (auto simp: taggedWirePayload_def Let_def validate_iff codec_simps
      split: if_splits option.splits sum.splits)

lemma decode_tagged_parts:
  assumes vh: "valid_header h" and t: "t \<noteq> TypeTagged"
  shows "decodeTaggedPayload
    (PutUint16 (word_of_nat (length (marshalHeader h))) @ marshalHeader h @ PutUint32 t @ inner) =
    Inr (h, t, inner)"
proof -
  let ?H = "marshalHeader h" and ?n = "length (marshalHeader h)"
  let ?p = "PutUint16 (word_of_nat ?n) @ ?H @ PutUint32 t @ inner"
  have n: "?n \<le> 287" "2 \<le> ?n" using vh length_header_le length_marshal(2) by blast+
  then have u: "unat (word_of_nat ?n :: u16) = ?n" by (simp add: unat_of_nat)
  have d2: "drop 2 ?p = ?H @ PutUint32 t @ inner" by (simp add: codec_simps)
  have "drop (2 + ?n) ?p = drop ?n (drop 2 ?p)"
    by (simp only: drop_drop add.commute)
  then have d: "drop (2 + ?n) ?p = PutUint32 t @ inner" unfolding d2 by simp
  have "drop (2 + ?n + 4) ?p = drop 4 (drop (2 + ?n) ?p)"
    by (simp only: drop_drop add.commute)
  then have d4: "drop (2 + ?n + 4) ?p = inner" by (simp add: d codec_simps)
  have hl: "Uint16 (slice 0 2 ?p) = word_of_nat ?n" by (simp add: codec_simps)
  have len: "\<not> length ?p < 2" "\<not> length ?p < 2 + ?n + 4" by (simp_all add: codec_simps)
  have hs: "slice 2 (2 + ?n) ?p = ?H" unfolding d2 by simp
  have ts: "Uint32 (slice (2 + ?n) (2 + ?n + 4) ?p) = t" unfolding d by (simp add: codec_simps)
  have rng: "\<not> (?n = 0 \<or> ?n > maxTaggedHeaderLen)" using n by auto
  have vv: "validateTaggedHeader h = None" using vh by (simp add: validate_iff)
  show ?thesis
    unfolding decodeTaggedPayload_def Let_def hl u
    by (simp only: len rng hs ts d4 unmarshal_marshal [OF vh] vv t if_False sum.case option.case)
qed

lemma decode_tagged:
  assumes "taggedWirePayload mx f = Inr p"
  shows "\<exists>inner. wirePayload f = Inr inner \<and> decodeTaggedPayload p = Inr (headerOf f, Type f, inner)"
  using taggedWirePayload_ok [OF assms] decode_tagged_parts [of "headerOf f" "Type f"] by auto

lemma decodeTagged_valid:
  "decodeTaggedPayload p = Inr (h, t, inner) \<Longrightarrow>
   valid_header h \<and> t \<noteq> TypeTagged \<and> length inner < length p"
  by (auto simp: decodeTaggedPayload_def Let_def validate_iff
      split: if_splits sum.splits option.splits)

end
