(* ===== verification/Frames.thy ===== *)
theory Frames
  imports Tagged
begin

text \<open>
  Whole frames on a byte stream, the rest of \<^verbatim>\<open>dataexchange.go\<close>: \<open>WriteFrame\<close> with its
  single-write rule, \<open>ReadFrame\<close> with its bounded read, and the trace frames built on them.
  The locale \<open>message_stream\<close> is the contract of such a reader and writer pair; it is
  interpreted on them, and gives that a sequence of frames written one after the other is
  read back frame by frame.
\<close>

section \<open>Writing\<close>

definition singleWriteMax :: nat where "singleWriteMax = 64 * 1024"

definition framePayload :: "u32 \<Rightarrow> Frame \<Rightarrow> error + (u32 \<times> bytes)" where
  "framePayload mx f =
     (if MessageID f \<noteq> [] \<or> ReplyTo f \<noteq> []
      then map_sum id (\<lambda>p. (TypeTagged, p)) (taggedWirePayload mx f)
      else map_sum id (\<lambda>p. (Type f, p)) (wirePayload f))"

definition frameHeader :: "u32 \<Rightarrow> bytes \<Rightarrow> bytes" where
  "frameHeader ftype payload = PutUint32 ftype @ PutUint32 (word_of_nat (length payload))"

definition WriteFrame :: "u32 \<Rightarrow> writer \<Rightarrow> Frame \<Rightarrow> error option \<times> writer" where
  "WriteFrame mx w f =
     (case framePayload mx f of
        Inl e \<Rightarrow> (Some e, w)
      | Inr (ftype, payload) \<Rightarrow>
          let hdr = frameHeader ftype payload in
          if length payload \<le> singleWriteMax
          then map_prod (map_option Io) id (Write (hdr @ payload) w)
          else case Write hdr w of
                 (Some e, w') \<Rightarrow> (Some (Io e), w')
               | (None, w') \<Rightarrow> map_prod (map_option Io) id (Write payload w'))"

definition WriteTraceFrame :: "u32 \<Rightarrow> writer \<Rightarrow> TraceFrame \<Rightarrow> error option \<times> writer" where
  "WriteTraceFrame mx w tf = WriteFrame mx w (mkFrame TypeTrace (tracePayload tf))"

section \<open>Reading\<close>

definition readBoundedInitialCap :: nat where "readBoundedInitialCap = 64 * 1024"

text \<open>
  \<open>readBounded\<close> reads exactly \<open>n\<close> bytes.  The last component of its result is the capacity it
  reserves before any byte has arrived.
\<close>

definition readBounded :: "nat \<Rightarrow> reader \<Rightarrow> (ioerr + bytes) \<times> reader \<times> nat" where
  "readBounded n r =
     (if n = 0 then (Inr [], r, 0)
      else let initial = (if n > readBoundedInitialCap then readBoundedInitialCap else n) in
        case CopyN n r of
          (b, Some e, r') \<Rightarrow> (Inl (if e = EOF then ErrUnexpectedEOF else e), r', initial)
        | (b, None, r') \<Rightarrow>
            if length b \<noteq> n then (Inl ErrUnexpectedEOF, r', initial) else (Inr b, r', initial))"

definition decodeFrame :: "u32 \<Rightarrow> bytes \<Rightarrow> error + Frame" where
  "decodeFrame ftype payload =
     (if ftype = TypeTagged then
        case decodeTaggedPayload payload of
          Inl e \<Rightarrow> Inl e
        | Inr (meta, innerType, inner) \<Rightarrow>
            (case parseFramePayload innerType inner of
               Inl e \<Rightarrow> Inl e
             | Inr f \<Rightarrow> Inr (f\<lparr>MessageID := hMessageID meta, ReplyTo := hReplyTo meta\<rparr>))
      else parseFramePayload ftype payload)"

definition ReadFrame :: "u32 \<Rightarrow> reader \<Rightarrow> (error + Frame) \<times> reader" where
  "ReadFrame mx r =
     (case ReadFull 8 r of
        (Inl e, r') \<Rightarrow> (Inl (Io e), r')
      | (Inr hdr, r') \<Rightarrow>
          let ftype = Uint32 (slice 0 4 hdr); len = Uint32 (slice 4 8 hdr) in
          if len > mx then (Inl (FrameTooLarge len mx), r')
          else case readBounded (unat len) r' of
                 (Inl e, r'', _) \<Rightarrow> (Inl (Io e), r'')
               | (Inr payload, r'', _) \<Rightarrow> (decodeFrame ftype payload, r''))"

section \<open>Frames that survive the wire\<close>

definition wf_frame :: "Frame \<Rightarrow> bool" where
  "wf_frame f \<longleftrightarrow> wf_body f \<and> (untagged f \<longrightarrow> Type f \<noteq> TypeTagged)"

lemma framePayload_cases:
  assumes "framePayload mx f = Inr (t, p)"
  shows "untagged f \<and> t = Type f \<and> wirePayload f = Inr p
    \<or> \<not> untagged f \<and> t = TypeTagged \<and> taggedWirePayload mx f = Inr p"
  using assms
  by (auto simp: framePayload_def untagged_def map_sum_def split: if_splits sum.splits)

lemma decode_framePayload:
  assumes wf: "wf_frame f" and p: "framePayload mx f = Inr (t, p)"
  shows "decodeFrame t p = Inr f"
proof (cases "untagged f")
  case True
  with p have t: "t = Type f" and q: "wirePayload f = Inr p"
    using framePayload_cases by blast+
  have "f\<lparr>MessageID := [], ReplyTo := []\<rparr> = f"
    using True by (auto simp: untagged_def intro!: Frame_eqI)
  with True t q wf parse_wirePayload [of f p] show ?thesis
    by (simp add: decodeFrame_def wf_frame_def)
next
  case False
  with p have t: "t = TypeTagged" and q: "taggedWirePayload mx f = Inr p"
    using framePayload_cases by blast+
  obtain inner where i: "wirePayload f = Inr inner"
    and d: "decodeTaggedPayload p = Inr (headerOf f, Type f, inner)"
    using decode_tagged [OF q] by blast
  have "parseFramePayload (Type f) inner = Inr (f\<lparr>MessageID := [], ReplyTo := []\<rparr>)"
    using wf i by (intro parse_wirePayload) (simp_all add: wf_frame_def)
  then show ?thesis using t d
    by (auto simp: decodeFrame_def headerOf_def intro!: Frame_eqI)
qed

text \<open>
  Reading from a stream that starts with a header and its payload.
\<close>

lemma ReadFrame_stream:
  assumes "length p \<le> unat mx"
  shows "ReadFrame mx \<lparr>rbuf = frameHeader t p @ p @ rest, rend = e\<rparr> =
    (decodeFrame t p, \<lparr>rbuf = rest, rend = e\<rparr>)"
proof -
  have lt: "length p < 2 ^ 32"
    using assms unsigned_less [of mx, where ?'a = nat] by simp
  then have u: "unat (word_of_nat (length p) :: u32) = length p"
    by (simp add: unat_of_nat)
  have le: "\<not> (word_of_nat (length p) :: u32) > mx"
    using assms u by (simp add: word_less_nat_alt)
  have hd8: "ReadFull 8 \<lparr>rbuf = frameHeader t p @ p @ rest, rend = e\<rparr> =
      (Inr (frameHeader t p), \<lparr>rbuf = p @ rest, rend = e\<rparr>)"
    by (simp add: ReadFull_def frameHeader_def codec_simps)
  have b: "\<exists>c. readBounded (length p) \<lparr>rbuf = p @ rest, rend = e\<rparr> =
      (Inr p, \<lparr>rbuf = rest, rend = e\<rparr>, c)"
    by (auto simp: readBounded_def CopyN_def Let_def)
  have f4: "take 4 (frameHeader t p) = PutUint32 t"
    and s4: "take 4 (drop 4 (frameHeader t p)) = PutUint32 (word_of_nat (length p))"
    by (simp_all add: frameHeader_def codec_simps)
  show ?thesis using b le
    unfolding ReadFrame_def hd8 by (auto simp: Let_def f4 s4 codec_simps u)
qed

section \<open>The contract of a message stream\<close>

text \<open>\<open>read_n\<close> reads a given number of messages, one after the other.\<close>

fun read_n :: "(bytes \<Rightarrow> ('m \<times> bytes) option) \<Rightarrow> nat \<Rightarrow> bytes \<Rightarrow> ('m list \<times> bytes) option" where
  "read_n rd 0 bs = Some ([], bs)"
| "read_n rd (Suc n) bs =
     (case rd bs of None \<Rightarrow> None
      | Some (m, rest) \<Rightarrow> map_option (\<lambda>(ms, r). (m # ms, r)) (read_n rd n rest))"

locale message_stream =
  fixes enc :: "'m \<Rightarrow> bytes"
    and rd :: "bytes \<Rightarrow> ('m \<times> bytes) option"
    and wf :: "'m \<Rightarrow> bool"
  assumes rd_enc: "wf m \<Longrightarrow> rd (enc m @ rest) = Some (m, rest)"
    and enc_not_Nil: "wf m \<Longrightarrow> enc m \<noteq> []"
begin

lemma read_all:
  "list_all wf ms \<Longrightarrow> read_n rd (length ms) (concat (map enc ms) @ rest) = Some (ms, rest)"
  by (induction ms) (simp_all add: rd_enc)

lemma enc_prefix_free: "wf a \<Longrightarrow> wf b \<Longrightarrow> enc a @ r = enc b @ s \<Longrightarrow> a = b \<and> r = s"
  by (metis option.inject prod.inject rd_enc)

lemma unique_decoding:
  "list_all wf ms \<Longrightarrow> list_all wf ns \<Longrightarrow> concat (map enc ms) = concat (map enc ns) \<Longrightarrow> ms = ns"
proof (induction ms arbitrary: ns)
  case Nil
  then show ?case by (cases ns) (auto simp: enc_not_Nil)
next
  case (Cons m ms)
  then obtain n ns' where ns: "ns = n # ns'"
    by (cases ns) (auto simp: enc_not_Nil)
  with Cons.prems have "m = n \<and> concat (map enc ms) = concat (map enc ns')"
    by (intro enc_prefix_free) auto
  with Cons ns show ?case by auto
qed

end

definition frameBytes :: "u32 \<Rightarrow> Frame \<Rightarrow> bytes" where
  "frameBytes mx f =
     (case framePayload mx f of Inr (t, p) \<Rightarrow> frameHeader t p @ p | Inl _ \<Rightarrow> [])"

definition fits :: "u32 \<Rightarrow> Frame \<Rightarrow> bool" where
  "fits mx f \<longleftrightarrow> wf_frame f \<and>
     (case framePayload mx f of Inr (t, p) \<Rightarrow> length p \<le> unat mx | Inl _ \<Rightarrow> False)"

definition readFrameBytes :: "u32 \<Rightarrow> bytes \<Rightarrow> (Frame \<times> bytes) option" where
  "readFrameBytes mx bs =
     (case ReadFrame mx \<lparr>rbuf = bs, rend = EOF\<rparr> of
        (Inr f, r) \<Rightarrow> Some (f, rbuf r) | (Inl _, _) \<Rightarrow> None)"

lemma fits_payload:
  assumes "fits mx f"
  obtains t p where "framePayload mx f = Inr (t, p)" and "length p \<le> unat mx"
    and "decodeFrame t p = Inr f" and "frameBytes mx f = frameHeader t p @ p"
  using assms decode_framePayload [of f mx]
  by (auto simp: fits_def frameBytes_def split: sum.splits)

lemma ReadFrame_frameBytes:
  assumes "fits mx f"
  shows "ReadFrame mx \<lparr>rbuf = frameBytes mx f @ rest, rend = e\<rparr> = (Inr f, \<lparr>rbuf = rest, rend = e\<rparr>)"
  using assms by (rule fits_payload) (simp add: ReadFrame_stream)

lemma length_frameHeader [simp]: "length (frameHeader t p) = 8"
  by (simp add: frameHeader_def codec_simps)

interpretation fs: message_stream "frameBytes mx" "readFrameBytes mx" "fits mx"
proof
  fix f rest
  assume "fits mx f"
  then show "readFrameBytes mx (frameBytes mx f @ rest) = Some (f, rest)"
    by (simp add: readFrameBytes_def ReadFrame_frameBytes)
next
  fix f
  assume "fits mx f"
  then show "frameBytes mx f \<noteq> []"
    by (rule fits_payload) (metis append_is_Nil_conv length_frameHeader list.size(3) zero_neq_numeral)
qed

section \<open>What a write puts on the wire\<close>

lemma WriteFrame_ok:
  assumes "WriteFrame mx w f = (None, w')"
  shows "\<exists>t p. framePayload mx f = Inr (t, p) \<and>
    wout w' = wout w @ (if length p \<le> singleWriteMax then [frameHeader t p @ p] else [frameHeader t p, p])"
proof -
  obtain t p where p: "framePayload mx f = Inr (t, p)"
    using assms by (auto simp: WriteFrame_def split: sum.splits)
  let ?h = "frameHeader t p"
  show ?thesis
  proof (cases "length p \<le> singleWriteMax")
    case True
    then have "fst (Write (?h @ p) w) = None" "snd (Write (?h @ p) w) = w'"
      using assms p by (auto simp: WriteFrame_def map_prod_def split: prod.splits)
    then show ?thesis using Write_ok [of "?h @ p" w w'] True p by (cases "Write (?h @ p) w") auto
  next
    case False
    with assms p obtain w1 where 1: "Write ?h w = (None, w1)" and "Write p w1 = (None, w')"
      by (auto simp: WriteFrame_def map_prod_def split: prod.splits option.splits)
    then show ?thesis using Write_ok [OF 1] Write_ok [of p w1 w'] False p by auto
  qed
qed

lemma WriteFrame_sent:
  assumes "WriteFrame mx w f = (None, w')"
  shows "sent w' = sent w @ frameBytes mx f"
  using WriteFrame_ok [OF assms] by (auto simp: sent_def frameBytes_def)

lemma WriteFrame_open:
  assumes "framePayload mx f = Inr (t, p)" and "wlimit w = None"
  shows "\<exists>w'. WriteFrame mx w f = (None, w') \<and> wlimit w' = None"
  using assms by (auto simp: WriteFrame_def Write_def Let_def)

lemma WriteFrame_refused:
  "framePayload mx f = Inl e \<Longrightarrow> WriteFrame mx w f = (Some e, w)"
  by (simp add: WriteFrame_def)

text \<open>Frames written one after the other.\<close>

fun write_all :: "u32 \<Rightarrow> writer \<Rightarrow> Frame list \<Rightarrow> error option \<times> writer" where
  "write_all mx w [] = (None, w)"
| "write_all mx w (f # fs) =
     (case WriteFrame mx w f of (Some e, w') \<Rightarrow> (Some e, w') | (None, w') \<Rightarrow> write_all mx w' fs)"

lemma write_all_sent:
  "write_all mx w fs = (None, w') \<Longrightarrow> sent w' = sent w @ concat (map (frameBytes mx) fs)"
proof (induction fs arbitrary: w)
  case (Cons f fs)
  then obtain w1 where "WriteFrame mx w f = (None, w1)" "write_all mx w1 fs = (None, w')"
    by (auto split: prod.splits option.splits)
  with Cons.IH show ?case by (simp add: WriteFrame_sent)
qed simp

lemma write_all_open:
  "list_all (fits mx) fs \<Longrightarrow> wlimit w = None \<Longrightarrow> \<exists>w'. write_all mx w fs = (None, w')"
proof (induction fs arbitrary: w)
  case (Cons f fs)
  then obtain t p where "framePayload mx f = Inr (t, p)" by (auto elim: fits_payload)
  with Cons.prems(2) obtain w1 where "WriteFrame mx w f = (None, w1)" "wlimit w1 = None"
    using WriteFrame_open by blast
  with Cons show ?case by simp
qed simp

section \<open>What a read accepts\<close>

lemma ReadFrame_cases:
  "ReadFrame mx r =
     (if length (rbuf r) < 8 then
        (Inl (Io (if rbuf r \<noteq> [] \<and> rend r = EOF then ErrUnexpectedEOF else rend r)), r\<lparr>rbuf := []\<rparr>)
      else let t = Uint32 (take 4 (rbuf r)); n = Uint32 (take 4 (drop 4 (rbuf r)));
               body = drop 8 (rbuf r) in
        if n > mx then (Inl (FrameTooLarge n mx), r\<lparr>rbuf := body\<rparr>)
        else if length body < unat n then
          (Inl (Io (if rend r = EOF then ErrUnexpectedEOF else rend r)), r\<lparr>rbuf := []\<rparr>)
        else (decodeFrame t (take (unat n) body), r\<lparr>rbuf := drop (unat n) body\<rparr>))"
  by (auto simp: ReadFrame_def ReadFull_def readBounded_def CopyN_def Let_def drop_take min_def)

lemma decodeFrame_wf:
  assumes "decodeFrame t p = Inr f"
  shows "wf_frame f \<and> Type f \<noteq> TypeTagged \<and> valid_header (headerOf f) \<and> length (Payload f) \<le> length p"
proof (cases "t = TypeTagged")
  case False
  then show ?thesis using assms parseFramePayload_wf [of t p f]
    by (auto simp: decodeFrame_def wf_frame_def untagged_def headerOf_def valid_header_def)
next
  case True
  with assms obtain h t' inner g where d: "decodeTaggedPayload p = Inr (h, t', inner)"
    and g: "parseFramePayload t' inner = Inr g"
    and f: "f = g\<lparr>MessageID := hMessageID h, ReplyTo := hReplyTo h\<rparr>"
    by (auto simp: decodeFrame_def split: sum.splits)
  with decodeTagged_valid [OF d] parseFramePayload_wf [OF g] show ?thesis
    by (auto simp: wf_frame_def wf_body_def headerOf_def valid_header_def)
qed

text \<open>A frame whose untagged body leaves room for the overhead can be sent with its tags.\<close>

lemma taggable_fits:
  assumes "wf_body f" and "Type f \<noteq> TypeTagged" and vh: "valid_header (headerOf f)"
    and i: "wirePayload f = Inr inner" and room: "length inner + MaxTaggedOverhead \<le> unat mx"
  shows "fits mx f"
proof -
  have "length (marshalHeader (headerOf f)) \<le> 287" using vh by (rule length_header_le)
  with room have sz: "2 + length (marshalHeader (headerOf f)) + 4 + length inner \<le> unat mx"
    by (simp add: MaxTaggedOverhead_eq)
  then have "\<exists>p. taggedWirePayload mx f = Inr p \<and> length p \<le> unat mx"
    using assms by (simp add: taggedWirePayload_def validate_iff [symmetric] codec_simps Let_def)
  then show ?thesis using assms sz
    by (auto simp: fits_def framePayload_def wf_frame_def untagged_def)
qed

section \<open>Properties\<close>

lemma ReadFrame_safe:
  assumes "ReadFrame mx r = (Inr f, r')"
  shows "length (Payload f) \<le> unat mx \<and> Type f \<noteq> TypeTagged \<and>
    (Type f = TypeFile \<longrightarrow> valid_filename (Filename f)) \<and>
    (MessageID f = [] \<or> ValidMessageID (MessageID f)) \<and>
    (ReplyTo f = [] \<or> ValidMessageID (ReplyTo f)) \<and>
    (\<exists>taken. rbuf r = taken @ rbuf r' \<and> 8 + length (Payload f) \<le> length taken \<and>
       length taken \<le> 8 + unat mx)"
proof -
  let ?b = "rbuf r" and ?n = "Uint32 (take 4 (drop 4 (rbuf r)))"
  from assms have 8: "8 \<le> length ?b" and n: "\<not> ?n > mx" "unat ?n \<le> length (drop 8 ?b)"
    and f: "decodeFrame (Uint32 (take 4 ?b)) (take (unat ?n) (drop 8 ?b)) = Inr f"
    and r': "r' = r\<lparr>rbuf := drop (unat ?n) (drop 8 ?b)\<rparr>"
    by (auto simp: ReadFrame_cases Let_def split: if_splits)
  have le: "unat ?n \<le> unat mx" using n(1) by (simp add: word_less_nat_alt)
  have "?b = take (8 + unat ?n) ?b @ rbuf r'" using r' by (simp add: add.commute)
  moreover have "length (take (8 + unat ?n) ?b) = 8 + unat ?n" using 8 n(2) by simp
  ultimately show ?thesis
    using decodeFrame_wf [OF f] le n(2)
    by (auto simp: wf_frame_def wf_body_def valid_header_def headerOf_def)
qed

lemma ReadFrame_shorter: "ReadFrame mx r = (Inr f, r') \<Longrightarrow> length (rbuf r') < length (rbuf r)"
  by (drule ReadFrame_safe) auto

text \<open>
  C1. Round trip of one frame, tagged or not: if \<open>WriteFrame\<close> succeeds on a frame that fits,
  reading the bytes it added to the stream gives the same frame, with its payload, file name,
  message identifier and reply reference, and leaves exactly the bytes that follow.
\<close>

theorem frame_roundtrip:
  assumes "fits mx f" and "WriteFrame mx w f = (None, w')"
  shows "\<exists>out. sent w' = sent w @ out \<and>
    (\<forall>rest e. ReadFrame mx \<lparr>rbuf = out @ rest, rend = e\<rparr> = (Inr f, \<lparr>rbuf = rest, rend = e\<rparr>))"
  using assms by (auto simp: WriteFrame_sent ReadFrame_frameBytes)

definition demo_frame :: Frame where
  "demo_frame = \<lparr>Type = TypeFile, Payload = [1, 2, 3], Filename = ''a.txt'',
     MessageID = ''m-1'', ReplyTo = ''r:2''\<rparr>"

definition demo_writer :: writer where
  "demo_writer = \<lparr>wout = [], wlimit = None\<rparr>"

lemma demo_fits: "fits 65536 demo_frame"
proof (rule taggable_fits)
  show "wf_body demo_frame"
    by (simp add: demo_frame_def wf_body_def valid_filename_def utf8_valid_ascii byte_of_def
        ContainsSlash_def)
  show "Type demo_frame \<noteq> TypeTagged" by (simp add: demo_frame_def)
  show "valid_header (headerOf demo_frame)"
    by (simp add: demo_frame_def headerOf_def valid_header_def ValidMessageID_def id_char_def code_def)
  show "wirePayload demo_frame = Inr (PutUint16 5 @ bytes_of ''a.txt'' @ [1, 2, 3])"
    by (simp add: demo_frame_def wirePayload_def)
  show "length (PutUint16 5 @ bytes_of ''a.txt'' @ [1, 2, 3]) + MaxTaggedOverhead \<le> unat (65536 :: u32)"
    by (simp add: MaxTaggedOverhead_eq codec_simps)
qed

lemma demo_text_fits: "fits 65536 (mkFrame TypeText (bytes_of ''hello''))"
  by (simp add: fits_def wf_frame_def wf_body_def untagged_def framePayload_def wirePayload_def)

lemma demo_written: "\<exists>w'. WriteFrame 65536 demo_writer demo_frame = (None, w')"
  using demo_fits WriteFrame_open [of 65536 demo_frame _ _ demo_writer]
  by (elim fits_payload) (auto simp: demo_writer_def)

theorem frame_roundtrip_witness:
  "\<exists>w' out. WriteFrame 65536 demo_writer demo_frame = (None, w') \<and> sent w' = out \<and>
     (\<forall>rest e. ReadFrame 65536 \<lparr>rbuf = out @ rest, rend = e\<rparr> =
        (Inr demo_frame, \<lparr>rbuf = rest, rend = e\<rparr>))"
proof -
  obtain w' where w': "WriteFrame 65536 demo_writer demo_frame = (None, w')"
    using demo_written by blast
  show ?thesis
    using frame_roundtrip [OF demo_fits w'] w' by (auto simp: sent_def demo_writer_def)
qed

text \<open>
  C18. A connection carries frames without resynchronisation: any number of fitting frames
  written one after the other are read back in order, each with its own boundaries, and two
  different sequences of frames never have the same bytes.
\<close>

theorem frame_sequence:
  assumes "list_all (fits mx) fs" and "wlimit w = None"
  shows "\<exists>w' out. write_all mx w fs = (None, w') \<and> sent w' = sent w @ out \<and>
    (\<forall>rest. read_n (readFrameBytes mx) (length fs) (out @ rest) = Some (fs, rest)) \<and>
    (\<forall>gs. list_all (fits mx) gs \<and> out = concat (map (frameBytes mx) gs) \<longrightarrow> gs = fs)"
proof -
  obtain w' where w': "write_all mx w fs = (None, w')"
    using write_all_open [OF assms] by blast
  moreover note write_all_sent [OF w']
  moreover have "read_n (readFrameBytes mx) (length fs) (concat (map (frameBytes mx) fs) @ rest) =
      Some (fs, rest)" for rest
    by (rule fs.read_all [OF assms(1)])
  moreover have "gs = fs"
    if "list_all (fits mx) gs \<and> concat (map (frameBytes mx) fs) = concat (map (frameBytes mx) gs)" for gs
    using that fs.unique_decoding [OF _ assms(1), of gs] by simp
  ultimately show ?thesis by blast
qed

theorem frame_sequence_witness:
  "\<exists>out. \<forall>rest. read_n (readFrameBytes 65536) 2 (out @ rest) =
     Some ([demo_frame, mkFrame TypeText (bytes_of ''hello'')], rest)"
proof -
  have "list_all (fits 65536) [demo_frame, mkFrame TypeText (bytes_of ''hello'')]"
    using demo_fits demo_text_fits by simp
  from frame_sequence [OF this, of demo_writer] show ?thesis
    by (auto simp: demo_writer_def numeral_2_eq_2)
qed

text \<open>
  C7. What \<open>ReadFrame\<close> accepts is safe whatever the peer sent: the payload is no longer than
  the cap, a file name has at most 255 bytes of valid UTF-8 without a slash or backslash and is
  neither \<^verbatim>\<open>.\<close> nor \<^verbatim>\<open>..\<close>, identifiers are absent or valid, the type is never the tagged
  wrapper, and exactly one frame (header plus at most the cap) was taken from the stream.
\<close>

theorem read_accepts_safe:
  assumes "ReadFrame mx r = (Inr f, r')"
  shows "length (Payload f) \<le> unat mx \<and> Type f \<noteq> TypeTagged \<and>
    (Type f = TypeFile \<longrightarrow> valid_filename (Filename f)) \<and>
    (MessageID f = [] \<or> ValidMessageID (MessageID f)) \<and>
    (ReplyTo f = [] \<or> ValidMessageID (ReplyTo f)) \<and>
    (\<exists>taken. rbuf r = taken @ rbuf r' \<and> 8 + length (Payload f) \<le> length taken \<and>
       length taken \<le> 8 + unat mx)"
  using assms by (rule ReadFrame_safe)

theorem read_accepts_safe_witness:
  "valid_filename ''a.txt'' \<and> ValidMessageID ''m-1'' \<and>
   fst (ReadFrame 65536 \<lparr>rbuf = frameBytes 65536 demo_frame, rend = EOF\<rparr>) = Inr demo_frame"
proof -
  have r: "ReadFrame 65536 \<lparr>rbuf = frameBytes 65536 demo_frame, rend = EOF\<rparr> =
      (Inr demo_frame, \<lparr>rbuf = [], rend = EOF\<rparr>)"
    using ReadFrame_frameBytes [OF demo_fits, of "[]" EOF] by simp
  show ?thesis using read_accepts_safe [OF r] r by (simp add: demo_frame_def)
qed

text \<open>
  C19. How \<open>ReadFrame\<close> fails on a stream that ended: at a frame boundary it reports the end of
  the stream, inside a header or inside an announced payload it reports an unexpected end, and
  a length above the cap is refused after the header alone, before any payload byte is read.
\<close>

theorem read_errors:
  "(rbuf r = [] \<longrightarrow> fst (ReadFrame mx r) = Inl (Io (rend r))) \<and>
   (rend r = EOF \<and> rbuf r \<noteq> [] \<and> length (rbuf r) < 8 \<longrightarrow>
      fst (ReadFrame mx r) = Inl (Io ErrUnexpectedEOF)) \<and>
   (\<forall>t n body. rbuf r = PutUint32 t @ PutUint32 n @ body \<longrightarrow>
      (if n > mx then ReadFrame mx r = (Inl (FrameTooLarge n mx), r\<lparr>rbuf := body\<rparr>)
       else rend r = EOF \<and> length body < unat n \<longrightarrow>
         fst (ReadFrame mx r) = Inl (Io ErrUnexpectedEOF)))"
proof -
  have split: "ReadFrame mx r = (if n > mx then (Inl (FrameTooLarge n mx), r\<lparr>rbuf := body\<rparr>)
      else if length body < unat n then
        (Inl (Io (if rend r = EOF then ErrUnexpectedEOF else rend r)), r\<lparr>rbuf := []\<rparr>)
      else (decodeFrame t (take (unat n) body), r\<lparr>rbuf := drop (unat n) body\<rparr>))"
    if "rbuf r = PutUint32 t @ PutUint32 n @ body" for t n body
  proof -
    have "drop 8 (rbuf r) = body" "take 4 (rbuf r) = PutUint32 t"
      "take 4 (drop 4 (rbuf r)) = PutUint32 n" "\<not> length (rbuf r) < 8"
      using that by (simp_all add: codec_simps)
    then show ?thesis by (simp add: ReadFrame_cases Let_def codec_simps)
  qed
  have "if n > mx then ReadFrame mx r = (Inl (FrameTooLarge n mx), r\<lparr>rbuf := body\<rparr>)
      else rend r = EOF \<and> length body < unat n \<longrightarrow>
        fst (ReadFrame mx r) = Inl (Io ErrUnexpectedEOF)"
    if "rbuf r = PutUint32 t @ PutUint32 n @ body" for t n body
    using split [OF that] by simp
  moreover have "rbuf r = [] \<longrightarrow> fst (ReadFrame mx r) = Inl (Io (rend r))"
    by (simp add: ReadFrame_cases [of mx r])
  moreover have "rend r = EOF \<and> rbuf r \<noteq> [] \<and> length (rbuf r) < 8 \<longrightarrow>
      fst (ReadFrame mx r) = Inl (Io ErrUnexpectedEOF)"
    by (simp add: ReadFrame_cases [of mx r])
  ultimately show ?thesis by blast
qed

theorem read_errors_witness:
  "ReadFrame 65536 \<lparr>rbuf = PutUint32 1 @ PutUint32 70000 @ [7], rend = EOF\<rparr> =
     (Inl (FrameTooLarge 70000 65536), \<lparr>rbuf = [7], rend = EOF\<rparr>) \<and>
   fst (ReadFrame 65536 \<lparr>rbuf = PutUint32 1 @ PutUint32 5 @ [7], rend = EOF\<rparr>) =
     Inl (Io ErrUnexpectedEOF)"
  using read_errors [of "\<lparr>rbuf = PutUint32 1 @ PutUint32 70000 @ [7], rend = EOF\<rparr>" 65536]
    read_errors [of "\<lparr>rbuf = PutUint32 1 @ PutUint32 5 @ [7], rend = EOF\<rparr>" 65536]
  by force

text \<open>
  The single-write rule: with a transport that accepts everything, a frame whose payload has
  at most 64 KiB reaches it in one \<^verbatim>\<open>Write\<close> call (header and payload together), a longer one
  in two, and either way the bytes are header then payload.
\<close>

theorem write_call_count:
  assumes "framePayload mx f = Inr (t, p)" and "wlimit w = None"
  shows "\<exists>w'. WriteFrame mx w f = (None, w') \<and>
    wout w' = wout w @ (if length p \<le> 64 * 1024 then [frameHeader t p @ p] else [frameHeader t p, p])"
proof -
  obtain w' where w': "WriteFrame mx w f = (None, w')"
    using WriteFrame_open [OF assms] by blast
  with WriteFrame_ok [OF w'] assms(1) show ?thesis by (auto simp: singleWriteMax_def)
qed

theorem write_call_count_witness:
  "\<exists>w'. WriteFrame 65536 demo_writer (mkFrame TypeText [7]) = (None, w') \<and>
     wout w' = [frameHeader TypeText [7] @ [7]]"
proof -
  have p: "framePayload 65536 (mkFrame TypeText [7]) = Inr (TypeText, [7])"
    by (simp add: framePayload_def wirePayload_def)
  have "wlimit demo_writer = None" by (simp add: demo_writer_def)
  from write_call_count [OF p this] show ?thesis by (simp add: demo_writer_def)
qed

text \<open>
  C20. Size of tagged frames: the wrapper adds at most \<open>MaxTaggedOverhead\<close> (293) bytes.  A frame
  with valid identifiers whose untagged body leaves that much room below the cap fits with its
  tags.  When the tagged form exceeds the cap, \<open>WriteFrame\<close> returns the tagged-too-large error and
  writes nothing, while the same frame without its tags fits as soon as its body does.
\<close>

theorem tagged_size:
  assumes "wf_body f" and "Type f \<noteq> TypeTagged" and "valid_header (headerOf f)"
    and "wirePayload f = Inr inner"
  shows "MaxTaggedOverhead = 293 \<and>
    (length inner + MaxTaggedOverhead \<le> unat mx \<longrightarrow> fits mx f) \<and>
    (\<forall>p. taggedWirePayload mx f = Inr p \<longrightarrow> length p \<le> length inner + MaxTaggedOverhead) \<and>
    (\<not> untagged f \<and> unat mx < length inner + 6 + length (marshalHeader (headerOf f)) \<longrightarrow>
       WriteFrame mx w f = (Some (TaggedFrameTooLarge
         (length inner + 6 + length (marshalHeader (headerOf f))) (length inner) mx), w)) \<and>
    (length inner \<le> unat mx \<longrightarrow> fits mx (f\<lparr>MessageID := [], ReplyTo := []\<rparr>))"
proof (intro conjI impI allI)
  show "MaxTaggedOverhead = 293" by (rule MaxTaggedOverhead_eq)
  show "fits mx f" if "length inner + MaxTaggedOverhead \<le> unat mx"
    using assms that by (rule taggable_fits)
  show "length p \<le> length inner + MaxTaggedOverhead" if "taggedWirePayload mx f = Inr p" for p
    using taggedWirePayload_ok(3) [OF that] length_header_le [OF assms(3)] assms(4)
    by (auto simp: MaxTaggedOverhead_eq codec_simps)
  show "WriteFrame mx w f = (Some (TaggedFrameTooLarge
      (length inner + 6 + length (marshalHeader (headerOf f))) (length inner) mx), w)"
    if "\<not> untagged f \<and> unat mx < length inner + 6 + length (marshalHeader (headerOf f))"
    using that assms
    by (intro WriteFrame_refused)
      (simp add: framePayload_def taggedWirePayload_def validate_iff [symmetric] untagged_def
        Let_def ac_simps)
  have "wirePayload (f\<lparr>MessageID := [], ReplyTo := []\<rparr>) = Inr inner"
    using assms(4) by (simp add: wirePayload_tags)
  then show "fits mx (f\<lparr>MessageID := [], ReplyTo := []\<rparr>)" if "length inner \<le> unat mx"
    using that assms(1,2) by (simp add: fits_def framePayload_def wf_frame_def wf_body_def)
qed

theorem tagged_size_witness:
  "\<exists>e. WriteFrame 20 demo_writer demo_frame = (Some e, demo_writer) \<and>
     fits 20 (demo_frame\<lparr>MessageID := [], ReplyTo := []\<rparr>)"
proof -
  have b: "wf_body demo_frame" "Type demo_frame \<noteq> TypeTagged"
    using demo_fits by (simp_all add: fits_def wf_frame_def) (simp add: demo_frame_def)
  have h: "valid_header (headerOf demo_frame)"
    by (simp add: demo_frame_def headerOf_def valid_header_def ValidMessageID_def id_char_def code_def)
  have i: "wirePayload demo_frame = Inr (PutUint16 5 @ bytes_of ''a.txt'' @ [1, 2, 3])"
    by (simp add: demo_frame_def wirePayload_def)
  have u: "\<not> untagged demo_frame" by (simp add: untagged_def demo_frame_def)
  have j: "json_body ''message_id'' = ''message_id''" "json_body ''reply_to'' = ''reply_to''"
    by (rule json_body_id, simp add: id_char_def code_def)+
  have m: "14 < length (marshalHeader (headerOf demo_frame))"
    by (simp add: demo_frame_def headerOf_def marshalHeader_def header_members_def json_object_def
        json_quote_def j)
  show ?thesis
    using tagged_size [OF b h i, of 20 demo_writer] u m by (simp add: codec_simps)
qed

text \<open>
  Trace frames: what \<open>WriteTraceFrame\<close> puts on the wire is read back by \<open>ReadFrame\<close> and
  decoded by \<open>ReadTracePayload\<close> to the same time stamp (any \<^verbatim>\<open>int64\<close>, negative ones
  included), inner type and payload.
\<close>

theorem trace_roundtrip:
  assumes "- (2 ^ 63) \<le> SentAtNs tf" and "SentAtNs tf < 2 ^ 63"
    and "12 + length (TracePayload tf) \<le> unat mx" and "WriteTraceFrame mx w tf = (None, w')"
  shows "\<exists>out f. sent w' = sent w @ out \<and>
    (\<forall>rest e. ReadFrame mx \<lparr>rbuf = out @ rest, rend = e\<rparr> = (Inr f, \<lparr>rbuf = rest, rend = e\<rparr>)) \<and>
    ReadTracePayload f = Inr tf"
proof -
  let ?f = "mkFrame TypeTrace (tracePayload tf)"
  have "fits mx ?f"
    using assms(3) by (simp add: fits_def wf_frame_def wf_body_def untagged_def framePayload_def
        wirePayload_def tracePayload_def codec_simps)
  moreover have "sent w' = sent w @ frameBytes mx ?f"
    using assms(4) by (intro WriteFrame_sent) (simp add: WriteTraceFrame_def)
  ultimately show ?thesis
    using ReadFrame_frameBytes ReadTrace_tracePayload [OF assms(1,2)] by blast
qed

theorem trace_roundtrip_witness:
  "\<exists>out f. (\<forall>rest e. ReadFrame 65536 \<lparr>rbuf = out @ rest, rend = e\<rparr> =
       (Inr f, \<lparr>rbuf = rest, rend = e\<rparr>)) \<and>
     ReadTracePayload f = Inr \<lparr>SentAtNs = -5, InnerType = TypeText, TracePayload = [9]\<rparr>"
proof -
  let ?tf = "\<lparr>SentAtNs = -5, InnerType = TypeText, TracePayload = [9]\<rparr>"
  have "framePayload 65536 (mkFrame TypeTrace (tracePayload ?tf)) = Inr (TypeTrace, tracePayload ?tf)"
    by (simp add: framePayload_def wirePayload_def)
  from WriteFrame_open [OF this, of demo_writer]
  obtain w' where w': "WriteTraceFrame 65536 demo_writer ?tf = (None, w')"
    by (auto simp: WriteTraceFrame_def demo_writer_def)
  have "- (2 ^ 63) \<le> SentAtNs ?tf" "SentAtNs ?tf < 2 ^ 63" "12 + length (TracePayload ?tf) \<le> unat (65536 :: u32)"
    by simp_all
  from trace_roundtrip [OF this w'] show ?thesis by blast
qed

text \<open>
  The frame cap in effect is always between 64 KiB and 2 GiB, whatever the environment
  variable holds: a decimal number in that range is used as it is, everything else (a sign, other
  characters, a value out of range) leaves the default of 64 MiB.
\<close>

theorem max_frame_size:
  "2 ^ 16 \<le> unat (MaxFrameSize v) \<and> unat (MaxFrameSize v) < 2 ^ 31 \<and>
   (\<forall>n. 2 ^ 16 \<le> n \<and> n < 2 ^ 31 \<longrightarrow> unat (MaxFrameSize (dec n)) = n) \<and>
   (ParseUint32 v = None \<longrightarrow> unat (MaxFrameSize v) = 64 * 1024 * 1024)"
proof -
  have d: "unat DefaultMaxFrameSize = 64 * 1024 * 1024" by (simp add: DefaultMaxFrameSize_def)
  have u: "unat (word_of_nat n :: u32) = n" if "n < 2 ^ 31" for n
    using that by (simp add: unat_of_nat)
  have "2 ^ 16 \<le> unat (MaxFrameSize v) \<and> unat (MaxFrameSize v) < 2 ^ 31"
    using d u by (auto simp: MaxFrameSize_def split: option.split)
  moreover have "unat (MaxFrameSize (dec n)) = n" if "2 ^ 16 \<le> n" "n < 2 ^ 31" for n
    using that u [of n] by (simp add: MaxFrameSize_def ParseUint32_dec)
  moreover have "unat (MaxFrameSize v) = 64 * 1024 * 1024" if "ParseUint32 v = None"
    using that d by (simp add: MaxFrameSize_def)
  ultimately show ?thesis by blast
qed

theorem max_frame_size_witness:
  "unat (MaxFrameSize (dec 70000)) = 70000 \<and> unat (MaxFrameSize ''-1'') = 64 * 1024 * 1024"
proof -
  have "ParseUint32 ''-1'' = None" by (simp add: ParseUint32_def is_digit_def)
  then show ?thesis using max_frame_size [of "''-1''"] by (simp add: max_frame_size)
qed

text \<open>
  Memory committed before data arrives: whatever length a peer announces, the reader reserves
  at most 64 KiB up front, and it returns either exactly the announced bytes or an error.
\<close>

theorem read_bounded_reserve:
  "(case readBounded n r of (res, r', reserved) \<Rightarrow>
     reserved \<le> 64 * 1024 \<and> reserved \<le> n \<and>
     (case res of Inr b \<Rightarrow> length b = n \<and> rbuf r = b @ rbuf r'
      | Inl e \<Rightarrow> length (rbuf r) < n \<and> e \<noteq> EOF))"
  by (auto simp: readBounded_def readBoundedInitialCap_def CopyN_def Let_def)

text \<open>
  Message identifiers: \<open>NewMessageID\<close> on sixteen random bytes always yields a valid
  identifier of 32 characters, and distinct random bytes yield distinct identifiers.
\<close>

theorem new_message_id:
  assumes "length b = 16" and "length c = 16"
  shows "ValidMessageID (NewMessageID b) \<and> length (NewMessageID b) = 32 \<and>
    (NewMessageID b = NewMessageID c \<longleftrightarrow> b = c)"
proof -
  have h: "id_char (hexdigit d)" if "d < 16" for d
    using that by (auto simp: id_char_def hexdigit_def code_def)
  have "unat x div 16 < 16" for x :: byte by (simp add: less_mult_imp_div_less)
  then have "list_all id_char (hex b)" by (auto simp: hex_def list_all_iff intro!: h)
  then show ?thesis using assms by (auto simp: ValidMessageID_def NewMessageID_def)
qed

theorem new_message_id_witness:
  "ValidMessageID (NewMessageID (replicate 16 0xAB)) \<and>
   NewMessageID (replicate 16 0xAB) \<noteq> NewMessageID (replicate 16 0xAC)"
  using new_message_id [of "replicate 16 0xAB" "replicate 16 0xAC"] by simp

end
