(* ===== verification/Client.thy ===== *)
theory Client
  imports Frames
begin

text \<open>
  The sending side, \<^verbatim>\<open>client.go\<close>: \<open>sendAndAwaitAck\<close> (the body of \<^verbatim>\<open>Client.Send\<close>) with
  its two fallbacks to the untagged form, and the plain send helpers.  A connection is a
  reader, which holds what the peer will answer, and a writer.
\<close>

section \<open>Connections and results\<close>

record conn =
  crd :: reader
  cwr :: writer

record SendResult =
  Ack :: Frame
  Tagged :: bool
  Duplicate :: bool

definition duplicateAckSuffix :: string where
  "duplicateAckSuffix = '' (duplicate)''"

definition untaggedReceiverAckPrefixes :: "string list" where
  "untaggedReceiverAckPrefixes =
     [''ACK UNKNOWN('' @ dec (unat TypeTagged) @ '') '',
      ''ERR UNKNOWN('' @ dec (unat TypeTagged) @ '') '']"

definition receiverPredatesTagged :: "Frame \<Rightarrow> bool" where
  "receiverPredatesTagged ack \<longleftrightarrow>
     Type ack = TypeText \<and>
     list_ex (\<lambda>p. prefix p (string_of (Payload ack))) untaggedReceiverAckPrefixes"

definition withoutTags :: "Frame \<Rightarrow> Frame" where
  "withoutTags f = f\<lparr>MessageID := [], ReplyTo := []\<rparr>"

text \<open>\<^verbatim>\<open>errors.Is(err, ErrTaggedFrameTooLarge)\<close>: looks through the wrapping errors.\<close>

fun is_too_large :: "error \<Rightarrow> bool" where
  "is_too_large (TaggedFrameTooLarge _ _ _) = True"
| "is_too_large (DataexchangeError e) = is_too_large e"
| "is_too_large (TaggedHeaderError e) = is_too_large e"
| "is_too_large (ReadAck e) = is_too_large e"
| "is_too_large _ = False"

section \<open>Send\<close>

definition sendResult :: "Frame \<Rightarrow> bool \<Rightarrow> SendResult option \<times> error option" where
  "sendResult ack tagged =
     (let text = string_of (Payload ack);
          result = \<lparr>Ack = ack, Tagged = tagged,
            Duplicate = Type ack = TypeText \<and> prefix ''ACK '' text \<and> suffix duplicateAckSuffix text\<rparr>
      in if Type ack = TypeText \<and> prefix ''ERR '' text then (Some result, Some (Rejected text))
         else (Some result, None))"

text \<open>The first write of a send, with the fallback for a frame that fits only untagged.\<close>

definition sendFirst :: "u32 \<Rightarrow> writer \<Rightarrow> Frame \<Rightarrow> bool \<times> error option \<times> writer" where
  "sendFirst mx w f =
     (let tagged = (MessageID f \<noteq> [] \<or> ReplyTo f \<noteq> []) in
      case WriteFrame mx w f of
        (Some e, w1) \<Rightarrow>
          if tagged \<and> is_too_large e
          then (case WriteFrame mx w1 (withoutTags f) of (err, w2) \<Rightarrow> (False, err, w2))
          else (tagged, Some e, w1)
      | (None, w1) \<Rightarrow> (tagged, None, w1))"

definition sendAndAwaitAck ::
  "u32 \<Rightarrow> conn \<Rightarrow> Frame option \<Rightarrow> (SendResult option \<times> error option) \<times> conn" where
  "sendAndAwaitAck mx c frame =
     (case frame of
        None \<Rightarrow> ((None, Some FrameRequired), c)
      | Some f \<Rightarrow>
          (case sendFirst mx (cwr c) f of
             (_, Some e, w1) \<Rightarrow> ((None, Some e), c\<lparr>cwr := w1\<rparr>)
           | (tagged, None, w1) \<Rightarrow>
               (case ReadFrame mx (crd c) of
                  (Inl e, r1) \<Rightarrow> ((None, Some (ReadAck e)), \<lparr>crd = r1, cwr = w1\<rparr>)
                | (Inr ack, r1) \<Rightarrow>
                    if tagged \<and> receiverPredatesTagged ack then
                      (case WriteFrame mx w1 (withoutTags f) of
                         (Some e, w2) \<Rightarrow> ((None, Some e), \<lparr>crd = r1, cwr = w2\<rparr>)
                       | (None, w2) \<Rightarrow>
                           (case ReadFrame mx r1 of
                              (Inl e, r2) \<Rightarrow> ((None, Some (ReadAck e)), \<lparr>crd = r2, cwr = w2\<rparr>)
                            | (Inr ack2, r2) \<Rightarrow> (sendResult ack2 False, \<lparr>crd = r2, cwr = w2\<rparr>)))
                    else (sendResult ack tagged, \<lparr>crd = r1, cwr = w1\<rparr>))))"

definition Client_Send :: "u32 \<Rightarrow> conn \<Rightarrow> Frame option \<Rightarrow> (SendResult option \<times> error option) \<times> conn" where
  "Client_Send mx c frame = sendAndAwaitAck mx c frame"

section \<open>Send helpers\<close>

definition SendText :: "u32 \<Rightarrow> writer \<Rightarrow> string \<Rightarrow> error option \<times> writer" where
  "SendText mx w text = WriteFrame mx w (mkFrame TypeText (bytes_of text))"

definition SendJSON :: "u32 \<Rightarrow> writer \<Rightarrow> bytes \<Rightarrow> error option \<times> writer" where
  "SendJSON mx w d = WriteFrame mx w (mkFrame TypeJSON d)"

definition SendBinary :: "u32 \<Rightarrow> writer \<Rightarrow> bytes \<Rightarrow> error option \<times> writer" where
  "SendBinary mx w d = WriteFrame mx w (mkFrame TypeBinary d)"

definition SendFile :: "u32 \<Rightarrow> writer \<Rightarrow> string \<Rightarrow> bytes \<Rightarrow> error option \<times> writer" where
  "SendFile mx w name d = WriteFrame mx w ((mkFrame TypeFile d)\<lparr>Filename := name\<rparr>)"

text \<open>The clock value \<open>now\<close> is \<^verbatim>\<open>time.Now().UnixNano()\<close>.\<close>

definition SendTrace :: "u32 \<Rightarrow> writer \<Rightarrow> int \<Rightarrow> u32 \<Rightarrow> bytes \<Rightarrow> (int \<times> error option) \<times> writer" where
  "SendTrace mx w now innerType d =
     (case WriteTraceFrame mx w \<lparr>SentAtNs = now, InnerType = innerType, TracePayload = d\<rparr> of
        (err, w') \<Rightarrow> ((now, err), w'))"

definition Recv :: "u32 \<Rightarrow> conn \<Rightarrow> (error + Frame) \<times> conn" where
  "Recv mx c = (case ReadFrame mx (crd c) of (res, r) \<Rightarrow> (res, c\<lparr>crd := r\<rparr>))"

text \<open>
  Opening and closing a connection are calls of the driver, a package outside the repository:
  its two functions and the port are arguments.
\<close>

definition Dial :: "('a \<Rightarrow> nat \<Rightarrow> 'e + conn) \<Rightarrow> nat \<Rightarrow> 'a \<Rightarrow> 'e + conn" where
  "Dial dialAddr port addr = (case dialAddr addr port of Inl e \<Rightarrow> Inl e | Inr c \<Rightarrow> Inr c)"

definition Client_Close :: "(conn \<Rightarrow> 'e option \<times> conn) \<Rightarrow> conn \<Rightarrow> 'e option \<times> conn" where
  "Client_Close closeConn c = closeConn c"

section \<open>Lemmas\<close>

lemma untagged_withoutTags [simp]: "untagged (withoutTags f)"
  by (simp add: withoutTags_def untagged_def)

lemma withoutTags_sel [simp]:
  "Type (withoutTags f) = Type f" "Payload (withoutTags f) = Payload f"
  "Filename (withoutTags f) = Filename f" "MessageID (withoutTags f) = []" "ReplyTo (withoutTags f) = []"
  by (simp_all add: withoutTags_def)

lemma sendFirst_untagged:
  "untagged f \<Longrightarrow> sendFirst mx w f = (False, WriteFrame mx w f)"
  by (auto simp: sendFirst_def untagged_def split: prod.splits option.splits)

lemma sendFirst_fits:
  "\<not> untagged f \<Longrightarrow> WriteFrame mx w f = (None, w1) \<Longrightarrow> sendFirst mx w f = (True, None, w1)"
  by (auto simp: sendFirst_def untagged_def)

text \<open>
  In every case the bytes that left are those of the frame or those of the frame without its
  tags, and the flag tells which.
\<close>

lemma sendFirst_sent:
  assumes "sendFirst mx w f = (tagged, None, w1)"
  shows "sent w1 = sent w @ frameBytes mx (if tagged then f else withoutTags f)"
proof -
  have same: "MessageID f = [] \<Longrightarrow> ReplyTo f = [] \<Longrightarrow> withoutTags f = f"
    by (auto simp: withoutTags_def intro!: Frame_eqI)
  show ?thesis
  proof (cases "WriteFrame mx w f")
    case (Pair err w')
    show ?thesis
    proof (cases err)
      case None
      with assms Pair show ?thesis
        by (auto simp: sendFirst_def WriteFrame_sent same)
    next
      case (Some e)
      with assms Pair have tl: "\<not> untagged f" "is_too_large e" "\<not> tagged"
        and w: "WriteFrame mx w' (withoutTags f) = (None, w1)"
        by (auto simp: sendFirst_def untagged_def Let_def split: if_splits prod.splits)
      have "w' = w"
        using Pair Some tl(2)
        by (auto simp: WriteFrame_def Let_def map_prod_def split: sum.splits if_splits prod.splits option.splits)
      with tl(3) WriteFrame_sent [OF w] show ?thesis by simp
    qed
  qed
qed

text \<open>Reading an acknowledgement that the peer has put on the stream.\<close>

definition answers :: "u32 \<Rightarrow> Frame list \<Rightarrow> reader \<Rightarrow> bool" where
  "answers mx acks r \<longleftrightarrow> list_all (fits mx) acks \<and> prefix (concat (map (frameBytes mx) acks)) (rbuf r)"

lemma answers_Cons:
  assumes "answers mx (a # as) r"
  shows "\<exists>r'. ReadFrame mx r = (Inr a, r') \<and> answers mx as r'"
proof -
  obtain rest where r: "rbuf r = frameBytes mx a @ concat (map (frameBytes mx) as) @ rest"
    using assms by (auto simp: answers_def prefix_def)
  have "r = \<lparr>rbuf = rbuf r, rend = rend r\<rparr>" by simp
  with r have "ReadFrame mx r = (Inr a, \<lparr>rbuf = concat (map (frameBytes mx) as) @ rest, rend = rend r\<rparr>)"
    using assms ReadFrame_frameBytes [of mx a _ "rend r"] by (metis answers_def list.pred_inject(2))
  then show ?thesis using assms by (simp add: answers_def)
qed

lemma sendFirst_open:
  assumes "wlimit w = None" and "framePayload mx f = Inr p"
  shows "\<exists>w1. sendFirst mx w f = (\<not> untagged f, None, w1) \<and> wlimit w1 = None \<and>
    sent w1 = sent w @ frameBytes mx f"
proof -
  obtain t q where p: "framePayload mx f = Inr (t, q)" using assms(2) by (cases p) simp
  then obtain w1 where "WriteFrame mx w f = (None, w1)" "wlimit w1 = None"
    using WriteFrame_open assms(1) by blast
  then show ?thesis
    by (auto simp: sendFirst_def untagged_def WriteFrame_sent)
qed

lemma sendFirst_too_large:
  assumes "wlimit w = None" and "\<not> untagged f" and "framePayload mx f = Inl e" and "is_too_large e"
    and "framePayload mx (withoutTags f) = Inr p"
  shows "\<exists>w1. sendFirst mx w f = (False, None, w1) \<and> wlimit w1 = None \<and>
    sent w1 = sent w @ frameBytes mx (withoutTags f)"
proof -
  obtain t q where p: "framePayload mx (withoutTags f) = Inr (t, q)" using assms(5) by (cases p) simp
  then obtain w1 where "WriteFrame mx w (withoutTags f) = (None, w1)" "wlimit w1 = None"
    using WriteFrame_open assms(1) by blast
  then show ?thesis using assms
    by (auto simp: sendFirst_def untagged_def WriteFrame_sent WriteFrame_refused)
qed

lemma framePayload_withoutTags:
  "framePayload mx (withoutTags f) = map_sum id (\<lambda>p. (Type f, p)) (wirePayload f)"
  by (simp add: framePayload_def withoutTags_def wirePayload_tags)

lemma sendResult_fields:
  "\<exists>res err. sendResult a tg = (Some res, err) \<and> Ack res = a \<and> Tagged res = tg"
  by (simp add: sendResult_def Let_def)

text \<open>The exchange with an old receiver, step by step.\<close>

lemma send_old_receiver:
  assumes f: "fits mx f" "fits mx (withoutTags f)" "\<not> untagged f" and w: "wlimit (cwr c) = None"
    and a: "answers mx [ack, ack2] (crd c)" "receiverPredatesTagged ack"
  shows "\<exists>c'. sendAndAwaitAck mx c (Some f) = (sendResult ack2 False, c') \<and>
    sent (cwr c') = sent (cwr c) @ frameBytes mx f @ frameBytes mx (withoutTags f)"
proof -
  obtain p where p: "framePayload mx f = Inr p" using f(1) by (rule fits_payload)
  obtain t q where q: "framePayload mx (withoutTags f) = Inr (t, q)" using f(2) by (rule fits_payload)
  obtain w1 where w1: "sendFirst mx (cwr c) f = (True, None, w1)" "wlimit w1 = None"
    "sent w1 = sent (cwr c) @ frameBytes mx f"
    using sendFirst_open [OF w p] f(3) by auto
  obtain r1 where r1: "ReadFrame mx (crd c) = (Inr ack, r1)" "answers mx [ack2] r1"
    using answers_Cons [OF a(1)] by blast
  obtain r2 where r2: "ReadFrame mx r1 = (Inr ack2, r2)" using answers_Cons [OF r1(2)] by blast
  obtain w2 where w2: "WriteFrame mx w1 (withoutTags f) = (None, w2)"
    using WriteFrame_open [OF q w1(2)] by blast
  show ?thesis
    using w1 r1(1) r2 w2 a(2) WriteFrame_sent [OF w2]
    by (auto simp: sendAndAwaitAck_def)
qed

text \<open>The connections of the examples: the peer's answers are already on the stream.\<close>

definition demo_conn :: "Frame list \<Rightarrow> conn" where
  "demo_conn acks =
     \<lparr>crd = \<lparr>rbuf = concat (map (frameBytes 65536) acks), rend = EOF\<rparr>, cwr = demo_writer\<rparr>"

definition demo_ack :: "string \<Rightarrow> Frame" where
  "demo_ack t = mkFrame TypeText (bytes_of t)"

definition demo_legacy :: "Frame list" where
  "demo_legacy = [demo_ack ''ACK UNKNOWN(10) 54 bytes'', demo_ack ''ACK FILE 3 bytes'']"

definition demo_big :: Frame where
  "demo_big = (mkFrame TypeBinary (replicate 65536 0))\<lparr>MessageID := ''m-1''\<rparr>"

lemma demo_ack_fits: "length t \<le> 100 \<Longrightarrow> fits 65536 (demo_ack t)"
  by (simp add: demo_ack_def fits_def wf_frame_def wf_body_def untagged_def framePayload_def wirePayload_def)

lemma demo_answers: "list_all (fits 65536) acks \<Longrightarrow> answers 65536 acks (crd (demo_conn acks))"
  by (simp add: answers_def demo_conn_def)

lemma demo_legacy_answers: "answers 65536 demo_legacy (crd (demo_conn demo_legacy))"
  by (rule demo_answers) (simp add: demo_legacy_def demo_ack_fits)

lemma demo_predates: "receiverPredatesTagged (demo_ack (''ACK UNKNOWN(10) 54 bytes''))"
proof -
  have "dec 10 = ''10''" by (simp add: dec.simps digit_eqs)
  then show ?thesis
    by (simp add: receiverPredatesTagged_def demo_ack_def untaggedReceiverAckPrefixes_def)
qed

lemma demo_conn_open: "wlimit (cwr (demo_conn acks)) = None" "sent (cwr (demo_conn acks)) = []"
  by (simp_all add: demo_conn_def demo_writer_def sent_def)

lemma demo_untagged_fits: "fits 65536 (withoutTags demo_frame)"
  by (simp add: fits_def wf_frame_def wf_body_def framePayload_withoutTags valid_filename_def
      demo_frame_def withoutTags_def utf8_valid_ascii byte_of_def ContainsSlash_def
      wirePayload_def framePayload_def codec_simps)

lemma demo_big_fits: "fits 65536 (withoutTags demo_big)"
  by (simp add: fits_def wf_frame_def wf_body_def framePayload_withoutTags demo_big_def wirePayload_def)

lemma demo_big_too_large:
  "\<exists>n m. framePayload 65536 demo_big = Inl (TaggedFrameTooLarge n m 65536)"
  by (simp add: framePayload_def demo_big_def taggedWirePayload_def headerOf_def Let_def
      validateTaggedHeader_def ValidMessageID_def id_char_def code_def wirePayload_def)

lemma demo_tagged: "\<not> untagged demo_frame"
  by (simp add: demo_frame_def untagged_def)

lemma demo_legacy_send:
  "\<exists>res c'. sendAndAwaitAck 65536 (demo_conn demo_legacy) (Some demo_frame) = ((Some res, None), c') \<and>
     \<not> Tagged res"
  using send_old_receiver [OF demo_fits demo_untagged_fits demo_tagged demo_conn_open(1)
      demo_legacy_answers [unfolded demo_legacy_def] demo_predates]
  by (auto simp: sendResult_def demo_ack_def demo_legacy_def Let_def)

section \<open>Properties\<close>

text \<open>
  C21. What a send that produced a result has put on the wire.  The bytes written are one copy
  of the frame, one copy of the frame without its tags, or the first followed by the second;
  the reported \<open>Tagged\<close> flag is true exactly when the frame had tags and the tagged copy is the
  only one sent; and a second copy is sent only after an answer that a receiver older than the
  tagged format gives.
\<close>

theorem send_wire:
  assumes "sendAndAwaitAck mx c (Some f) = ((Some res, err), c')"
  shows "(Tagged res \<longrightarrow> \<not> untagged f \<and> sent (cwr c') = sent (cwr c) @ frameBytes mx f) \<and>
    (\<not> Tagged res \<longrightarrow>
       sent (cwr c') = sent (cwr c) @ frameBytes mx (withoutTags f) \<or>
       (\<exists>ack r1. \<not> untagged f \<and> ReadFrame mx (crd c) = (Inr ack, r1) \<and> receiverPredatesTagged ack \<and>
          sent (cwr c') = sent (cwr c) @ frameBytes mx f @ frameBytes mx (withoutTags f)))"
proof -
  obtain tg w1 where first: "sendFirst mx (cwr c) f = (tg, None, w1)"
    using assms by (auto simp: sendAndAwaitAck_def split: prod.splits option.splits)
  have s1: "sent w1 = sent (cwr c) @ frameBytes mx (if tg then f else withoutTags f)"
    by (rule sendFirst_sent [OF first])
  have tg: "tg \<Longrightarrow> \<not> untagged f"
    using first by (auto simp: sendFirst_def untagged_def Let_def split: prod.splits option.splits if_splits)
  obtain ack r1 where rd: "ReadFrame mx (crd c) = (Inr ack, r1)"
    using assms first by (auto simp: sendAndAwaitAck_def split: prod.splits sum.splits)
  show ?thesis
  proof (cases "tg \<and> receiverPredatesTagged ack")
    case False
    then have "sendResult ack tg = (Some res, err)" "cwr c' = w1"
      using assms first rd by (auto simp: sendAndAwaitAck_def split: if_splits)
    then show ?thesis using s1 tg sendResult_fields [of ack tg] by auto
  next
    case True
    then obtain w2 ack2 where w2: "WriteFrame mx w1 (withoutTags f) = (None, w2)"
      and r: "sendResult ack2 False = (Some res, err)" "cwr c' = w2"
      using assms first rd by (auto simp: sendAndAwaitAck_def split: prod.splits option.splits sum.splits)
    then show ?thesis
      using WriteFrame_sent [OF w2] s1 True tg rd sendResult_fields [of ack2 False] by auto
  qed
qed

theorem send_wire_witness:
  "\<exists>res c'. sendAndAwaitAck 65536 (demo_conn demo_legacy) (Some demo_frame) = ((Some res, None), c') \<and>
     \<not> Tagged res \<and>
     (sent (cwr c') = frameBytes 65536 (withoutTags demo_frame) \<or>
      (\<exists>ack r1. ReadFrame 65536 (crd (demo_conn demo_legacy)) = (Inr ack, r1) \<and> receiverPredatesTagged ack))"
proof -
  obtain res c' where r: "sendAndAwaitAck 65536 (demo_conn demo_legacy) (Some demo_frame) = ((Some res, None), c')"
    and t: "\<not> Tagged res"
    using demo_legacy_send by blast
  show ?thesis using send_wire [OF r] r t by (auto simp: demo_conn_open)
qed



text \<open>
  A tagged frame over the cap is sent without its tags from the start: nothing of the
  tagged form reaches the wire and the result says so.
\<close>

lemma send_too_large:
  assumes f: "\<not> untagged f" "framePayload mx f = Inl (TaggedFrameTooLarge n m mx)"
    and g: "fits mx (withoutTags f)" and w: "wlimit (cwr c) = None"
    and a: "answers mx [ack] (crd c)" "\<not> prefix ''ERR '' (string_of (Payload ack))"
  shows "\<exists>res c'. sendAndAwaitAck mx c (Some f) = ((Some res, None), c') \<and>
    Ack res = ack \<and> \<not> Tagged res \<and> sent (cwr c') = sent (cwr c) @ frameBytes mx (withoutTags f)"
proof -
  obtain q where q: "framePayload mx (withoutTags f) = Inr q" using g by (rule fits_payload)
  obtain w1 where w1: "sendFirst mx (cwr c) f = (False, None, w1)"
    "sent w1 = sent (cwr c) @ frameBytes mx (withoutTags f)"
    using sendFirst_too_large [OF w f _ q] by auto
  obtain r1 where r1: "ReadFrame mx (crd c) = (Inr ack, r1)"
    using answers_Cons [OF a(1)] by blast
  show ?thesis using w1 r1 a(2)
    by (auto simp: sendAndAwaitAck_def sendResult_def Let_def)
qed

lemma send_too_large_witness:
  "\<exists>res c'. sendAndAwaitAck 65536 (demo_conn [demo_ack ''ACK BINARY 65536 bytes'']) (Some demo_big) =
     ((Some res, None), c') \<and> \<not> Tagged res \<and> sent (cwr c') = frameBytes 65536 (withoutTags demo_big)"
proof -
  obtain n m where "framePayload 65536 demo_big = Inl (TaggedFrameTooLarge n m 65536)"
    using demo_big_too_large by blast
  moreover have "\<not> untagged demo_big" by (simp add: demo_big_def untagged_def)
  moreover have "answers 65536 [demo_ack ''ACK BINARY 65536 bytes'']
      (crd (demo_conn [demo_ack ''ACK BINARY 65536 bytes'']))"
    by (rule demo_answers) (simp add: demo_ack_fits)
  ultimately show ?thesis
    using send_too_large [OF _ _ demo_big_fits demo_conn_open(1)]
    by (fastforce simp: demo_conn_open demo_ack_def)
qed

end
