(* ===== verification/Server.thy ===== *)
theory Server
  imports Frames
begin

text \<open>
  The plain server, \<^verbatim>\<open>server.go\<close>: a connection is read frame by frame and every frame goes to the
  handler, which is a parameter with a state of its own.  A handler may answer on the connection
  (that is part of its state), but one that reads from it, which would take bytes away from this
  loop, is outside the model.  The listener is the driver's: the error
  of opening it and what its calls of \<^verbatim>\<open>Accept\<close> return are arguments.
\<close>

text \<open>
  The connections handed to a goroutine each, and the error that ends the loop; \<open>None\<close> while the
  server waits for the next connection.
\<close>

fun acceptAll :: "('e + 'c) list \<Rightarrow> 'e option \<times> 'c list" where
  "acceptAll [] = (None, [])"
| "acceptAll (Inl e # _) = (Some e, [])"
| "acceptAll (Inr c # rs) = (case acceptAll rs of (r, cs) \<Rightarrow> (r, c # cs))"

definition ListenAndServe :: "'e option \<Rightarrow> ('e + 'c) list \<Rightarrow> 'e option \<times> 'c list" where
  "ListenAndServe listenErr accepts = (case listenErr of Some e \<Rightarrow> (Some e, []) | None \<Rightarrow> acceptAll accepts)"

lemma acceptAll_until_error:
  "acceptAll (map Inr cs @ Inl e # rs) = (Some e, cs)" "acceptAll (map Inr cs) = (None, cs)"
  by (induction cs) simp_all

function Server_handleConn :: "u32 \<Rightarrow> (Frame \<Rightarrow> 's \<Rightarrow> 's) \<Rightarrow> reader \<Rightarrow> 's \<Rightarrow> 's" where
  "Server_handleConn mx handler r st =
     (case ReadFrame mx r of
        (Inl e, r') \<Rightarrow> st
      | (Inr f, r') \<Rightarrow> Server_handleConn mx handler r' (handler f st))"
  by pat_completeness auto
termination
  by (relation "measure (\<lambda>(mx, handler, r, st). length (rbuf r))") (auto dest!: ReadFrame_shorter [OF sym])

declare Server_handleConn.simps [simp del]

lemma serve_frames:
  "list_all (fits mx) fs \<Longrightarrow>
   Server_handleConn mx h \<lparr>rbuf = concat (map (frameBytes mx) fs) @ rest, rend = e\<rparr> st =
     Server_handleConn mx h \<lparr>rbuf = rest, rend = e\<rparr> (fold h fs st)"
proof (induction fs arbitrary: st)
  case (Cons f fs)
  then show ?case
    by (simp add: Server_handleConn.simps [of mx h "\<lparr>rbuf = frameBytes mx f @ _, rend = e\<rparr>"] ReadFrame_frameBytes)
qed simp

text \<open>
  C37. A server accepts until the listener fails, whose error it returns, and hands the handler
  of each accepted connection exactly the frames its peer wrote, each once and in order; a final
  incomplete frame is not dispatched.
\<close>

theorem server_dispatch:
  assumes "list_all (fits mx) fs" and "length rest < 8"
  shows "ListenAndServe None (map Inr cs @ Inl err # later) = (Some err, cs) \<and> ListenAndServe (Some err) later = (Some err, []) \<and>
    Server_handleConn mx h \<lparr>rbuf = concat (map (frameBytes mx) fs) @ rest, rend = e\<rparr> st = fold h fs st"
proof -
  have "ReadFull 8 \<lparr>rbuf = rest, rend = e\<rparr> =
      (Inl (if rest \<noteq> [] \<and> e = EOF then ErrUnexpectedEOF else e), \<lparr>rbuf = [], rend = e\<rparr>)"
    using assms(2) by (simp add: ReadFull_def)
  then have "Server_handleConn mx h \<lparr>rbuf = rest, rend = e\<rparr> s = s" for s
    by (simp add: Server_handleConn.simps [of mx h "\<lparr>rbuf = rest, rend = e\<rparr>"] ReadFrame_def)
  then show ?thesis
    using serve_frames [OF assms(1), of h rest e st] by (simp add: ListenAndServe_def acceptAll_until_error)
qed

theorem server_dispatch_witness:
  "ListenAndServe None [Inr (1 :: nat), Inr 2, Inl ''closed''] = (Some ''closed'', [1, 2]) \<and>
   Server_handleConn 65536 (\<lambda>f st. st @ [Type f]) \<lparr>rbuf = concat (map (frameBytes 65536)
     [mkFrame TypeText (bytes_of ''hello''), demo_frame]) @ [0, 0, 0], rend = EOF\<rparr> [] = [TypeText, Type demo_frame]"
  using server_dispatch [of 65536 "[mkFrame TypeText (bytes_of ''hello''), demo_frame]" "[0, 0, 0]"
      "[1 :: nat, 2]" "''closed''" "[]" "\<lambda>f st. st @ [Type f]" EOF "[]"] demo_fits demo_text_fits
  by simp

end
