(* ===== verification/Example.thy ===== *)
theory Example
  imports Client Server
begin

text \<open>
  The example program, \<^verbatim>\<open>examples/main.go\<close>: a server that answers every frame with a short text, and
  a client that sends two frames and prints the two answers.  Lines of the log are values.  The
  driver and the address parser are packages outside the repository: what they return are
  arguments, as are the texts of remote addresses.
\<close>

section \<open>Server\<close>

definition receivedLine :: "string \<Rightarrow> Frame \<Rightarrow> string" where
  "receivedLine remote f =
     ''received '' @ TypeName (Type f) @ '' frame ('' @ dec (length (Payload f)) @ '' bytes) from '' @ remote"

definition detailLines :: "Frame \<Rightarrow> string list" where
  "detailLines f =
     (if Type f = TypeText then [''  text: '' @ string_of (Payload f)]
      else if Type f = TypeJSON then [''  json: '' @ string_of (Payload f)]
      else if Type f = TypeFile then [''  file: '' @ Filename f @ '' ('' @ dec (length (Payload f)) @ '' bytes)'']
      else if Type f = TypeBinary then [''  binary: '' @ dec (length (Payload f)) @ '' bytes'']
      else [])"

definition echoAck :: "Frame \<Rightarrow> Frame" where
  "echoAck f = mkFrame TypeText
     (bytes_of (''ack: received '' @ TypeName (Type f) @ '' ('' @ dec (length (Payload f)) @ '' bytes)''))"

text \<open>The handler: its log lines, and the answer, whose error it does not look at.\<close>

definition exampleHandler :: "u32 \<Rightarrow> string \<Rightarrow> Frame \<Rightarrow> string list \<times> writer \<Rightarrow> string list \<times> writer" where
  "exampleHandler mx remote f st =
     (case st of (logs, w) \<Rightarrow> (logs @ receivedLine remote f # detailLines f, snd (WriteFrame mx w (echoAck f))))"

text \<open>Why the program ends before it is through.\<close>

datatype 'e mainErr =
    ConnectErr 'e | TargetRequired | ParseAddrErr 'e | UnknownMode string | ServeErr 'e
  | DialErr 'e | SendTextErr error | SendJSONErr error | RecvErr error

definition runServer :: "'e option \<Rightarrow> ('e + 'c) list \<Rightarrow> 'e mainErr option \<times> 'c list" where
  "runServer listenErr accepts = (case ListenAndServe listenErr accepts of (r, cs) \<Rightarrow> (map_option ServeErr r, cs))"

section \<open>Client\<close>

definition pingJSON :: bytes where
  "pingJSON = bytes_of ''{\"type\":\"ping\",\"seq\":1}''"

fun readAcks :: "u32 \<Rightarrow> nat \<Rightarrow> conn \<Rightarrow> 'e mainErr option \<times> string list \<times> conn" where
  "readAcks mx 0 c = (None, [], c)"
| "readAcks mx (Suc n) c =
     (case Recv mx c of
        (Inl e, c1) \<Rightarrow> (Some (RecvErr e), [], c1)
      | (Inr f, c1) \<Rightarrow>
          (case readAcks mx n c1 of
             (r, logs, c2) \<Rightarrow> (r, (''response: '' @ string_of (Payload f)) # logs, c2)))"

definition clientSession :: "u32 \<Rightarrow> string \<Rightarrow> conn \<Rightarrow> 'e mainErr option \<times> string list \<times> conn" where
  "clientSession mx msg c =
     (case SendText mx (cwr c) msg of
        (Some e, w1) \<Rightarrow> (Some (SendTextErr e), [], c\<lparr>cwr := w1\<rparr>)
      | (None, w1) \<Rightarrow>
          (case SendJSON mx w1 pingJSON of
             (Some e, w2) \<Rightarrow> (Some (SendJSONErr e), [''sent text: '' @ msg], c\<lparr>cwr := w2\<rparr>)
           | (None, w2) \<Rightarrow>
               (case readAcks mx 2 (c\<lparr>cwr := w2\<rparr>) of
                  (r, logs, c3) \<Rightarrow> (r, [''sent text: '' @ msg, ''sent json''] @ logs, c3))))"

text \<open>The client closes its connection when it returns; \<^verbatim>\<open>log.Fatalf\<close> ends the process before that.\<close>

definition runClient ::
  "u32 \<Rightarrow> ('a \<Rightarrow> nat \<Rightarrow> 'e + conn) \<Rightarrow> (conn \<Rightarrow> 'e option \<times> conn) \<Rightarrow> nat \<Rightarrow> ('a \<Rightarrow> string) \<Rightarrow> 'a \<Rightarrow> string \<Rightarrow>
   'e mainErr option \<times> string list \<times> conn option" where
  "runClient mx dialAddr closeConn port show_addr addr msg =
     (case Dial dialAddr port addr of
        Inl e \<Rightarrow> (Some (DialErr e), [], None)
      | Inr c \<Rightarrow>
          (case clientSession mx msg c of
             (r, logs, c1) \<Rightarrow>
               (r, (''connected to '' @ show_addr addr @ '':1001'') # logs,
                Some (if r = None then snd (Client_Close closeConn c1) else c1))))"

section \<open>Main\<close>

definition exampleMain ::
  "(string \<Rightarrow> 'e + 'd) \<Rightarrow> (string \<Rightarrow> 'e + 'a) \<Rightarrow> ('d \<Rightarrow> 'e mainErr option) \<Rightarrow> ('d \<Rightarrow> 'a \<Rightarrow> string \<Rightarrow> 'e mainErr option) \<Rightarrow>
   string \<Rightarrow> string \<Rightarrow> string \<Rightarrow> string \<Rightarrow> 'e mainErr option" where
  "exampleMain driver_Connect parseAddr server client socketPath mode target msg =
     (case driver_Connect socketPath of
        Inl e \<Rightarrow> Some (ConnectErr e)
      | Inr d \<Rightarrow>
          if mode = ''server'' then server d
          else if mode = ''client'' then
            (if target = [] then Some TargetRequired
             else case parseAddr target of Inl e \<Rightarrow> Some (ParseAddrErr e) | Inr addr \<Rightarrow> client d addr msg)
          else Some (UnknownMode mode))"

section \<open>A session\<close>

lemma fits_writes: "fits mx f \<Longrightarrow> wlimit w = None \<Longrightarrow> \<exists>w'. WriteFrame mx w f = (None, w') \<and> wlimit w' = None"
  by (erule fits_payload) (rule WriteFrame_open)

text \<open>Frames whose answers fit are answered one by one, in order.\<close>

lemma handler_answers:
  assumes "list_all (\<lambda>f. fits mx (echoAck f)) fs" and "wlimit w = None"
  shows "\<exists>w'. fold (exampleHandler mx remote) fs (logs, w) =
      (logs @ concat (map (\<lambda>f. receivedLine remote f # detailLines f) fs), w') \<and>
    sent w' = sent w @ concat (map (frameBytes mx \<circ> echoAck) fs)"
  using assms
proof (induction fs arbitrary: logs w)
  case (Cons f fs)
  obtain w1 where w1: "WriteFrame mx w (echoAck f) = (None, w1)" "wlimit w1 = None"
    using fits_writes [OF _ Cons.prems(2)] Cons.prems(1) by force
  then show ?case
    using Cons.IH [of w1 "logs @ receivedLine remote f # detailLines f"] Cons.prems(1) WriteFrame_sent [OF w1(1)]
    by (auto simp: exampleHandler_def)
qed simp

lemma readAcks_answers:
  assumes "list_all (fits mx) fs"
  shows "readAcks mx (length fs) \<lparr>crd = \<lparr>rbuf = concat (map (frameBytes mx) fs) @ rest, rend = e\<rparr>, cwr = w\<rparr> =
    (None, map (\<lambda>f. ''response: '' @ string_of (Payload f)) fs, \<lparr>crd = \<lparr>rbuf = rest, rend = e\<rparr>, cwr = w\<rparr>)"
  using assms by (induction fs) (simp_all add: Recv_def ReadFrame_frameBytes)

text \<open>
  The two halves together: the client sends its two frames, the server answers what it reads, and
  the client prints exactly the two answers that the server wrote.
\<close>

lemma example_session:
  fixes msg :: string
  defines "fs \<equiv> [mkFrame TypeText (bytes_of msg), mkFrame TypeJSON pingJSON]"
  assumes fit: "list_all (fits mx) fs" "list_all (\<lambda>f. fits mx (echoAck f)) fs"
    and w: "wlimit cw = None" "wlimit sw = None" "sent sw = []"
  shows "\<exists>logs sw' c. Server_handleConn mx (exampleHandler mx remote)
      \<lparr>rbuf = concat (map (frameBytes mx) fs), rend = EOF\<rparr> ([], sw) = (logs, sw') \<and>
    clientSession mx msg \<lparr>crd = \<lparr>rbuf = sent sw', rend = e\<rparr>, cwr = cw\<rparr> =
      (None :: 'e mainErr option, [''sent text: '' @ msg, ''sent json''] @ map (\<lambda>f. ''response: '' @ string_of (Payload (echoAck f))) fs, c) \<and>
    sent (cwr c) = sent cw @ concat (map (frameBytes mx) fs)"
proof -
  obtain logs sw' where srv: "fold (exampleHandler mx remote) fs ([], sw) = (logs, sw')"
    and ans: "sent sw' = concat (map (frameBytes mx) (map echoAck fs))"
    using handler_answers [OF fit(2) w(2), of remote "[]"] w(3) by (auto simp: comp_def)
  have "Server_handleConn mx (exampleHandler mx remote) \<lparr>rbuf = [], rend = EOF\<rparr> st = st" for st
    by (simp add: Server_handleConn.simps [of mx _ "\<lparr>rbuf = [], rend = EOF\<rparr>"] ReadFrame_def ReadFull_def)
  then have 1: "Server_handleConn mx (exampleHandler mx remote) \<lparr>rbuf = concat (map (frameBytes mx) fs), rend = EOF\<rparr> ([], sw) = (logs, sw')"
    using serve_frames [OF fit(1), of "exampleHandler mx remote" "[]" EOF "([], sw)"] srv by simp
  obtain w1 where w1: "WriteFrame mx cw (fs ! 0) = (None, w1)" "wlimit w1 = None"
    using fit(1) fits_writes [OF _ w(1), of mx "fs ! 0"] by (auto simp: fs_def)
  obtain w2 where w2: "WriteFrame mx w1 (fs ! 1) = (None, w2)"
    using fit(1) fits_writes [OF _ w1(2), of mx "fs ! 1"] by (auto simp: fs_def)
  have "sent w2 = sent cw @ concat (map (frameBytes mx) fs)"
    using WriteFrame_sent [OF w1(1)] WriteFrame_sent [OF w2] by (simp add: fs_def)
  moreover have "readAcks mx 2 \<lparr>crd = \<lparr>rbuf = sent sw', rend = e\<rparr>, cwr = w2\<rparr> =
      (None :: 'e mainErr option, map (\<lambda>f. ''response: '' @ string_of (Payload (echoAck f))) fs, \<lparr>crd = \<lparr>rbuf = [], rend = e\<rparr>, cwr = w2\<rparr>)"
    using readAcks_answers [of mx "map echoAck fs" "[]" e w2] fit(2) by (simp add: ans fs_def list_all_iff comp_def numeral_2_eq_2)
  ultimately show ?thesis
    using 1 w1(1) w2 by (simp add: clientSession_def SendText_def SendJSON_def fs_def)
qed

end
