(* ===== verification/Sha256.thy ===== *)
theory Sha256
  imports Prelude
begin

text \<open>
  The hash of Go's \<^verbatim>\<open>crypto/sha256\<close>, which both the delivery keys and the stream checksums
  use.  A running hash is the list of the bytes written so far; \<open>sha256\<close> is its sum.
\<close>

unbundle bit_operations_syntax

definition K256 :: "u32 list" where
  "K256 =
     [0x428A2F98, 0x71374491, 0xB5C0FBCF, 0xE9B5DBA5, 0x3956C25B, 0x59F111F1,
      0x923F82A4, 0xAB1C5ED5, 0xD807AA98, 0x12835B01, 0x243185BE, 0x550C7DC3,
      0x72BE5D74, 0x80DEB1FE, 0x9BDC06A7, 0xC19BF174, 0xE49B69C1, 0xEFBE4786,
      0x0FC19DC6, 0x240CA1CC, 0x2DE92C6F, 0x4A7484AA, 0x5CB0A9DC, 0x76F988DA,
      0x983E5152, 0xA831C66D, 0xB00327C8, 0xBF597FC7, 0xC6E00BF3, 0xD5A79147,
      0x06CA6351, 0x14292967, 0x27B70A85, 0x2E1B2138, 0x4D2C6DFC, 0x53380D13,
      0x650A7354, 0x766A0ABB, 0x81C2C92E, 0x92722C85, 0xA2BFE8A1, 0xA81A664B,
      0xC24B8B70, 0xC76C51A3, 0xD192E819, 0xD6990624, 0xF40E3585, 0x106AA070,
      0x19A4C116, 0x1E376C08, 0x2748774C, 0x34B0BCB5, 0x391C0CB3, 0x4ED8AA4A,
      0x5B9CCA4F, 0x682E6FF3, 0x748F82EE, 0x78A5636F, 0x84C87814, 0x8CC70208,
      0x90BEFFFA, 0xA4506CEB, 0xBEF9A3F7, 0xC67178F2]"

definition H256 :: "u32 list" where
  "H256 =
     [0x6A09E667, 0xBB67AE85, 0x3C6EF372, 0xA54FF53A, 0x510E527F, 0x9B05688C,
      0x1F83D9AB, 0x5BE0CD19]"

text \<open>\<^verbatim>\<open>bits.RotateLeft32\<close> by a negative count.\<close>

definition rotr :: "nat \<Rightarrow> u32 \<Rightarrow> u32" where
  "rotr n x = drop_bit n x OR push_bit (32 - n) x"

definition sha_pad :: "bytes \<Rightarrow> bytes" where
  "sha_pad m =
     m @ [0x80] @ replicate ((119 - length m mod 64) mod 64) 0 @ PutUint64 (word_of_nat (8 * length m))"

fun sha_words :: "bytes \<Rightarrow> u32 list" where
  "sha_words (a # b # c # d # bs) = Uint32 [a, b, c, d] # sha_words bs"
| "sha_words _ = []"

text \<open>The message schedule, most recent word first.\<close>

fun sha_expand :: "nat \<Rightarrow> u32 list \<Rightarrow> u32 list" where
  "sha_expand 0 w = w"
| "sha_expand (Suc n) w =
     (let w2 = w ! 1; w15 = w ! 14;
          s0 = rotr 7 w15 XOR rotr 18 w15 XOR drop_bit 3 w15;
          s1 = rotr 17 w2 XOR rotr 19 w2 XOR drop_bit 10 w2
      in sha_expand n ((w ! 15 + s0 + w ! 6 + s1) # w))"

definition sha_round :: "u32 \<times> u32 \<Rightarrow> u32 list \<Rightarrow> u32 list" where
  "sha_round kw v =
     (case v of
        [a, b, c, d, e, f, g, h] \<Rightarrow>
          let s1 = rotr 6 e XOR rotr 11 e XOR rotr 25 e;
              ch = (e AND f) XOR (NOT e AND g);
              t1 = h + s1 + ch + fst kw + snd kw;
              s0 = rotr 2 a XOR rotr 13 a XOR rotr 22 a;
              maj = (a AND b) XOR (a AND c) XOR (b AND c)
          in [t1 + s0 + maj, a, b, c, d + t1, e, f, g]
      | _ \<Rightarrow> v)"

definition sha_block :: "bytes \<Rightarrow> u32 list \<Rightarrow> u32 list" where
  "sha_block blk h =
     (let w = rev (sha_expand 48 (rev (sha_words blk)))
      in map2 (+) h (fold sha_round (zip K256 w) h))"

fun sha_blocks :: "nat \<Rightarrow> bytes \<Rightarrow> u32 list \<Rightarrow> u32 list" where
  "sha_blocks 0 bs h = h"
| "sha_blocks (Suc n) bs h = sha_blocks n (drop 64 bs) (sha_block (take 64 bs) h)"

definition sha256 :: "bytes \<Rightarrow> bytes" where
  "sha256 m =
     (let p = sha_pad m in concat (map PutUint32 (sha_blocks (length p div 64) p H256)))"

lemma length_sha_pad: "64 dvd length (sha_pad m)"
proof -
  let ?r = "length m mod 64"
  have "((119 - ?r) mod 64 + (9 + ?r)) mod 64 = ((119 - ?r) + (9 + ?r)) mod 64"
    by (rule mod_add_left_eq)
  also have "(119 - ?r) + (9 + ?r) = 64 * 2"
    using mod_less_divisor [of 64 "length m"] by linarith
  finally have "((119 - ?r) mod 64 + 9 + ?r) mod 64 = 0" by (simp add: add.assoc)
  then have "((119 - ?r) mod 64 + 9 + length m) mod 64 = 0" by (simp add: mod_add_right_eq)
  then show ?thesis
    by (simp add: sha_pad_def codec_simps mod_eq_0_iff_dvd add.commute add.left_commute)
qed

lemma length_sha_round: "length v = 8 \<Longrightarrow> length (sha_round kw v) = 8"
  by (auto simp: sha_round_def Let_def numeral_eq_Suc length_Suc_conv)

lemma length_sha_rounds: "length v = 8 \<Longrightarrow> length (fold sha_round kws v) = 8"
  by (induction kws arbitrary: v) (simp_all add: length_sha_round)

lemma length_sha_blocks: "length h = 8 \<Longrightarrow> length (sha_blocks n bs h) = 8"
  by (induction n arbitrary: bs h) (simp_all add: sha_block_def Let_def length_sha_rounds)

lemma length_sha256 [simp]: "length (sha256 m) = 32"
proof -
  have "length (concat (map PutUint32 ws)) = 4 * length ws" for ws
    by (induction ws) (simp_all add: codec_simps)
  moreover have "length H256 = 8" by (simp add: H256_def)
  ultimately show ?thesis by (simp add: sha256_def Let_def length_sha_blocks)
qed

end
