(* ===== verification/StreamCodec.thy ===== *)
theory StreamCodec
  imports Frames Sha256
begin

text \<open>
  The control frames of the chunked file transfer, first part of \<^verbatim>\<open>filestream.go\<close>: their kinds,
  the limits, and the encoder and decoder of each body.  A transfer identifier is a list of
  sixteen bytes, a hash one of thirty-two.
\<close>

section \<open>Kinds and limits\<close>

definition streamKindInit :: byte where [simp]: "streamKindInit = 0x01"
definition streamKindChunk :: byte where [simp]: "streamKindChunk = 0x02"
definition streamKindAck :: byte where [simp]: "streamKindAck = 0x03"
definition streamKindDone :: byte where [simp]: "streamKindDone = 0x04"
definition streamKindInitAck :: byte where [simp]: "streamKindInitAck = 0x05"
definition streamKindComplete :: byte where [simp]: "streamKindComplete = 0x06"
definition streamKindAbort :: byte where [simp]: "streamKindAbort = 0x07"

definition StreamChunkSize :: nat where "StreamChunkSize = 48 * 1024"
definition streamWindow :: nat where "streamWindow = 16"
definition streamNegTimeout :: int where "streamNegTimeout = 5 * 1000000000"
definition streamStepTimeout :: int where "streamStepTimeout = 60 * 1000000000"
definition transferIDLen :: nat where [simp]: "transferIDLen = 16"

section \<open>Encoders and decoders\<close>

definition encodeStreamFrame :: "byte \<Rightarrow> bytes \<Rightarrow> bytes \<Rightarrow> Frame" where
  "encodeStreamFrame kind i body = mkFrame TypeFileStream (kind # i @ body)"

text \<open>\<open>None\<close> when the frame is nil, of another type or too short.\<close>

definition decodeStreamFrame :: "Frame option \<Rightarrow> (byte \<times> bytes \<times> bytes) option" where
  "decodeStreamFrame f =
     (case f of
        None \<Rightarrow> None
      | Some g \<Rightarrow>
          if Type g \<noteq> TypeFileStream \<or> length (Payload g) < 1 + transferIDLen then None
          else Some (Payload g ! 0, slice 1 (1 + transferIDLen) (Payload g), drop (1 + transferIDLen) (Payload g)))"

definition initBody :: "u64 \<Rightarrow> bytes \<Rightarrow> u32 \<Rightarrow> string \<Rightarrow> bytes" where
  "initBody sz hash chunkSize name =
     (let nb = (if length name > maxFilenameLen then take maxFilenameLen (bytes_of name) else bytes_of name)
      in PutUint64 sz @ hash @ PutUint32 chunkSize @ PutUint16 (word_of_nat (length nb)) @ nb)"

definition encodeInit :: "bytes \<Rightarrow> u64 \<Rightarrow> bytes \<Rightarrow> u32 \<Rightarrow> string \<Rightarrow> Frame" where
  "encodeInit i sz hash chunkSize name = encodeStreamFrame streamKindInit i (initBody sz hash chunkSize name)"

definition decodeInit :: "bytes \<Rightarrow> (u64 \<times> bytes \<times> u32 \<times> string) option" where
  "decodeInit body =
     (if length body < 46 then None
      else let sz = Uint64 (slice 0 8 body); hash = slice 8 40 body; chunkSize = Uint32 (slice 40 44 body);
               nameLen = unat (Uint16 (slice 44 46 body))
           in if 46 + nameLen \<noteq> length body then None
              else Some (sz, hash, chunkSize, string_of (slice 46 (46 + nameLen) body)))"

definition encodeOffset :: "byte \<Rightarrow> bytes \<Rightarrow> u64 \<Rightarrow> Frame" where
  "encodeOffset kind i off = encodeStreamFrame kind i (PutUint64 off)"

definition decodeOffset :: "bytes \<Rightarrow> u64 option" where
  "decodeOffset body = (if length body < 8 then None else Some (Uint64 (slice 0 8 body)))"

definition chunkBody :: "u64 \<Rightarrow> bytes \<Rightarrow> bytes" where
  "chunkBody off d = PutUint64 off @ d"

definition encodeChunk :: "bytes \<Rightarrow> u64 \<Rightarrow> bytes \<Rightarrow> Frame" where
  "encodeChunk i off d = encodeStreamFrame streamKindChunk i (chunkBody off d)"

definition decodeChunk :: "bytes \<Rightarrow> (u64 \<times> bytes) option" where
  "decodeChunk body = (if length body < 8 then None else Some (Uint64 (slice 0 8 body), drop 8 body))"

definition completeBody :: "bool \<Rightarrow> string \<Rightarrow> bytes" where
  "completeBody ok msg = (if ok then 0 else 1) # bytes_of msg"

definition encodeComplete :: "bytes \<Rightarrow> bool \<Rightarrow> string \<Rightarrow> Frame" where
  "encodeComplete i ok msg = encodeStreamFrame streamKindComplete i (completeBody ok msg)"

definition decodeComplete :: "bytes \<Rightarrow> bool \<times> string" where
  "decodeComplete body =
     (case body of [] \<Rightarrow> (False, ''malformed complete'') | b # m \<Rightarrow> (b = 0, string_of m))"

section \<open>Round trips\<close>

lemma decode_stream:
  "length i = 16 \<Longrightarrow> decodeStreamFrame (Some (encodeStreamFrame kind i body)) = Some (kind, i, body)"
  by (simp add: decodeStreamFrame_def encodeStreamFrame_def)

lemma decode_stream_sound:
  assumes "decodeStreamFrame (Some f) = Some (kind, i, body)"
  shows "length i = 16 \<and> Payload f = kind # i @ body"
proof -
  obtain p ps where p: "Payload f = p # ps" and l: "16 \<le> length ps"
    using assms by (cases "Payload f") (auto simp: decodeStreamFrame_def split: if_splits)
  with assms show ?thesis by (auto simp: decodeStreamFrame_def split: if_splits)
qed

text \<open>The contract of one kind of control message: its body decodes to what was encoded.\<close>

locale control_body =
  fixes enc :: "'m \<Rightarrow> bytes"
    and dec :: "bytes \<Rightarrow> 'm option"
    and wf :: "'m \<Rightarrow> bool"
  assumes dec_enc: "wf m \<Longrightarrow> dec (enc m) = Some m"
begin

lemma via_frame:
  "wf m \<Longrightarrow> length i = 16 \<Longrightarrow>
     map_option (\<lambda>(k, j, body). (k, j, dec body)) (decodeStreamFrame (Some (encodeStreamFrame kind i (enc m)))) =
     Some (kind, i, Some m)"
  by (simp add: decode_stream dec_enc)

lemma enc_inject: "wf m \<Longrightarrow> wf n \<Longrightarrow> enc m = enc n \<Longrightarrow> m = n"
  by (metis dec_enc option.inject)

end

lemma decodeInit_initBody:
  assumes h: "length hash = 32" and n: "length name \<le> 255"
  shows "decodeInit (initBody sz hash cs name) = Some (sz, hash, cs, name)"
proof -
  let ?n = "PutUint16 (word_of_nat (length name)) @ bytes_of name"
  have b: "initBody sz hash cs name = PutUint64 sz @ hash @ PutUint32 cs @ ?n"
    using n by (simp add: initBody_def)
  have u: "unat (word_of_nat (length name) :: u16) = length name" using n by (simp add: unat_of_nat)
  have d8: "drop 8 (initBody sz hash cs name) = hash @ PutUint32 cs @ ?n"
    by (simp add: b codec_simps)
  let ?b = "initBody sz hash cs name"
  have d40: "drop 40 ?b = PutUint32 cs @ ?n"
  proof -
    have "drop 40 ?b = drop 32 (drop 8 ?b)" by simp
    then show ?thesis using h by (simp add: d8)
  qed
  have d44: "drop 44 ?b = ?n"
  proof -
    have "drop 44 ?b = drop 4 (drop 40 ?b)" by simp
    then show ?thesis by (simp add: d40 codec_simps)
  qed
  have d46: "drop 46 ?b = bytes_of name"
  proof -
    have "drop 46 ?b = drop 2 (drop 44 ?b)" by simp
    then show ?thesis by (simp add: d44 codec_simps)
  qed
  have "length ?b = 46 + length name" using h by (simp add: b codec_simps)
  moreover have "take 8 ?b = PutUint64 sz" by (simp add: b codec_simps)
  ultimately show ?thesis
    using h by (simp add: decodeInit_def d8 d40 d44 d46 codec_simps u)
qed

interpretation init_body: control_body
  "\<lambda>(sz, hash, cs, name). initBody sz hash cs name" decodeInit
  "\<lambda>(sz, hash, cs, name). length hash = 32 \<and> length name \<le> 255"
  by unfold_locales (auto simp: decodeInit_initBody)

interpretation offset_body: control_body PutUint64 decodeOffset "\<lambda>_. True"
  by unfold_locales (simp add: decodeOffset_def codec_simps)

interpretation chunk_body: control_body "\<lambda>(off, d). chunkBody off d" decodeChunk "\<lambda>_. True"
  by unfold_locales (auto simp: decodeChunk_def chunkBody_def codec_simps)

interpretation complete_body: control_body "\<lambda>(ok, m). completeBody ok m" "\<lambda>b. Some (decodeComplete b)" "\<lambda>_. True"
  by unfold_locales (auto simp: decodeComplete_def completeBody_def)

section \<open>Properties\<close>

lemma initBody_cut: "initBody sz hash cs name = initBody sz hash cs (take maxFilenameLen name)"
  by (simp add: initBody_def take_map)

text \<open>
  C32. Every control frame of a transfer survives the wire.  Written with \<^verbatim>\<open>WriteFrame\<close> and read
  back with \<^verbatim>\<open>ReadFrame\<close>, an INIT, an offset (INIT_ACK or ACK), a CHUNK, a DONE, a COMPLETE and an
  ABORT come back with their kind, their transfer identifier and every field of their body, except
  that an INIT carries at most the first 255 bytes of the name.
\<close>

theorem stream_codec:
  assumes "length i = 16" and "length hash = 32"
    and "frame \<in> {encodeInit i sz hash cs name, encodeOffset kind i off, encodeChunk i off d,
      encodeStreamFrame streamKindDone i [], encodeComplete i ok msg, encodeStreamFrame streamKindAbort i (bytes_of msg)}"
    and "length (Payload frame) \<le> unat mx"
  shows "ReadFrame mx \<lparr>rbuf = frameBytes mx frame @ rest, rend = e\<rparr> = (Inr frame, \<lparr>rbuf = rest, rend = e\<rparr>) \<and>
    decodeStreamFrame (Some (encodeInit i sz hash cs name)) = Some (streamKindInit, i, initBody sz hash cs name) \<and>
    decodeInit (initBody sz hash cs name) = Some (sz, hash, cs, take 255 name) \<and>
    decodeStreamFrame (Some (encodeOffset kind i off)) = Some (kind, i, PutUint64 off) \<and>
    decodeOffset (PutUint64 off) = Some off \<and>
    decodeStreamFrame (Some (encodeChunk i off d)) = Some (streamKindChunk, i, chunkBody off d) \<and>
    decodeChunk (chunkBody off d) = Some (off, d) \<and>
    decodeStreamFrame (Some (encodeStreamFrame streamKindDone i [])) = Some (streamKindDone, i, []) \<and>
    decodeStreamFrame (Some (encodeComplete i ok msg)) = Some (streamKindComplete, i, completeBody ok msg) \<and>
    decodeComplete (completeBody ok msg) = (ok, msg) \<and>
    map_option (\<lambda>(k, j, body). (k, j, string_of body)) (decodeStreamFrame (Some (encodeStreamFrame streamKindAbort i (bytes_of msg)))) =
      Some (streamKindAbort, i, msg)"
proof -
  have "fits mx frame"
    using assms(3,4) by (auto simp: fits_def wf_frame_def wf_body_def untagged_def framePayload_def wirePayload_def
        encodeInit_def encodeOffset_def encodeChunk_def encodeComplete_def encodeStreamFrame_def)
  moreover have "decodeInit (initBody sz hash cs name) = Some (sz, hash, cs, take 255 name)"
    using decodeInit_initBody [OF assms(2), of "take 255 name"] initBody_cut [of sz hash cs name] by (simp add: maxFilenameLen_def)
  ultimately show ?thesis
    using assms(1,2) ReadFrame_frameBytes [of mx frame rest e]
      offset_body.dec_enc [of off] chunk_body.dec_enc [of "(off, d)"] complete_body.dec_enc [of "(ok, msg)"]
    by (simp add: decode_stream encodeInit_def encodeOffset_def encodeChunk_def encodeComplete_def)
qed

theorem stream_codec_witness:
  "ReadFrame 65536 \<lparr>rbuf = frameBytes 65536 (encodeChunk (replicate 16 7) 3 [1, 2]), rend = EOF\<rparr> =
     (Inr (encodeChunk (replicate 16 7) 3 [1, 2]), \<lparr>rbuf = [], rend = EOF\<rparr>)"
  using stream_codec [of "replicate 16 7" "replicate 32 0" "encodeChunk (replicate 16 7) 3 [1, 2]"
      0 0 "[]" 0 3 "[1, 2]" True "[]" 65536 "[]" EOF]
  by (simp add: encodeChunk_def encodeStreamFrame_def chunkBody_def codec_simps)

end
