(* ===== verification/Fs.thy ===== *)
theory Fs
  imports Gostd
begin

text \<open>
  The file system calls the package makes (\<^verbatim>\<open>os\<close>, \<^verbatim>\<open>filepath.WalkDir\<close>).  A file is an inode
  in a store, so that an open handle keeps its file across a rename or a removal of the name;
  names map clean paths to inodes.  Every call can fail: the outcome of the \<open>n\<close>-th call of a run
  is \<open>opFault n\<close>, a function of the environment, and a failing write leaves the number of bytes
  that \<open>shortWrite n\<close> says.
\<close>

section \<open>State\<close>

datatype oscode = ENOSPC | EDQUOT | ENOENT | EOTHER

text \<open>An error of the operating system, with the text its \<^verbatim>\<open>Error\<close> method returns.\<close>

datatype oserr = OsErr oscode string

record fnode =
  fdata :: bytes
  fmod :: int

record fsys =
  names :: "(string \<times> nat) list"
  dirs :: "string list"
  store :: "fnode list"
  fclock :: int
  ops :: nat
  opFault :: "nat \<Rightarrow> string \<Rightarrow> oserr option"
  shortWrite :: "nat \<Rightarrow> nat"

definition lookup :: "fsys \<Rightarrow> string \<Rightarrow> nat option" where
  "lookup fs p = map_of (names fs) p"

definition fsize :: "fsys \<Rightarrow> nat \<Rightarrow> int" where
  "fsize fs i = int (length (fdata (store fs ! i)))"

text \<open>Well-formed: names are unique and refer to existing inodes.\<close>

definition wf_fs :: "fsys \<Rightarrow> bool" where
  "wf_fs fs \<longleftrightarrow> distinct (map fst (names fs)) \<and> (\<forall>(p, i) \<in> set (names fs). i < length (store fs))"

text \<open>No call fails.\<close>

definition no_faults :: "fsys \<Rightarrow> bool" where
  "no_faults fs \<longleftrightarrow> (\<forall>n p. opFault fs n p = None)"

section \<open>Calls\<close>

definition sys :: "string \<Rightarrow> fsys \<Rightarrow> oserr option \<times> fsys" where
  "sys p fs = (opFault fs (ops fs) p, fs\<lparr>ops := Suc (ops fs)\<rparr>)"

definition enoent :: "string \<Rightarrow> oserr" where
  "enoent p = OsErr ENOENT (p @ '': no such file or directory'')"

definition os_MkdirAll :: "string \<Rightarrow> fsys \<Rightarrow> oserr option \<times> fsys" where
  "os_MkdirAll p fs =
     (case sys p fs of
        (Some e, fs') \<Rightarrow> (Some e, fs')
      | (None, fs') \<Rightarrow> (None, fs'\<lparr>dirs := List.insert (filepath_Clean p) (dirs fs')\<rparr>))"

text \<open>
  A path \<open>p\<close> is an entry of the directory \<open>d\<close> when joining \<open>d\<close> with the last element of \<open>p\<close>
  gives \<open>p\<close>.  A listing gives names; their order does not matter to the callers.
\<close>

definition entry_of :: "string \<Rightarrow> string \<Rightarrow> bool" where
  "entry_of d p \<longleftrightarrow> filepath_Join [d, filepath_Base p] = p"

definition os_ReadDir :: "string \<Rightarrow> fsys \<Rightarrow> (oserr + (string \<times> bool) list) \<times> fsys" where
  "os_ReadDir d fs =
     (case sys d fs of
        (Some e, fs') \<Rightarrow> (Inl e, fs')
      | (None, fs') \<Rightarrow>
          (Inr (map (\<lambda>(p, i). (filepath_Base p, False)) (filter (\<lambda>(p, i). entry_of d p) (names fs')) @
                map (\<lambda>p. (filepath_Base p, True)) (filter (entry_of d) (dirs fs'))), fs'))"

definition os_Stat :: "string \<Rightarrow> fsys \<Rightarrow> (oserr + (int \<times> int)) \<times> fsys" where
  "os_Stat p fs =
     (case sys p fs of
        (Some e, fs') \<Rightarrow> (Inl e, fs')
      | (None, fs') \<Rightarrow>
          (case lookup fs' p of
             None \<Rightarrow> (Inl (enoent p), fs')
           | Some i \<Rightarrow> (Inr (fmod (store fs' ! i), fsize fs' i), fs')))"

definition os_Remove :: "string \<Rightarrow> fsys \<Rightarrow> oserr option \<times> fsys" where
  "os_Remove p fs =
     (case sys p fs of
        (Some e, fs') \<Rightarrow> (Some e, fs')
      | (None, fs') \<Rightarrow>
          (case lookup fs' p of
             None \<Rightarrow> (Some (enoent p), fs')
           | Some i \<Rightarrow> (None, fs'\<lparr>names := filter (\<lambda>(q, _). q \<noteq> p) (names fs')\<rparr>)))"

definition os_Rename :: "string \<Rightarrow> string \<Rightarrow> fsys \<Rightarrow> oserr option \<times> fsys" where
  "os_Rename p q fs =
     (case sys p fs of
        (Some e, fs') \<Rightarrow> (Some e, fs')
      | (None, fs') \<Rightarrow>
          (case lookup fs' p of
             None \<Rightarrow> (Some (enoent p), fs')
           | Some i \<Rightarrow>
               (None, fs'\<lparr>names := (q, i) # filter (\<lambda>(r, _). r \<noteq> p \<and> r \<noteq> q) (names fs')\<rparr>)))"

text \<open>\<^verbatim>\<open>O_RDWR|O_CREATE\<close>: the file at a path, created empty when there is none.\<close>

definition os_OpenCreate :: "string \<Rightarrow> fsys \<Rightarrow> (oserr + nat) \<times> fsys" where
  "os_OpenCreate p fs =
     (case sys p fs of
        (Some e, fs') \<Rightarrow> (Inl e, fs')
      | (None, fs') \<Rightarrow>
          (case lookup fs' p of
             Some i \<Rightarrow> (Inr i, fs')
           | None \<Rightarrow>
               (Inr (length (store fs')),
                fs'\<lparr>store := store fs' @ [\<lparr>fdata = [], fmod = fclock fs'\<rparr>],
                    names := (p, length (store fs')) # names fs'\<rparr>)))"

definition set_data :: "nat \<Rightarrow> bytes \<Rightarrow> fsys \<Rightarrow> fsys" where
  "set_data i bs fs = fs\<lparr>store := (store fs)[i := \<lparr>fdata = bs, fmod = fclock fs\<rparr>]\<rparr>"

text \<open>Bytes written at an offset; a gap before it is filled with zeros.\<close>

definition overwrite :: "bytes \<Rightarrow> nat \<Rightarrow> bytes \<Rightarrow> bytes" where
  "overwrite old off new =
     (if new = [] then old
      else take off old @ replicate (off - length old) 0 @ new @ drop (off + length new) old)"

definition file_WriteAt :: "string \<Rightarrow> nat \<Rightarrow> bytes \<Rightarrow> nat \<Rightarrow> fsys \<Rightarrow> oserr option \<times> fsys" where
  "file_WriteAt p i bs off fs =
     (case sys p fs of
        (Some e, fs') \<Rightarrow>
          (Some e, set_data i (overwrite (fdata (store fs' ! i)) off (take (shortWrite fs (ops fs)) bs)) fs')
      | (None, fs') \<Rightarrow> (None, set_data i (overwrite (fdata (store fs' ! i)) off bs) fs'))"

definition file_Truncate0 :: "nat \<Rightarrow> fsys \<Rightarrow> fsys" where
  "file_Truncate0 i fs = set_data i [] fs"

text \<open>
  \<^verbatim>\<open>os.WriteFile\<close>: open with truncation, write, close.  When the write fails, the file stays
  with the bytes written before the failure.
\<close>

definition os_WriteFile :: "string \<Rightarrow> bytes \<Rightarrow> fsys \<Rightarrow> oserr option \<times> fsys" where
  "os_WriteFile p bs fs =
     (case os_OpenCreate p fs of
        (Inl e, fs1) \<Rightarrow> (Some e, fs1)
      | (Inr i, fs1) \<Rightarrow> file_WriteAt p i bs 0 (file_Truncate0 i fs1))"

text \<open>
  \<^verbatim>\<open>filepath.WalkDir\<close> over the regular files below a directory, with the size of each; an entry
  whose information cannot be read is skipped.
\<close>

definition below :: "string \<Rightarrow> string \<Rightarrow> bool" where
  "below d p \<longleftrightarrow>
     (let ds = clean_elems d; ps = clean_elems p; k = length ps - length ds
      in d \<noteq> [] \<and> p \<noteq> [] \<and> (hd d = CHR ''/'' \<longleftrightarrow> hd p = CHR ''/'') \<and>
         length ds < length ps \<and> drop k ps = ds \<and> ''..'' \<notin> set (take k ps))"

fun walk_sizes :: "string list \<Rightarrow> fsys \<Rightarrow> (string \<times> int) list \<times> fsys" where
  "walk_sizes [] fs = ([], fs)"
| "walk_sizes (p # ps) fs =
     (case os_Stat p fs of
        (Inl _, fs1) \<Rightarrow> walk_sizes ps fs1
      | (Inr (_, n), fs1) \<Rightarrow> (case walk_sizes ps fs1 of (r, fs2) \<Rightarrow> ((p, n) # r, fs2)))"

definition WalkDir :: "string \<Rightarrow> fsys \<Rightarrow> (string \<times> int) list \<times> fsys" where
  "WalkDir d fs =
     (case sys d fs of
        (Some _, fs1) \<Rightarrow> ([], fs1)
      | (None, fs1) \<Rightarrow> walk_sizes (filter (below d) (map fst (names fs1))) fs1)"

section \<open>Facts about the calls\<close>

text \<open>The part of the state that only the clock and the faults of the environment can touch.\<close>

lemma sys_simps [simp]:
  "names (snd (sys p fs)) = names fs" "store (snd (sys p fs)) = store fs" "dirs (snd (sys p fs)) = dirs fs"
  "fclock (snd (sys p fs)) = fclock fs" "opFault (snd (sys p fs)) = opFault fs"
  "lookup (snd (sys p fs)) = lookup fs" "wf_fs (snd (sys p fs)) = wf_fs fs"
  by (simp_all add: sys_def lookup_def wf_fs_def fun_eq_iff)

definition same_files :: "fsys \<Rightarrow> fsys \<Rightarrow> bool" where
  "same_files a b \<longleftrightarrow> names a = names b \<and> store a = store b \<and> dirs a = dirs b \<and> fclock a = fclock b \<and>
     opFault a = opFault b"

lemma same_files_refl [simp]: "same_files a a"
  by (simp add: same_files_def)

lemma same_files_trans: "same_files a b \<Longrightarrow> same_files b c \<Longrightarrow> same_files a c"
  by (simp add: same_files_def)

lemma ReadDir_same: "same_files fs (snd (os_ReadDir d fs))"
  by (auto simp: os_ReadDir_def sys_def same_files_def split: prod.splits option.splits)

lemma Stat_same: "same_files fs (snd (os_Stat p fs))"
  by (auto simp: os_Stat_def sys_def same_files_def split: prod.splits option.splits)

lemma walk_same: "same_files fs (snd (walk_sizes ps fs))"
proof (induction ps arbitrary: fs)
  case (Cons p ps)
  have "same_files fs (snd (os_Stat p fs))" by (rule Stat_same)
  then show ?case
    using Cons.IH [of "snd (os_Stat p fs)"] same_files_trans
    by (cases "os_Stat p fs") (auto split: sum.splits prod.splits intro: same_files_trans)
qed simp

lemma WalkDir_same: "same_files fs (snd (WalkDir d fs))"
proof -
  have "same_files fs (snd (sys d fs))" by (simp add: same_files_def)
  then show ?thesis
    using walk_same same_files_trans by (auto simp: WalkDir_def split: prod.splits option.splits)
qed

lemma Join_rooted:
  assumes "d \<noteq> []" and "plain_name n"
  shows "hd (filepath_Join [d, n]) = CHR ''/'' \<longleftrightarrow> hd d = CHR ''/''"
proof (cases "clean_elems d = []")
  case True
  then show ?thesis using assms by (cases n) (auto simp: Join_plain plain_name_def)
next
  case False
  then have "filepath_Clean d \<noteq> [] \<and> (hd (filepath_Clean d) = CHR ''/'' \<longleftrightarrow> hd d = CHR ''/'')"
    using assms(1) clean_body_head [of d] by (simp add: filepath_Clean_def Let_def)
  then show ?thesis using assms False by (simp add: Join_plain)
qed

lemma below_Join:
  assumes "d \<noteq> []" and "plain_name n"
  shows "below d (filepath_Join [d, n])"
  using assms Join_elems [OF assms] Join_rooted [OF assms]
  by (auto simp: below_def Let_def plain_name_def)

lemma below_deeper:
  assumes "below d e" and "plain_name n"
  shows "below d (filepath_Join [e, n])"
proof -
  have e: "e \<noteq> []" using assms(1) by (simp add: below_def Let_def)
  show ?thesis
    using assms Join_elems [OF e assms(2)] Join_rooted [OF e assms(2)]
    by (auto simp: below_def Let_def plain_name_def Suc_diff_le)
qed

end
