(* ===== verification/StreamReceiver.thy ===== *)
theory StreamReceiver
  imports StreamCodec Fs
begin

text \<open>
  The receiving side of the chunked file transfer, second part of \<^verbatim>\<open>filestream.go\<close>: claims on
  \<^verbatim>\<open>.partial\<close> files, admission, the handlers of INIT, CHUNK and DONE, and the ways a transfer
  ends.  The claims table, the file system and the table of open file handles are shared by all
  receivers and are the \<open>world\<close>, with the sequence number that the service puts into file names.
  Offsets and sizes are unsigned 64-bit numbers whose guards keep every sum and difference in
  range, so they are natural numbers here; the bytes found below a directory are an integer, which
  differs from the \<^verbatim>\<open>int64\<close> of the code only beyond \<open>2^63\<close> bytes.
\<close>

section \<open>State\<close>

record world =
  wfs :: fsys
  claims :: "int list"
  active :: "string \<rightharpoonup> nat"
  wseq :: u64
  handles :: "bool list"

abbreviation now :: "world \<Rightarrow> int" where
  "now w \<equiv> fclock (wfs w)"

text \<open>The handle of a transfer is the pair of a number, which a close makes invalid, and the inode.\<close>

record recvTransfer =
  thandle :: nat
  tfile :: nat
  tpartial :: string
  tprivate :: bool
  tclaim :: "nat option"
  tname :: string
  tsize :: nat
  thash :: bytes
  tcursor :: nat
  tpending :: "(nat \<times> bytes) list"
  tpendBytes :: nat
  tquotaBudget :: int

record streamReceiver =
  receivedDir :: string
  quotaBytes :: int
  transfers :: "(bytes \<times> recvTransfer) list"

text \<open>
  What a receiver is given: the function that makes a final name unique from the time and the
  next sequence number, which it takes, the optional hooks
  (each returns the text of its error, if any), the free space of a directory where it can be
  determined, and the random bytes of the next private names.
\<close>

record srEnv =
  nameSuffix :: "int \<Rightarrow> u64 \<Rightarrow> string \<Rightarrow> string"
  onPrepare :: "(bytes \<Rightarrow> string \<Rightarrow> string \<Rightarrow> nat \<Rightarrow> string option) option"
  onCommit :: "(bytes \<Rightarrow> string \<Rightarrow> string \<Rightarrow> nat \<Rightarrow> string option) option"
  freeDiskBytes :: "fsys \<Rightarrow> string \<Rightarrow> nat option"
  randSuffix :: "nat \<Rightarrow> string + bytes"

text \<open>
  File handles: whether the \<open>n\<close>-th handle of the process is open.  A call on a closed one returns
  \<^verbatim>\<open>os.ErrClosed\<close> and touches nothing; a second close has no effect.
\<close>

definition isOpen :: "nat \<Rightarrow> world \<Rightarrow> bool" where
  "isOpen h w \<longleftrightarrow> h < length (handles w) \<and> handles w ! h"

definition closeFile :: "nat \<Rightarrow> world \<Rightarrow> world" where
  "closeFile h w = w\<lparr>handles := (handles w)[h := False]\<rparr>"

definition openFile :: "world \<Rightarrow> nat \<times> world" where
  "openFile w = (length (handles w), w\<lparr>handles := handles w @ [True]\<rparr>)"

definition closedErr :: "string \<Rightarrow> string \<Rightarrow> oserr" where
  "closedErr op p = OsErr EOTHER (op @ '' '' @ p @ '': file already closed'')"

text \<open>A call on the handle of a transfer that has no effect on the file.\<close>

definition hsys :: "string \<Rightarrow> recvTransfer \<Rightarrow> world \<Rightarrow> oserr option \<times> fsys" where
  "hsys op t w = (if isOpen (thandle t) w then sys (tpartial t) (wfs w) else (Some (closedErr op (tpartial t)), wfs w))"

definition staleClaimAfter :: int where "staleClaimAfter = 2 * streamStepTimeout"
definition diskReserveBytes :: nat where "diskReserveBytes = 16 * 2 ^ 20"
definition maxPendingBytes :: nat where "maxPendingBytes = streamWindow * StreamChunkSize"
definition maxConcurrentTransfers :: nat where "maxConcurrentTransfers = 64"

definition newReceiver :: "string \<Rightarrow> int \<Rightarrow> streamReceiver" where
  "newReceiver dir q =
     \<lparr>receivedDir = dir, quotaBytes = if q < 0 then 0 else q, transfers = []\<rparr>"

text \<open>A Go map with its length, as an association list.\<close>

definition aput :: "'k \<Rightarrow> 'v \<Rightarrow> ('k \<times> 'v) list \<Rightarrow> ('k \<times> 'v) list" where
  "aput k v xs = (k, v) # filter (\<lambda>(j, _). j \<noteq> k) xs"

definition adel :: "'k \<Rightarrow> ('k \<times> 'v) list \<Rightarrow> ('k \<times> 'v) list" where
  "adel k xs = filter (\<lambda>(j, _). j \<noteq> k) xs"

section \<open>Claims\<close>

definition claim_live :: "world \<Rightarrow> nat \<Rightarrow> bool" where
  "claim_live w c \<longleftrightarrow> now w - claims w ! c < staleClaimAfter"

definition partialHeld :: "string \<Rightarrow> world \<Rightarrow> bool" where
  "partialHeld p w = (case active w p of None \<Rightarrow> False | Some c \<Rightarrow> claim_live w c)"

definition claimPartial :: "string \<Rightarrow> world \<Rightarrow> (nat option \<times> nat option) \<times> world" where
  "claimPartial p w =
     (if partialHeld p w then ((None, None), w)
      else ((Some (length (claims w)), active w p),
            w\<lparr>claims := claims w @ [now w], active := (active w)(p \<mapsto> length (claims w))\<rparr>))"

definition stillHolds :: "string \<Rightarrow> nat option \<Rightarrow> world \<Rightarrow> bool \<times> world" where
  "stillHolds p c w =
     (case c of
        None \<Rightarrow> (True, w)
      | Some i \<Rightarrow>
          if active w p \<noteq> Some i then (False, w) else (True, w\<lparr>claims := (claims w)[i := now w]\<rparr>))"

definition unclaimPartial :: "string \<Rightarrow> nat option \<Rightarrow> nat option \<Rightarrow> world \<Rightarrow> world" where
  "unclaimPartial p c prev w =
     (if active w p \<noteq> c then w else w\<lparr>active := (active w)(p := prev)\<rparr>)"

definition releasePartial :: "string \<Rightarrow> nat option \<Rightarrow> world \<Rightarrow> world" where
  "releasePartial p c w = unclaimPartial p c None w"

definition privatePartial :: "(string + bytes) \<Rightarrow> string \<Rightarrow> string + string" where
  "privatePartial r shared = map_sum id (\<lambda>b. shared @ ''.'' @ hex b) r"

text \<open>A removal whose outcome is ignored.\<close>

definition try_remove :: "string \<Rightarrow> world \<Rightarrow> world" where
  "try_remove p w = w\<lparr>wfs := snd (os_Remove p (wfs w))\<rparr>"

definition release :: "recvTransfer \<Rightarrow> world \<Rightarrow> world" where
  "release t w =
     (let w1 = releasePartial (tpartial t) (tclaim t) w
      in if tprivate t then try_remove (tpartial t) w1 else w1)"

section \<open>Ending a transfer\<close>

definition forget :: "bytes \<Rightarrow> streamReceiver \<Rightarrow> world \<Rightarrow> streamReceiver \<times> world" where
  "forget i sr w =
     (sr\<lparr>transfers := adel i (transfers sr)\<rparr>,
      case map_of (transfers sr) i of None \<Rightarrow> w | Some t \<Rightarrow> release t w)"

definition discard :: "bytes \<Rightarrow> streamReceiver \<Rightarrow> world \<Rightarrow> streamReceiver \<times> world" where
  "discard i sr w =
     (sr\<lparr>transfers := adel i (transfers sr)\<rparr>,
      case map_of (transfers sr) i of None \<Rightarrow> w | Some t \<Rightarrow> release t (closeFile (thandle t) w))"

definition diskFullErrors :: "oscode list" where
  "diskFullErrors = [ENOSPC, EDQUOT]"

datatype werr = TakenOver | QuotaAt nat | WriteErr nat oserr

definition isDiskFull :: "werr \<Rightarrow> bool" where
  "isDiskFull e = (case e of WriteErr _ (OsErr c _) \<Rightarrow> c \<in> set diskFullErrors | _ \<Rightarrow> False)"

definition abandonIfDiskFull :: "bytes \<Rightarrow> werr \<Rightarrow> streamReceiver \<Rightarrow> world \<Rightarrow> streamReceiver \<times> world" where
  "abandonIfDiskFull i e sr w =
     (if \<not> isDiskFull e then (sr, w)
      else (sr\<lparr>transfers := adel i (transfers sr)\<rparr>,
        case map_of (transfers sr) i of
          None \<Rightarrow> w
        | Some t \<Rightarrow>
            (case stillHolds (tpartial t) (tclaim t) (closeFile (thandle t) w) of
               (held, w1) \<Rightarrow> release t (if held then try_remove (tpartial t) w1 else w1))))"

fun close_all :: "(bytes \<times> recvTransfer) list \<Rightarrow> world \<Rightarrow> world" where
  "close_all [] w = w"
| "close_all ((_, t) # ts) w = close_all ts (release t (closeFile (thandle t) w))"

definition Close :: "streamReceiver \<Rightarrow> world \<Rightarrow> streamReceiver \<times> world" where
  "Close sr w = (sr\<lparr>transfers := []\<rparr>, close_all (transfers sr) w)"

section \<open>Admission\<close>

definition sanitizeBase :: "string \<Rightarrow> string" where
  "sanitizeBase name =
     (let b = filepath_Base name in if b = ''.'' \<or> b = ''/'' \<or> b = [] then ''received.bin'' else b)"

definition filepath_Dir :: "string \<Rightarrow> string" where
  "filepath_Dir p = filepath_Clean (rev (dropWhile (\<lambda>c. c \<noteq> CHR ''/'') (rev p)))"

definition dirSizeExcluding :: "string \<Rightarrow> string \<Rightarrow> fsys \<Rightarrow> int \<times> fsys" where
  "dirSizeExcluding dir excl fs =
     (case WalkDir dir fs of (es, fs1) \<Rightarrow> (sum_list (map snd (filter (\<lambda>(p, _). p \<noteq> excl) es)), fs1))"

definition resumeOffset :: "(oserr + int \<times> int) \<Rightarrow> nat \<Rightarrow> nat" where
  "resumeOffset info sz =
     (case info of
        Inl _ \<Rightarrow> 0
      | Inr (_, n) \<Rightarrow> if 0 \<le> n \<and> nat n \<le> sz then nat n else 0)"

definition quotaRefusal :: "nat \<Rightarrow> int \<Rightarrow> int \<Rightarrow> string" where
  "quotaRefusal sz budget q =
     ''receiver disk quota exceeded: need '' @ dec sz @ '', '' @ dec (nat budget) @ '' of '' @ dec (nat q) @
     '' available''"

definition diskRefusal :: "nat \<Rightarrow> nat \<Rightarrow> string" where
  "diskRefusal need free =
     ''receiver disk full: need '' @ dec need @ '' bytes, '' @ dec free @ '' free (keeping '' @
     dec diskReserveBytes @ '' in reserve)''"

definition quotaGate :: "streamReceiver \<Rightarrow> string \<Rightarrow> nat \<Rightarrow> world \<Rightarrow> (string + int) \<times> world" where
  "quotaGate sr part sz w =
     (if quotaBytes sr > 0 then
        (case dirSizeExcluding (receivedDir sr) part (wfs w) of
           (used, fs1) \<Rightarrow>
             let w1 = w\<lparr>wfs := fs1\<rparr>;
                 budget = (if quotaBytes sr - used < 0 then 0 else quotaBytes sr - used)
             in if int sz > budget then (Inl (quotaRefusal sz budget (quotaBytes sr)), w1)
                else (Inr budget, w1))
      else (Inr (-1), w))"

definition diskGate :: "srEnv \<Rightarrow> string \<Rightarrow> nat \<Rightarrow> world \<Rightarrow> string option \<times> world" where
  "diskGate env part sz w =
     (case freeDiskBytes env (wfs w) (filepath_Dir part) of
        None \<Rightarrow> (None, w)
      | Some free \<Rightarrow>
          (case os_Stat part (wfs w) of
             (info, fs1) \<Rightarrow>
               let w1 = w\<lparr>wfs := fs1\<rparr>; need = sz - resumeOffset info sz
               in if need > free \<or> free - need < diskReserveBytes
                  then (Some (diskRefusal need free), w1) else (None, w1)))"

definition admit :: "srEnv \<Rightarrow> streamReceiver \<Rightarrow> string \<Rightarrow> nat \<Rightarrow> world \<Rightarrow> (string + int) \<times> world" where
  "admit env sr part sz w =
     (case quotaGate sr part sz w of
        (Inl r, w1) \<Rightarrow> (Inl r, w1)
      | (Inr b, w1) \<Rightarrow>
          (case diskGate env part sz w1 of
             (Some r, w2) \<Rightarrow> (Inl r, w2) | (None, w2) \<Rightarrow> (Inr b, w2)))"

section \<open>INIT\<close>

definition complete_err :: "bytes \<Rightarrow> string \<Rightarrow> Frame" where
  "complete_err i msg = encodeComplete i False msg"

definition err_text :: "oserr \<Rightarrow> string" where
  "err_text e = (case e of OsErr _ t \<Rightarrow> t)"

definition partialDir :: "streamReceiver \<Rightarrow> string" where
  "partialDir sr = filepath_Join [receivedDir sr, ''.partial'']"

text \<open>The transfer an INIT repeats, dropped when another transfer has taken its file over.\<close>

definition initPrior :: "bytes \<Rightarrow> streamReceiver \<Rightarrow> world \<Rightarrow> recvTransfer option \<times> streamReceiver \<times> world" where
  "initPrior i sr w =
     (case map_of (transfers sr) i of
        None \<Rightarrow> (None, sr, w)
      | Some t \<Rightarrow>
          (case stillHolds (tpartial t) (tclaim t) w of
             (True, w1) \<Rightarrow> (Some t, sr, w1)
           | (False, w1) \<Rightarrow> (None, sr\<lparr>transfers := adel i (transfers sr)\<rparr>, closeFile (thandle t) w1)))"

text \<open>
  The file an INIT will write, whether it is private, the claim on it, the claim that was
  taken over, and the quota budget; or the reason of a refusal.  A new transfer is admitted
  before it claims the file, and goes to a private one when the claim comes too late.
\<close>

type_synonym selected = "string + string \<times> bool \<times> nat option \<times> nat option \<times> int"

definition admitClaim ::
  "srEnv \<Rightarrow> string \<Rightarrow> nat \<Rightarrow> string \<Rightarrow> bool \<Rightarrow> streamReceiver \<Rightarrow> world \<Rightarrow> selected \<times> world" where
  "admitClaim env shared sz part priv sr w =
     (case admit env sr part sz w of
        (Inl r, w1) \<Rightarrow> (Inl r, w1)
      | (Inr b, w1) \<Rightarrow>
          (case claimPartial part w1 of
             ((Some c, prev), w2) \<Rightarrow> (Inr (part, priv, Some c, prev, b), w2)
           | ((None, _), w2) \<Rightarrow>
               (case privatePartial (randSuffix env 1) shared of
                  Inl e \<Rightarrow> (Inl (''partial name: '' @ e), w2)
                | Inr part2 \<Rightarrow>
                    (case admit env sr part2 sz w2 of
                       (Inl r, w3) \<Rightarrow> (Inl r, w3)
                     | (Inr b2, w3) \<Rightarrow>
                         (case claimPartial part2 w3 of
                            ((c, prev), w4) \<Rightarrow> (Inr (part2, True, c, prev, b2), w4))))))"

definition selectPartial ::
  "srEnv \<Rightarrow> string \<Rightarrow> nat \<Rightarrow> recvTransfer option \<Rightarrow> streamReceiver \<Rightarrow> world \<Rightarrow> selected \<times> world" where
  "selectPartial env shared sz prior sr w =
     (case prior of
        Some t \<Rightarrow>
          (case admit env sr (tpartial t) sz w of
             (Inl r, w1) \<Rightarrow> (Inl r, w1)
           | (Inr b, w1) \<Rightarrow> (Inr (tpartial t, tprivate t, tclaim t, None, b), w1))
      | None \<Rightarrow>
          if partialHeld shared w then
            (case privatePartial (randSuffix env 0) shared of
               Inl e \<Rightarrow> (Inl (''partial name: '' @ e), w)
             | Inr part \<Rightarrow> admitClaim env shared sz part True sr w)
          else admitClaim env shared sz shared False sr w)"

definition file_Stat :: "string \<Rightarrow> nat \<Rightarrow> fsys \<Rightarrow> (oserr + int \<times> int) \<times> fsys" where
  "file_Stat p ino fs =
     (case sys p fs of
        (Some e, fs1) \<Rightarrow> (Inl e, fs1)
      | (None, fs1) \<Rightarrow> (Inr (fmod (store fs1 ! ino), fsize fs1 ino), fs1))"

definition file_Truncate :: "string \<Rightarrow> nat \<Rightarrow> fsys \<Rightarrow> fsys" where
  "file_Truncate p ino fs =
     (case sys p fs of (Some e, fs1) \<Rightarrow> fs1 | (None, fs1) \<Rightarrow> file_Truncate0 ino fs1)"

text \<open>A refusal after the claim was taken hands the claim back to the transfer it came from.\<close>

definition initFail ::
  "bytes \<Rightarrow> string \<Rightarrow> bool \<Rightarrow> string \<Rightarrow> bool \<Rightarrow> nat option \<Rightarrow> nat option \<Rightarrow> world \<Rightarrow> Frame \<times> world" where
  "initFail i reason isNew part priv claim prev w =
     (complete_err i reason,
      if isNew
      then (let w1 = unclaimPartial part claim prev w in if priv then try_remove part w1 else w1)
      else w)"

definition initOpen ::
  "bytes \<Rightarrow> nat \<Rightarrow> bytes \<Rightarrow> string \<Rightarrow> bool \<Rightarrow> string \<Rightarrow> bool \<Rightarrow> nat option \<Rightarrow> nat option \<Rightarrow> int \<Rightarrow>
   streamReceiver \<Rightarrow> world \<Rightarrow> Frame \<times> streamReceiver \<times> world" where
  "initOpen i sz hash name isNew part priv claim prev budget sr w =
     (case os_OpenCreate part (wfs w) of
        (Inl e, fs1) \<Rightarrow>
          (case initFail i (''open partial: '' @ err_text e) isNew part priv claim prev (w\<lparr>wfs := fs1\<rparr>) of
             (f, w1) \<Rightarrow> (f, sr, w1))
      | (Inr ino, fs1) \<Rightarrow>
          (case openFile (w\<lparr>wfs := fs1\<rparr>) of
             (h, w1) \<Rightarrow>
               if map_of (transfers sr) i = None \<and> length (transfers sr) \<ge> maxConcurrentTransfers then
                 (case initFail i ''too many concurrent transfers'' isNew part priv claim prev (closeFile h w1) of
                    (f, w2) \<Rightarrow> (f, sr, w2))
               else
                 (case file_Stat part ino fs1 of
                    (info, fs2) \<Rightarrow>
                      let resume = resumeOffset info sz;
                          fs3 = (if resume = 0 then file_Truncate part ino fs2 else fs2);
                          w2 = (case map_of (transfers sr) i of None \<Rightarrow> w1 | Some old \<Rightarrow> closeFile (thandle old) w1);
                          t = \<lparr>thandle = h, tfile = ino, tpartial = part, tprivate = priv, tclaim = claim,
                               tname = sanitizeBase name, tsize = sz, thash = hash, tcursor = resume,
                               tpending = [], tpendBytes = 0, tquotaBudget = budget\<rparr>
                      in (encodeOffset streamKindInitAck i (word_of_nat resume),
                          sr\<lparr>transfers := aput i t (transfers sr)\<rparr>, w2\<lparr>wfs := fs3\<rparr>))))"

definition handleInit :: "srEnv \<Rightarrow> bytes \<Rightarrow> bytes \<Rightarrow> streamReceiver \<Rightarrow> world \<Rightarrow> Frame \<times> streamReceiver \<times> world" where
  "handleInit env i body sr w =
     (case decodeInit body of
        None \<Rightarrow> (complete_err i ''malformed INIT'', sr, w)
      | Some (sz, hash, _, name) \<Rightarrow>
          (case os_MkdirAll (partialDir sr) (wfs w) of
             (Some e, fs1) \<Rightarrow> (complete_err i (''mkdir partial: '' @ err_text e), sr, w\<lparr>wfs := fs1\<rparr>)
           | (None, fs1) \<Rightarrow>
               (case initPrior i sr (w\<lparr>wfs := fs1\<rparr>) of
                  (prior, sr1, w1) \<Rightarrow>
                    if prior = None \<and> length (transfers sr1) \<ge> maxConcurrentTransfers
                    then (complete_err i ''too many concurrent transfers'', sr1, w1)
                    else
                      (case selectPartial env (filepath_Join [partialDir sr, hex i]) (unat sz) prior sr1 w1 of
                         (Inl refusal, w2) \<Rightarrow> (complete_err i refusal, sr1, w2)
                       | (Inr (part, priv, claim, prev, budget), w2) \<Rightarrow>
                           initOpen i (unat sz) hash name (prior = None) part priv claim prev budget sr1 w2))))"

section \<open>CHUNK\<close>

definition writeAt :: "recvTransfer \<Rightarrow> nat \<Rightarrow> bytes \<Rightarrow> world \<Rightarrow> werr option \<times> recvTransfer \<times> world" where
  "writeAt t off d w =
     (case stillHolds (tpartial t) (tclaim t) w of
        (False, w1) \<Rightarrow> (Some TakenOver, t, w1)
      | (True, w1) \<Rightarrow>
          if tquotaBudget t \<ge> 0 \<and> int (length d) > tquotaBudget t then (Some (QuotaAt off), t, w1)
          else
            let t1 = (if tquotaBudget t \<ge> 0 then t\<lparr>tquotaBudget := tquotaBudget t - int (length d)\<rparr> else t)
            in case (if isOpen (thandle t) w1 then file_WriteAt (tpartial t) (tfile t) d off (wfs w1)
                     else (Some (closedErr ''write'' (tpartial t)), wfs w1)) of
                 (Some e, fs1) \<Rightarrow> (Some (WriteErr off e), t1, w1\<lparr>wfs := fs1\<rparr>)
               | (None, fs1) \<Rightarrow> (None, t1\<lparr>tcursor := tcursor t1 + length d\<rparr>, w1\<lparr>wfs := fs1\<rparr>))"

text \<open>The loop that writes the buffered successors of the chunk just written.\<close>

function drain :: "recvTransfer \<Rightarrow> world \<Rightarrow> werr option \<times> recvTransfer \<times> world" where
  "drain t w =
     (case map_of (tpending t) (tcursor t) of
        None \<Rightarrow> (None, t, w)
      | Some d \<Rightarrow>
          let t1 = t\<lparr>tpending := adel (tcursor t) (tpending t), tpendBytes := tpendBytes t - length d\<rparr>
          in case writeAt t1 (tcursor t1) d w of
               (Some e, t2, w2) \<Rightarrow> (Some e, t2, w2)
             | (None, t2, w2) \<Rightarrow> drain t2 w2)"
  by pat_completeness auto

lemma writeAt_pending: "writeAt t off d w = (r, t', w') \<Longrightarrow> tpending t' = tpending t"
  by (auto simp: writeAt_def Let_def split: prod.splits bool.splits if_splits option.splits)

lemma adel_shorter: "map_of xs k = Some v \<Longrightarrow> length (adel k xs) < length xs"
  unfolding adel_def by (rule length_filter_less [of "(k, v)"]) (auto dest: map_of_SomeD)

termination drain
  by (relation "measure (\<lambda>(t, w). length (tpending t))")
    (auto dest!: adel_shorter writeAt_pending [OF sym])

declare drain.simps [simp del]

text \<open>Texts of a failed write.\<close>

definition werr_text :: "werr \<Rightarrow> string" where
  "werr_text e =
     (case e of
        TakenOver \<Rightarrow> ''a newer transfer of this file has taken it over''
      | QuotaAt off \<Rightarrow> ''receiver disk quota exceeded at offset '' @ dec off
      | WriteErr off oe \<Rightarrow> ''write at '' @ dec off @ '': '' @ err_text oe)"

definition writeFailed :: "bytes \<Rightarrow> werr \<Rightarrow> streamReceiver \<Rightarrow> world \<Rightarrow> Frame \<times> streamReceiver \<times> world" where
  "writeFailed i e sr w =
     (case (if e = TakenOver then discard i sr w else abandonIfDiskFull i e sr w) of
        (sr1, w1) \<Rightarrow> (complete_err i (werr_text e), sr1, w1))"

text \<open>The transfer after a chunk inside the declared size.\<close>

definition placeChunk :: "recvTransfer \<Rightarrow> nat \<Rightarrow> bytes \<Rightarrow> world \<Rightarrow> werr option \<times> recvTransfer \<times> world" where
  "placeChunk t off d w =
     (if off = tcursor t then
        (case writeAt t off d w of
           (Some e, t1, w1) \<Rightarrow> (Some e, t1, w1)
         | (None, t1, w1) \<Rightarrow> drain t1 w1)
      else if off > tcursor t then
        (if map_of (tpending t) off = None \<and> tpendBytes t + length d \<le> maxPendingBytes
         then (None, t\<lparr>tpending := aput off d (tpending t), tpendBytes := tpendBytes t + length d\<rparr>, w)
         else (None, t, w))
      else (None, t, w))"

definition sizeRefusal :: "nat \<Rightarrow> nat \<Rightarrow> nat \<Rightarrow> string" where
  "sizeRefusal off n sz =
     ''chunk at '' @ dec off @ '' of '' @ dec n @ '' bytes exceeds declared size '' @ dec sz"

definition handleChunk :: "bytes \<Rightarrow> bytes \<Rightarrow> streamReceiver \<Rightarrow> world \<Rightarrow> Frame \<times> streamReceiver \<times> world" where
  "handleChunk i body sr w =
     (case decodeChunk body of
        None \<Rightarrow> (complete_err i ''malformed CHUNK'', sr, w)
      | Some (off64, d) \<Rightarrow>
          (case map_of (transfers sr) i of
             None \<Rightarrow> (encodeStreamFrame streamKindAbort i (bytes_of ''no active transfer (send INIT first)''), sr, w)
           | Some t \<Rightarrow>
               let off = unat off64 in
               if off > tsize t \<or> length d > tsize t - off
               then (complete_err i (sizeRefusal off (length d) (tsize t)), sr, w)
               else
                 (case placeChunk t off d w of
                    (r, t1, w1) \<Rightarrow>
                      let sr1 = sr\<lparr>transfers := aput i t1 (transfers sr)\<rparr>
                      in case r of
                           Some e \<Rightarrow> writeFailed i e sr1 w1
                         | None \<Rightarrow> (encodeOffset streamKindAck i (word_of_nat (tcursor t1)), sr1, w1))))"

section \<open>DONE\<close>

text \<open>A file saved under its final name: name, path and size, as reported to \<^verbatim>\<open>onSaved\<close>.\<close>

type_synonym saved = "(string \<times> string \<times> nat) list"

definition taken_over_text :: string where
  "taken_over_text = werr_text TakenOver"

text \<open>The text of a hash mismatch, with its dash in UTF-8.\<close>

definition mismatch_text :: string where
  "mismatch_text =
     ''sha256 mismatch '' @ [CHR 0xE2, CHR 0x80, CHR 0x94] @ '' file corrupt, .partial retained''"

text \<open>
  The file read back through the claim, which a read refreshes (\<^verbatim>\<open>heldReader\<close>): the content, the
  error of a read, or \<open>Inl None\<close> when the claim is lost.
\<close>

definition heldRead :: "recvTransfer \<Rightarrow> world \<Rightarrow> (oserr option + bytes) \<times> world" where
  "heldRead t w =
     (case stillHolds (tpartial t) (tclaim t) w of
        (False, w1) \<Rightarrow> (Inl None, w1)
      | (True, w1) \<Rightarrow>
          (case hsys ''read'' t w1 of
             (Some e, fs2) \<Rightarrow> (Inl (Some e), w1\<lparr>wfs := fs2\<rparr>)
           | (None, fs2) \<Rightarrow> (Inr (fdata (store fs2 ! tfile t)), w1\<lparr>wfs := fs2\<rparr>)))"

text \<open>
  The part of \<open>handleDone\<close> that verifies the file: the content, or the answer and whether the
  transfer is dropped.
\<close>

definition doneVerify :: "recvTransfer \<Rightarrow> world \<Rightarrow> (string \<times> bool + bytes) \<times> world" where
  "doneVerify t w =
     (case hsys ''sync'' t w of
        (Some e, fs1) \<Rightarrow> (Inl (''fsync: '' @ err_text e, False), w\<lparr>wfs := fs1\<rparr>)
      | (None, fs1) \<Rightarrow>
          let w1 = w\<lparr>wfs := fs1\<rparr> in
          if tcursor t \<noteq> tsize t
          then (Inl (''incomplete: have '' @ dec (tcursor t) @ '' of '' @ dec (tsize t) @ '' bytes'', False), w1)
          else
            (case hsys ''seek'' t w1 of
               (Some e, fs2) \<Rightarrow> (Inl (''seek for verify: '' @ err_text e, False), w1\<lparr>wfs := fs2\<rparr>)
             | (None, fs2) \<Rightarrow>
                 (case heldRead t (w1\<lparr>wfs := fs2\<rparr>) of
                    (Inl None, w2) \<Rightarrow> (Inl (taken_over_text, True), w2)
                  | (Inl (Some e), w2) \<Rightarrow> (Inl (''read for verify: '' @ err_text e, False), w2)
                  | (Inr content, w2) \<Rightarrow>
                      if sha256 content \<noteq> thash t
                      then (Inl (mismatch_text, True), w2)
                      else (Inr content, w2))))"

text \<open>The rest: the handle is closed; hooks, the last look at the claim, the rename.\<close>

definition doneCommit ::
  "srEnv \<Rightarrow> bytes \<Rightarrow> recvTransfer \<Rightarrow> streamReceiver \<Rightarrow> world \<Rightarrow> Frame \<times> saved \<times> streamReceiver \<times> world" where
  "doneCommit env i t sr w00 =
     (let finalName = nameSuffix env (now w00) (wseq w00 + 1) (tname t);
          w = (closeFile (thandle t) w00)\<lparr>wseq := wseq w00 + 1\<rparr>;
          finalPath = filepath_Join [receivedDir sr, finalName];
          refuse = (\<lambda>msg w'. case forget i sr w' of (sr1, w1) \<Rightarrow> (complete_err i msg, [], sr1, w1));
          prep = (case onPrepare env of None \<Rightarrow> None | Some h \<Rightarrow> h i finalName finalPath (tsize t))
      in case prep of
           Some e \<Rightarrow> refuse (''prepare: '' @ e) w
         | None \<Rightarrow>
             (case stillHolds (tpartial t) (tclaim t) w of
                (False, w1) \<Rightarrow> refuse taken_over_text w1
              | (True, w1) \<Rightarrow>
                  (case os_Rename (tpartial t) finalPath (wfs w1) of
                     (Some e, fs2) \<Rightarrow> refuse (''rename: '' @ err_text e) (w1\<lparr>wfs := fs2\<rparr>)
                   | (None, fs2) \<Rightarrow>
                       let w2 = w1\<lparr>wfs := fs2\<rparr>;
                           com = (case onCommit env of None \<Rightarrow> None | Some h \<Rightarrow> h i finalName finalPath (tsize t))
                       in case com of
                            Some e \<Rightarrow>
                              (case os_Remove finalPath (wfs w2) of
                                 (rm, fs3) \<Rightarrow>
                                   let msg = (case rm of
                                       Some (OsErr c txt) \<Rightarrow>
                                         if c = ENOENT then e else e @ ''; remove uncommitted file: '' @ txt
                                     | None \<Rightarrow> e)
                                   in refuse (''commit: '' @ msg) (w2\<lparr>wfs := fs3\<rparr>))
                          | None \<Rightarrow>
                              (case forget i sr w2 of
                                 (sr1, w3) \<Rightarrow>
                                   (encodeComplete i True [], [(finalName, finalPath, tsize t)], sr1, w3)))))"

definition handleDone ::
  "srEnv \<Rightarrow> bytes \<Rightarrow> streamReceiver \<Rightarrow> world \<Rightarrow> Frame \<times> saved \<times> streamReceiver \<times> world" where
  "handleDone env i sr w =
     (case map_of (transfers sr) i of
        None \<Rightarrow> (complete_err i ''no active transfer'', [], sr, w)
      | Some t \<Rightarrow>
          (case stillHolds (tpartial t) (tclaim t) w of
             (False, w1) \<Rightarrow>
               (case discard i sr w1 of (sr1, w2) \<Rightarrow> (complete_err i taken_over_text, [], sr1, w2))
           | (True, w1) \<Rightarrow>
               (case doneVerify t w1 of
                  (Inl (msg, drop_it), w2) \<Rightarrow>
                    (case (if drop_it then discard i sr w2 else (sr, w2)) of
                       (sr1, w3) \<Rightarrow> (complete_err i msg, [], sr1, w3))
                | (Inr _, w2) \<Rightarrow> doneCommit env i t sr w2)))"

section \<open>Frames\<close>

definition HandleFrame ::
  "srEnv \<Rightarrow> Frame \<Rightarrow> streamReceiver \<Rightarrow> world \<Rightarrow> Frame option \<times> saved \<times> streamReceiver \<times> world" where
  "HandleFrame env f sr w =
     (case decodeStreamFrame (Some f) of
        None \<Rightarrow> (None, [], sr, w)
      | Some (kind, i, body) \<Rightarrow>
          if kind = streamKindInit then
            (case handleInit env i body sr w of (r, sr1, w1) \<Rightarrow> (Some r, [], sr1, w1))
          else if kind = streamKindChunk then
            (case handleChunk i body sr w of (r, sr1, w1) \<Rightarrow> (Some r, [], sr1, w1))
          else if kind = streamKindDone then
            (case handleDone env i sr w of (r, sv, sr1, w1) \<Rightarrow> (Some r, sv, sr1, w1))
          else if kind = streamKindAbort then
            (case discard i sr w of (sr1, w1) \<Rightarrow> (None, [], sr1, w1))
          else (None, [], sr, w))"

text \<open>A sequence of frames, with the answers and the saved files in order.\<close>

fun handle_all ::
  "srEnv \<Rightarrow> Frame list \<Rightarrow> streamReceiver \<Rightarrow> world \<Rightarrow> Frame option list \<times> saved \<times> streamReceiver \<times> world" where
  "handle_all env [] sr w = ([], [], sr, w)"
| "handle_all env (f # fs) sr w =
     (case HandleFrame env f sr w of
        (r, sv, sr1, w1) \<Rightarrow>
          (case handle_all env fs sr1 w1 of (rs, svs, sr2, w2) \<Rightarrow> (r # rs, sv @ svs, sr2, w2)))"

end
