(* ===== verification/InboxBudget.thy ===== *)
theory InboxBudget
  imports Fs "HOL-Library.Signed_Division" "HOL-Library.Multiset"
begin

text \<open>
  Inbox capacity accounting, \<^verbatim>\<open>inbox_budget.go\<close>: the running byte total, the scan it is seeded
  from, reservation of the bytes of a message before it is written, and the eviction of the
  oldest messages.  Each operation holds the budget's lock and is atomic.  Byte counts are
  integers; the code adds them as \<^verbatim>\<open>int64\<close>, which differs only when a sum passes \<open>2^63\<close> bytes.
\<close>

section \<open>State\<close>

definition inboxLowWaterPercent :: int where [simp]: "inboxLowWaterPercent = 90"
definition defaultInboxMaxFiles :: int where [simp]: "defaultInboxMaxFiles = 10000"

record inboxBudget =
  bdir :: string
  known :: bool
  onDisk :: int
  pending :: int
  inflight :: "string set"
  scans :: nat

record inboxFile =
  iname :: string
  imod :: int
  isize :: int

datatype inboxErr =
    LargerThanCap int int
  | BeingWritten int int int
  | OverCap int int int

section \<open>Operations\<close>

fun scan_entries :: "string \<Rightarrow> (string \<times> bool) list \<Rightarrow> fsys \<Rightarrow> (inboxFile list \<times> int) \<times> fsys" where
  "scan_entries dir [] fs = (([], 0), fs)"
| "scan_entries dir ((n, isdir) # es) fs =
     (if isdir then scan_entries dir es fs
      else case os_Stat (filepath_Join [dir, n]) fs of
             (Inl _, fs1) \<Rightarrow> scan_entries dir es fs1
           | (Inr (m, sz), fs1) \<Rightarrow>
               (case scan_entries dir es fs1 of
                  ((files, tot), fs2) \<Rightarrow>
                    ((\<lparr>iname = n, imod = m, isize = sz\<rparr> # files, tot + sz), fs2)))"

definition scanInbox :: "string \<Rightarrow> fsys \<Rightarrow> (oserr + (inboxFile list \<times> int)) \<times> fsys" where
  "scanInbox dir fs =
     (case os_ReadDir dir fs of
        (Inl e, fs1) \<Rightarrow> (Inl e, fs1)
      | (Inr es, fs1) \<Rightarrow> (case scan_entries dir es fs1 of (r, fs2) \<Rightarrow> (Inr r, fs2)))"

text \<open>All arithmetic of \<open>inboxLowWater\<close> is on 64-bit integers and wraps around.\<close>

definition inboxLowWater :: "int \<Rightarrow> int" where
  "inboxLowWater maxBytes =
     i64 (i64 ((maxBytes sdiv 100) * inboxLowWaterPercent) +
          (i64 ((maxBytes smod 100) * inboxLowWaterPercent)) sdiv 100)"

text \<open>
  \<^verbatim>\<open>sort.Slice\<close> with an order is not stable, so the order among files of one modification time
  is unspecified.  The operations take the sorting function as an argument, and the locale
  \<open>slice_sort\<close> states what is known of it.
\<close>

type_synonym sorter = "inboxFile list \<Rightarrow> inboxFile list"

fun remove_while ::
  "string \<Rightarrow> inboxFile list \<Rightarrow> int \<Rightarrow> int \<Rightarrow> nat \<Rightarrow> fsys \<Rightarrow> (int \<times> nat) \<times> fsys" where
  "remove_while dir [] tot limit evicted fs = ((tot, evicted), fs)"
| "remove_while dir (f # files) tot limit evicted fs =
     (if tot > limit then
        (case os_Remove (filepath_Join [dir, iname f]) fs of
           (Some _, fs1) \<Rightarrow> remove_while dir files tot limit evicted fs1
         | (None, fs1) \<Rightarrow> remove_while dir files (tot - isize f) limit (evicted + 1) fs1)
      else ((tot, evicted), fs))"

definition removeOldestInbox ::
  "sorter \<Rightarrow> string \<Rightarrow> inboxFile list \<Rightarrow> int \<Rightarrow> int \<Rightarrow> fsys \<Rightarrow> (int \<times> nat) \<times> fsys" where
  "removeOldestInbox srt dir files tot limit fs =
     (if tot \<le> limit then ((tot, 0), fs)
      else remove_while dir (srt files) tot limit 0 fs)"

definition rescanLocked ::
  "string \<Rightarrow> inboxBudget \<Rightarrow> fsys \<Rightarrow> (oserr + inboxFile list) \<times> inboxBudget \<times> fsys" where
  "rescanLocked dir b fs =
     (let b1 = b\<lparr>scans := Suc (scans b)\<rparr> in
      case scanInbox dir fs of
        (Inl e, fs1) \<Rightarrow> (Inl e, b1, fs1)
      | (Inr (files, tot), fs1) \<Rightarrow>
          let busy = (\<lambda>f. filepath_Join [dir, iname f] \<in> inflight b1);
              settled = (if inflight b1 \<noteq> {} then filter (\<lambda>f. \<not> busy f) files else files);
              tot' = (if inflight b1 \<noteq> {} then tot - sum_list (map isize (filter busy files)) else tot)
          in (Inr settled, b1\<lparr>bdir := dir, known := True, onDisk := tot'\<rparr>, fs1))"

definition admitLocked :: "string \<Rightarrow> int \<Rightarrow> inboxBudget \<Rightarrow> inboxBudget" where
  "admitLocked path sz b = b\<lparr>pending := pending b + sz, inflight := insert path (inflight b)\<rparr>"

text \<open>The part of \<open>reserveInbox\<close> that runs when the running total leaves no room.\<close>

definition makeRoom ::
  "sorter \<Rightarrow> string \<Rightarrow> string \<Rightarrow> int \<Rightarrow> int \<Rightarrow> inboxBudget \<Rightarrow> fsys \<Rightarrow> inboxErr option \<times> inboxBudget \<times> fsys" where
  "makeRoom srt dir path sz maxBytes b fs =
     (case rescanLocked dir b fs of
        (Inl _, b1, fs1) \<Rightarrow> (None, admitLocked path sz b1, fs1)
      | (Inr files, b1, fs1) \<Rightarrow>
          let (b2, fs2) =
            (if onDisk b1 + pending b1 + sz > maxBytes then
               let low = inboxLowWater maxBytes;
                   target = (if sz + pending b1 > low then maxBytes else low)
               in case removeOldestInbox srt dir files (onDisk b1) (target - sz - pending b1) fs1 of
                    ((tot, _), fs2) \<Rightarrow> (b1\<lparr>onDisk := tot\<rparr>, fs2)
             else (b1, fs1))
          in if onDisk b2 + pending b2 + sz > maxBytes
             then (Some (OverCap (onDisk b2 + pending b2) sz maxBytes), b2, fs2)
             else (None, admitLocked path sz b2, fs2))"

definition reserveInbox ::
  "sorter \<Rightarrow> string \<Rightarrow> string \<Rightarrow> int \<Rightarrow> int \<Rightarrow> inboxBudget \<Rightarrow> fsys \<Rightarrow> inboxErr option \<times> inboxBudget \<times> fsys" where
  "reserveInbox srt dir path sz maxBytes b fs =
     (if sz > maxBytes then (Some (LargerThanCap sz maxBytes), b, fs)
      else if sz + pending b > maxBytes then (Some (BeingWritten (pending b) sz maxBytes), b, fs)
      else
        let seeded =
          (if \<not> known b \<or> bdir b \<noteq> dir then
             (case rescanLocked dir b fs of
                (Inl _, b1, fs1) \<Rightarrow> Inl (admitLocked path sz b1, fs1)
              | (Inr _, b1, fs1) \<Rightarrow> Inr (b1, fs1))
           else Inr (b, fs))
        in case seeded of
             Inl (b1, fs1) \<Rightarrow> (None, b1, fs1)
           | Inr (b1, fs1) \<Rightarrow>
               if onDisk b1 + pending b1 + sz > maxBytes then makeRoom srt dir path sz maxBytes b1 fs1
               else (None, admitLocked path sz b1, fs1))"

definition inboxWriteDone :: "string \<Rightarrow> int \<Rightarrow> bool \<Rightarrow> inboxBudget \<Rightarrow> inboxBudget" where
  "inboxWriteDone path sz written b =
     (let p = pending b - sz;
          b1 = b\<lparr>inflight := inflight b - {path}, pending := if p < 0 then 0 else p\<rparr>
      in if written then b1\<lparr>onDisk := onDisk b1 + sz\<rparr> else b1)"

definition inboxFileRemoved :: "int \<Rightarrow> inboxBudget \<Rightarrow> inboxBudget" where
  "inboxFileRemoved sz b =
     (let d = onDisk b - sz in b\<lparr>onDisk := if d < 0 then 0 else d\<rparr>)"

text \<open>The loop that removes the files over the count cap.\<close>

fun remove_files :: "string \<Rightarrow> inboxFile list \<Rightarrow> int \<Rightarrow> fsys \<Rightarrow> int \<times> fsys" where
  "remove_files dir [] tot fs = (tot, fs)"
| "remove_files dir (f # files) tot fs =
     (case os_Remove (filepath_Join [dir, iname f]) fs of
        (Some _, fs1) \<Rightarrow> remove_files dir files tot fs1
      | (None, fs1) \<Rightarrow> remove_files dir files (tot - isize f) fs1)"

text \<open>
  \<open>cfgMaxFiles\<close> is the configured file count, \<open>maxBytes\<close> the effective byte cap (not positive
  when there is none).
\<close>

definition evictInboxOverflow ::
  "sorter \<Rightarrow> int \<Rightarrow> int \<Rightarrow> string \<Rightarrow> inboxBudget \<Rightarrow> fsys \<Rightarrow> inboxBudget \<times> fsys" where
  "evictInboxOverflow srt cfgMaxFiles maxBytes dir b fs =
     (case rescanLocked dir b fs of
        (Inl _, b1, fs1) \<Rightarrow> (b1, fs1)
      | (Inr files, b1, fs1) \<Rightarrow>
          let maxFiles = (if cfgMaxFiles \<le> 0 then defaultInboxMaxFiles else cfgMaxFiles);
              (files2, b2, fs2) =
                (if int (length files) > maxFiles then
                   let sorted_files = srt files;
                       toEvict = nat (int (length files) - maxFiles)
                   in case remove_files dir (take toEvict sorted_files) (onDisk b1) fs1 of
                        (tot, fs2) \<Rightarrow> (drop toEvict sorted_files, b1\<lparr>onDisk := tot\<rparr>, fs2)
                 else (files, b1, fs1))
          in if maxBytes > 0 \<and> onDisk b2 + pending b2 > maxBytes then
               let low = inboxLowWater maxBytes;
                   target = (if pending b2 > low then maxBytes else low)
               in case removeOldestInbox srt dir files2 (onDisk b2) (target - pending b2) fs2 of
                    ((tot, _), fs3) \<Rightarrow> (b2\<lparr>onDisk := tot\<rparr>, fs3)
             else (b2, fs2))"

definition inboxTotalBytes :: "string \<Rightarrow> fsys \<Rightarrow> (oserr + int) \<times> fsys" where
  "inboxTotalBytes dir fs =
     (case scanInbox dir fs of
        (Inl e, fs1) \<Rightarrow> (Inl e, fs1) | (Inr (_, tot), fs1) \<Rightarrow> (Inr tot, fs1))"

end
