(* ===== verification/Dedupe.thy ===== *)
theory Dedupe
  imports Wire Sha256
begin

text \<open>
  Receiver-side duplicate suppression, \<^verbatim>\<open>dedupe.go\<close>: the cache of recent deliveries with its
  ring of stored entries, claims on a delivery, the key of a delivery, and the protocol that
  concurrent connections follow on one cache.  A call that holds the cache's lock is one
  atomic operation.  \<open>None\<close> as the result of an operation is a run-time panic: an index out of
  range, a nil pointer dereference, or the second close of a channel.
\<close>

section \<open>The cache\<close>

type_synonym dedupeKey = bytes

text \<open>Entries live in a heap, the list \<open>dheap\<close>; a pointer is an index into it.\<close>

type_synonym eptr = nat

record dedupeEntry =
  edone :: bool
  eack :: string
  eexpires :: int

record dedupeOrder =
  okey :: dedupeKey
  oentry :: "eptr option"

record deliveryDedupe =
  dwindow :: int
  dmax :: int
  dheap :: "dedupeEntry list"
  dentries :: "dedupeKey \<rightharpoonup> eptr"
  dorder :: "dedupeOrder list"
  dhead :: nat

definition DefaultDedupeWindow :: int where
  "DefaultDedupeWindow = 10 * 60 * 1000000000"

definition dedupeMaxEntries :: int where "dedupeMaxEntries = 8192"

definition newDeliveryDedupe :: "int \<Rightarrow> int \<Rightarrow> deliveryDedupe" where
  "newDeliveryDedupe w mx =
     \<lparr>dwindow = w, dmax = mx, dheap = [], dentries = Map.empty, dorder = [], dhead = 0\<rparr>"

definition zeroOrder :: dedupeOrder where
  "zeroOrder = \<lparr>okey = replicate 32 0, oentry = None\<rparr>"

definition popLocked :: "deliveryDedupe \<Rightarrow> deliveryDedupe option" where
  "popLocked d =
     (if length (dorder d) \<le> dhead d then None
      else let oldest = dorder d ! dhead d;
               ord = (dorder d)[dhead d := zeroOrder];
               hd' = dhead d + 1;
               ents = (if dentries d (okey oldest) = oentry oldest
                       then (dentries d)(okey oldest := None) else dentries d)
           in if hd' > 64 \<and> hd' * 2 > length ord
              then Some (d\<lparr>dentries := ents, dorder := drop hd' ord, dhead := 0\<rparr>)
              else Some (d\<lparr>dentries := ents, dorder := ord, dhead := hd'\<rparr>))"

lemma popLocked_measure:
  "popLocked d = Some d' \<Longrightarrow> length (dorder d') - dhead d' < length (dorder d) - dhead d"
  by (auto simp: popLocked_def Let_def split: if_splits)

function expireLocked :: "int \<Rightarrow> deliveryDedupe \<Rightarrow> deliveryDedupe option" where
  "expireLocked now d =
     (if dhead d < length (dorder d) then
        (case oentry (dorder d ! dhead d) of
           None \<Rightarrow> None
         | Some e \<Rightarrow>
             if \<not> now < eexpires (dheap d ! e)
             then (case popLocked d of None \<Rightarrow> None | Some d' \<Rightarrow> expireLocked now d')
             else Some d)
      else Some d)"
  by pat_completeness auto
termination
  by (relation "measure (\<lambda>(now, d). length (dorder d) - dhead d)") (auto dest: popLocked_measure)

text \<open>The loop of \<open>finish\<close> that forgets the oldest entries of a full cache.\<close>

function popOverflow :: "deliveryDedupe \<Rightarrow> deliveryDedupe option" where
  "popOverflow d =
     (if int (length (dorder d)) - int (dhead d) > dmax d
      then (case popLocked d of None \<Rightarrow> None | Some d' \<Rightarrow> popOverflow d')
      else Some d)"
  by pat_completeness auto
termination
  by (relation "measure (\<lambda>d. length (dorder d) - dhead d)") (auto dest: popLocked_measure)

declare expireLocked.simps [simp del] popOverflow.simps [simp del]

definition begin_delivery :: "int \<Rightarrow> deliveryDedupe \<Rightarrow> dedupeKey \<Rightarrow> ((eptr \<times> bool) \<times> deliveryDedupe) option" where
  "begin_delivery now d key =
     (case expireLocked now d of
        None \<Rightarrow> None
      | Some d1 \<Rightarrow>
          (case dentries d1 key of
             Some entry \<Rightarrow> Some ((entry, False), d1)
           | None \<Rightarrow>
               let entry = length (dheap d1) in
               Some ((entry, True),
                 d1\<lparr>dheap := dheap d1 @ [\<lparr>edone = False, eack = [], eexpires = 0\<rparr>],
                    dentries := (dentries d1)(key \<mapsto> entry)\<rparr>)))"

definition finish ::
  "int \<Rightarrow> deliveryDedupe \<Rightarrow> dedupeKey \<Rightarrow> eptr \<Rightarrow> bool \<Rightarrow> string \<Rightarrow> deliveryDedupe option" where
  "finish now d key entry stored a =
     (let closed = (\<lambda>d1. if edone (dheap d1 ! entry) then None
            else Some (d1\<lparr>dheap := (dheap d1)[entry := (dheap d1 ! entry)\<lparr>edone := True\<rparr>]\<rparr>)) in
      if stored then
        let d1 = d\<lparr>dheap := (dheap d)[entry := (dheap d ! entry)\<lparr>eack := a, eexpires := now + dwindow d\<rparr>],
                   dorder := dorder d @ [\<lparr>okey = key, oentry = Some entry\<rparr>]\<rparr>
        in (case popOverflow d1 of None \<Rightarrow> None | Some d2 \<Rightarrow> closed d2)
      else closed (if dentries d key = Some entry then d\<lparr>dentries := (dentries d)(key := None)\<rparr> else d))"

text \<open>A claim; the zero value is inert.\<close>

type_synonym dedupeClaim = "(dedupeKey \<times> eptr) option"

definition claim_finish ::
  "int \<Rightarrow> deliveryDedupe \<Rightarrow> dedupeClaim \<Rightarrow> bool \<Rightarrow> string \<Rightarrow> (dedupeClaim \<times> deliveryDedupe) option" where
  "claim_finish now d c stored a =
     (case c of
        None \<Rightarrow> Some (None, d)
      | Some (key, entry) \<Rightarrow> map_option (Pair None) (finish now d key entry stored a))"

section \<open>Claiming a delivery\<close>

text \<open>
  Where a connection stands: outside any call of \<^verbatim>\<open>claim\<close>, about to call \<^verbatim>\<open>begin\<close>, waiting for another delivery to
  finish, or returned with a claim, as a duplicate with the first delivery's text, or because
  its context ended.
\<close>

datatype claim_state =
    Idle
  | Trying dedupeKey
  | Waiting dedupeKey eptr
  | Holding dedupeKey eptr
  | Duplicated dedupeKey string
  | Cancelled

definition claim_begin :: "int \<Rightarrow> deliveryDedupe \<Rightarrow> dedupeKey \<Rightarrow> (claim_state \<times> deliveryDedupe) option" where
  "claim_begin now d key =
     map_option (\<lambda>((entry, fresh), d'). (if fresh then Holding key entry else Waiting key entry, d'))
       (begin_delivery now d key)"

definition claim_recheck :: "deliveryDedupe \<Rightarrow> dedupeKey \<Rightarrow> eptr \<Rightarrow> claim_state" where
  "claim_recheck d key entry =
     (if dentries d key = Some entry then Duplicated key (eack (dheap d ! entry)) else Trying key)"

section \<open>Which deliveries are the same\<close>

definition dedupeEligible :: "u32 \<Rightarrow> bool" where
  "dedupeEligible t \<longleftrightarrow> t = TypeText \<or> t = TypeJSON \<or> t = TypeBinary \<or> t = TypeFile"

definition writeField :: "bytes \<Rightarrow> bytes" where
  "writeField b = PutUint64 (word_of_nat (length b)) @ b"

text \<open>
  The bytes that \<^verbatim>\<open>deliveryKeyFor\<close> writes to the hash; \<open>from\<close> is the printed address of the
  sender.
\<close>

definition deliveryBytes :: "string \<Rightarrow> Frame \<Rightarrow> bytes" where
  "deliveryBytes from f =
     writeField (bytes_of from) @ PutUint32 (Type f) @ writeField (bytes_of (Filename f)) @
     writeField (bytes_of (MessageID f)) @ writeField (bytes_of (ReplyTo f)) @ writeField (Payload f)"

definition deliveryKeyFor :: "string \<Rightarrow> Frame \<Rightarrow> dedupeKey" where
  "deliveryKeyFor from f = sha256 (deliveryBytes from f)"

datatype dedupeCache = ByID | ByContent

text \<open>
  \<open>hasID\<close> and \<open>hasContent\<close> say whether the service keeps the cache at all (it is nil
  otherwise).
\<close>

definition dedupeCacheFor :: "bool \<Rightarrow> bool \<Rightarrow> Frame \<Rightarrow> dedupeCache option" where
  "dedupeCacheFor hasID hasContent f =
     (if \<not> dedupeEligible (Type f) then None
      else if MessageID f \<noteq> [] then (if hasID then Some ByID else None)
      else (if hasContent then Some ByContent else None))"

definition effectiveDedupeWindow :: "int \<Rightarrow> int" where
  "effectiveDedupeWindow w = (if w < 0 then 0 else if w = 0 then DefaultDedupeWindow else w)"

section \<open>The ring as a queue\<close>

text \<open>
  The contract of a queue whose elements are indexed by a key: taking the oldest element out
  removes its key from the index and keeps everything else.
\<close>

locale indexed_queue =
  fixes deq :: "'s \<Rightarrow> 's option"
    and queue :: "'s \<Rightarrow> 'x list"
    and key :: "'x \<Rightarrow> 'k"
    and index :: "'s \<Rightarrow> 'k \<rightharpoonup> 'p"
    and rest :: "'s \<Rightarrow> 'r"
    and inv :: "'s \<Rightarrow> bool"
  assumes deq_Cons: "inv s \<Longrightarrow> queue s = x # q \<Longrightarrow>
      \<exists>s'. deq s = Some s' \<and> queue s' = q \<and> index s' = (index s)(key x := None) \<and>
        rest s' = rest s \<and> inv s'"
begin

text \<open>\<open>dropped n s s'\<close>: \<open>s'\<close> is \<open>s\<close> without its \<open>n\<close> oldest elements.\<close>

definition dropped :: "nat \<Rightarrow> 's \<Rightarrow> 's \<Rightarrow> bool" where
  "dropped n s s' \<longleftrightarrow> inv s' \<and> rest s' = rest s \<and> queue s' = drop n (queue s) \<and>
     index s' = index s |` (- set (map key (take n (queue s))))"

lemma dropped_0: "inv s \<Longrightarrow> dropped 0 s s"
  by (simp add: dropped_def restrict_map_def)

lemma dropped_Suc:
  assumes "queue s = x # q" and "deq s = Some s1" and "inv s" and "dropped n s1 s'"
  shows "dropped (Suc n) s s'"
proof -
  have s1: "queue s1 = q" "index s1 = (index s)(key x := None)" "rest s1 = rest s"
    using deq_Cons [OF assms(3,1)] assms(2) by auto
  then show ?thesis
    using assms by (auto simp: dropped_def restrict_map_def fun_eq_iff)
qed

end

definition stored :: "deliveryDedupe \<Rightarrow> dedupeOrder list" where
  "stored d = drop (dhead d) (dorder d)"

text \<open>
  The invariant of a cache: the consumed part of the ring is short or at most half of it, and
  every stored entry is in the index under its own key.
\<close>

definition dinv :: "deliveryDedupe \<Rightarrow> bool" where
  "dinv d \<longleftrightarrow> dhead d \<le> length (dorder d) \<and>
     (dhead d \<le> 64 \<or> 2 * dhead d \<le> length (dorder d)) \<and>
     distinct (map okey (stored d)) \<and>
     (\<forall>x \<in> set (stored d). \<exists>e. oentry x = Some e \<and> dentries d (okey x) = Some e) \<and>
     (\<forall>e \<in> ran (dentries d). e < length (dheap d)) \<and>
     inj_on (dentries d) (dom (dentries d))"

definition cache_rest :: "deliveryDedupe \<Rightarrow> dedupeEntry list \<times> int \<times> int" where
  "cache_rest d = (dheap d, dwindow d, dmax d)"

lemma stored_front:
  "stored d = x # q \<Longrightarrow>
     dhead d < length (dorder d) \<and> dorder d ! dhead d = x \<and> drop (Suc (dhead d)) (dorder d) = q"
  by (metis Cons_nth_drop_Suc drop_all list.distinct(1) list.inject not_le stored_def)

lemma popLocked_Cons:
  assumes inv: "dinv d" and q: "stored d = x # q"
  shows "\<exists>d'. popLocked d = Some d' \<and> stored d' = q \<and>
    dentries d' = (dentries d)(okey x := None) \<and> cache_rest d' = cache_rest d \<and> dinv d'"
proof -
  obtain e where e: "oentry x = Some e" "dentries d (okey x) = Some e"
    using inv q by (auto simp: dinv_def)
  have ents: "(if dentries d (okey x) = oentry x then (dentries d)(okey x := None) else dentries d) =
      (dentries d)(okey x := None)" using e by simp
  note front = stored_front [OF q]
  let ?ents = "(dentries d)(okey x := None)"
  have keep: "dinv d'" if "stored d' = q" "dentries d' = ?ents" "cache_rest d' = cache_rest d"
      "dhead d' \<le> length (dorder d')" "dhead d' \<le> 64 \<or> 2 * dhead d' \<le> length (dorder d')" for d'
    using inv q that
    by (auto simp: dinv_def cache_rest_def inj_on_def dom_def ran_def image_iff split: if_splits)
  show ?thesis
  proof (cases "Suc (dhead d) > 64 \<and> Suc (dhead d) * 2 > length (dorder d)")
    case True
    let ?d = "d\<lparr>dentries := ?ents, dorder := drop (Suc (dhead d)) (dorder d), dhead := 0\<rparr>"
    have "popLocked d = Some ?d"
      using True front ents by (simp add: popLocked_def Let_def)
    moreover have "stored ?d = q" using front by (simp add: stored_def)
    moreover from this have "dinv ?d" by (rule keep) (simp_all add: cache_rest_def)
    ultimately show ?thesis by (simp add: cache_rest_def)
  next
    case False
    let ?d = "d\<lparr>dentries := ?ents, dorder := (dorder d)[dhead d := zeroOrder], dhead := Suc (dhead d)\<rparr>"
    have "popLocked d = Some ?d"
      using False front ents by (auto simp: popLocked_def Let_def)
    moreover have "stored ?d = q" using front by (simp add: stored_def)
    moreover from this have "dinv ?d"
      by (rule keep) (use False front in \<open>auto simp: cache_rest_def\<close>)
    ultimately show ?thesis by (simp add: cache_rest_def)
  qed
qed

interpretation dq: indexed_queue popLocked stored okey dentries cache_rest dinv
  by unfold_locales (rule popLocked_Cons)

definition expired :: "int \<Rightarrow> deliveryDedupe \<Rightarrow> dedupeOrder \<Rightarrow> bool" where
  "expired now d x \<longleftrightarrow> eexpires (dheap d ! the (oentry x)) \<le> now"

lemma expireLocked_dropped:
  "dinv d \<Longrightarrow> \<exists>d'. expireLocked now d = Some d' \<and>
     dq.dropped (length (takeWhile (expired now d) (stored d))) d d'"
proof (induction "stored d" arbitrary: d)
  case Nil
  then have "expireLocked now d = Some d"
    by (simp add: expireLocked.simps stored_def)
  with Nil show ?case by (auto simp: dq.dropped_0 simp flip: Nil.hyps(1))
next
  case (Cons x q)
  note q = Cons.hyps(2) [symmetric]
  obtain e where e: "oentry x = Some e" using Cons.prems q by (auto simp: dinv_def)
  note front = stored_front [OF q]
  show ?case
  proof (cases "expired now d x")
    case False
    then have "expireLocked now d = Some d"
      using front e by (simp add: expireLocked.simps [of now d] expired_def)
    with False Cons.prems q show ?thesis by (simp add: dq.dropped_0)
  next
    case True
    obtain d1 where d1: "popLocked d = Some d1" "stored d1 = q" "cache_rest d1 = cache_rest d" "dinv d1"
      using popLocked_Cons [OF Cons.prems q] by blast
    obtain d' where d': "expireLocked now d1 = Some d'"
      "dq.dropped (length (takeWhile (expired now d1) q)) d1 d'"
      using Cons.hyps(1) [of d1] d1 by auto
    have "expired now d1 = expired now d"
      using d1(3) by (auto simp: expired_def cache_rest_def)
    moreover have "expireLocked now d = Some d'"
      using True front e d1(1) d'(1) by (simp add: expireLocked.simps [of now d] expired_def)
    ultimately show ?thesis
      using dq.dropped_Suc [OF q d1(1) Cons.prems d'(2)] True q by simp
  qed
qed

lemma popOverflow_dropped:
  "dinv d \<Longrightarrow> 0 \<le> dmax d \<Longrightarrow> \<exists>d'. popOverflow d = Some d' \<and>
     dq.dropped (length (stored d) - nat (dmax d)) d d'"
proof (induction "stored d" arbitrary: d)
  case Nil
  then have "popOverflow d = Some d"
    by (simp add: popOverflow.simps [of d] stored_def)
  with Nil show ?case by (auto simp: dq.dropped_0 simp flip: Nil.hyps(1))
next
  case (Cons x q)
  note q = Cons.hyps(2) [symmetric]
  have len: "int (length (dorder d)) - int (dhead d) = int (length (stored d))"
    using Cons.prems(1) by (simp add: stored_def dinv_def)
  show ?case
  proof (cases "int (length (stored d)) > dmax d")
    case False
    then show ?thesis using Cons.prems len
      by (simp add: popOverflow.simps [of d] dq.dropped_0 nat_le_iff)
  next
    case True
    obtain d1 where d1: "popLocked d = Some d1" "stored d1 = q" "cache_rest d1 = cache_rest d" "dinv d1"
      using popLocked_Cons [OF Cons.prems(1) q] by blast
    have mx: "dmax d1 = dmax d" using d1(3) by (simp add: cache_rest_def)
    obtain d' where d': "popOverflow d1 = Some d'" "dq.dropped (length q - nat (dmax d)) d1 d'"
      using Cons.hyps(1) [of d1] d1 mx Cons.prems(2) by auto
    have "popOverflow d = Some d'"
      using True len d1(1) d'(1) by (simp add: popOverflow.simps [of d])
    moreover have "length (stored d) - nat (dmax d) = Suc (length q - nat (dmax d))"
      using True q Cons.prems(2) by auto
    ultimately show ?thesis
      using dq.dropped_Suc [OF q d1(1) Cons.prems(1) d'(2)] by simp
  qed
qed

section \<open>Delivery keys\<close>

lemma writeField_prefix:
  assumes eq: "writeField a @ r = writeField b @ s" and a: "length a < 2 ^ 64" and b: "length b < 2 ^ 64"
  shows "a = b \<and> r = s"
proof -
  have "PutUint64 (word_of_nat (length a)) = PutUint64 (word_of_nat (length b))"
    and rest: "a @ r = b @ s"
    using eq by (auto simp: writeField_def codec_simps)
  then have "Uint64 (PutUint64 (word_of_nat (length a))) = Uint64 (PutUint64 (word_of_nat (length b)))"
    by simp
  then have "unat (word_of_nat (length a) :: u64) = unat (word_of_nat (length b) :: u64)"
    by (simp add: codec_simps)
  then have "length a = length b" using a b by (simp add: unat_of_nat)
  with rest show ?thesis by simp
qed

lemma bytes_of_inject: "bytes_of s = bytes_of t \<longleftrightarrow> s = t"
  by (metis byte_char_comp map_map list.map_id)

text \<open>The sizes a running program can have: every field is shorter than the address space.\<close>

definition addressable :: "string \<Rightarrow> Frame \<Rightarrow> bool" where
  "addressable from f \<longleftrightarrow> length from < 2 ^ 64 \<and> length (Filename f) < 2 ^ 64 \<and>
     length (MessageID f) < 2 ^ 64 \<and> length (ReplyTo f) < 2 ^ 64 \<and> length (Payload f) < 2 ^ 64"

text \<open>
  C28. The delivery key covers the sender, the type, the file name, both identifiers and the
  payload without ambiguity: the bytes hashed for two deliveries are equal exactly when the
  deliveries are, so the bytes of two different deliveries with one key are a collision of
  SHA-256.
\<close>

theorem delivery_key:
  assumes "addressable from f" and "addressable from' g"
  shows "(deliveryBytes from f = deliveryBytes from' g \<longleftrightarrow> from = from' \<and> f = g) \<and>
    length (deliveryKeyFor from f) = 32 \<and>
    (deliveryKeyFor from f = deliveryKeyFor from' g \<and> (from, f) \<noteq> (from', g) \<longrightarrow>
       deliveryBytes from f \<noteq> deliveryBytes from' g \<and>
       sha256 (deliveryBytes from f) = sha256 (deliveryBytes from' g))"
proof -
  have inj: "from = from' \<and> f = g" if eq: "deliveryBytes from f = deliveryBytes from' g"
  proof -
    note wf = writeField_prefix
    have 1: "bytes_of from = bytes_of from'" and
      r1: "PutUint32 (Type f) @ writeField (bytes_of (Filename f)) @ writeField (bytes_of (MessageID f)) @
          writeField (bytes_of (ReplyTo f)) @ writeField (Payload f) =
        PutUint32 (Type g) @ writeField (bytes_of (Filename g)) @ writeField (bytes_of (MessageID g)) @
          writeField (bytes_of (ReplyTo g)) @ writeField (Payload g)"
      using wf [OF eq [unfolded deliveryBytes_def]] assms by (simp_all add: addressable_def)
    have "PutUint32 (Type f) = PutUint32 (Type g)" and
      r2: "writeField (bytes_of (Filename f)) @ writeField (bytes_of (MessageID f)) @
          writeField (bytes_of (ReplyTo f)) @ writeField (Payload f) =
        writeField (bytes_of (Filename g)) @ writeField (bytes_of (MessageID g)) @
          writeField (bytes_of (ReplyTo g)) @ writeField (Payload g)"
      using r1 by (auto simp: codec_simps)
    then have t: "Type f = Type g" by (metis c32.get_put)
    have 2: "bytes_of (Filename f) = bytes_of (Filename g)" and
      r3: "writeField (bytes_of (MessageID f)) @ writeField (bytes_of (ReplyTo f)) @ writeField (Payload f) =
        writeField (bytes_of (MessageID g)) @ writeField (bytes_of (ReplyTo g)) @ writeField (Payload g)"
      using wf [OF r2] assms by (simp_all add: addressable_def)
    have 3: "bytes_of (MessageID f) = bytes_of (MessageID g)" and
      r4: "writeField (bytes_of (ReplyTo f)) @ writeField (Payload f) =
        writeField (bytes_of (ReplyTo g)) @ writeField (Payload g)"
      using wf [OF r3] assms by (simp_all add: addressable_def)
    have 4: "bytes_of (ReplyTo f) = bytes_of (ReplyTo g)" and r5: "writeField (Payload f) = writeField (Payload g)"
      using wf [OF r4] assms by (simp_all add: addressable_def)
    have "Payload f = Payload g" using wf [of _ "[]" _ "[]"] r5 assms by (simp add: addressable_def)
    with 1 2 3 4 t show ?thesis by (auto simp: bytes_of_inject intro: Frame_eqI)
  qed
  then show ?thesis by (auto simp: deliveryKeyFor_def)
qed

definition demo_text :: "string \<Rightarrow> Frame" where
  "demo_text i = (mkFrame TypeText [1, 2])\<lparr>MessageID := i\<rparr>"

theorem delivery_key_witness:
  "deliveryBytes ''a'' (demo_text ''bc'') \<noteq> deliveryBytes ''ab'' (demo_text ''c'')"
  using delivery_key [of "''a''" "demo_text ''bc''" "''ab''" "demo_text ''c''"]
  by (simp add: addressable_def demo_text_def)

end
