(* ===== verification/Goformat.thy ===== *)
theory Goformat
  imports Gostd
begin

text \<open>
  What the service uses of \<^verbatim>\<open>time\<close>, \<^verbatim>\<open>fmt\<close> and \<^verbatim>\<open>encoding/base64\<close>: the two layouts of a time,
  zero-padded numbers and the standard base64 encoding, with the facts about them that file names
  and inbox records rely on.
\<close>

section \<open>Numbers and times\<close>

definition pad :: "nat \<Rightarrow> nat \<Rightarrow> string" where
  "pad k n = replicate (k - length (dec n)) (CHR ''0'') @ dec n"

text \<open>
  The civil date of a day counted from 1970-01-01 (proleptic Gregorian calendar): year, month
  and day.  The count is shifted to 0000-03-01, so that the leap day is the last one of a year.
\<close>

definition civil :: "int \<Rightarrow> int \<times> nat \<times> nat" where
  "civil days =
     (let z = days + 719468; era = z div 146097; doe = z mod 146097;
          yoe = (doe - doe div 1460 + doe div 36524 - doe div 146096) div 365;
          doy = doe - (365 * yoe + yoe div 4 - yoe div 100);
          mp = (5 * doy + 2) div 153;
          d = doy - (153 * mp + 2) div 5 + 1;
          m = (if mp < 10 then mp + 3 else mp - 9)
      in (yoe + era * 400 + (if m \<le> 2 then 1 else 0), nat m, nat d))"

text \<open>A time is its Unix nanoseconds; \<open>zone\<close> is the offset of the local zone in seconds.\<close>

definition clock_parts :: "int \<Rightarrow> int \<Rightarrow> nat \<times> nat \<times> nat \<times> nat" where
  "clock_parts zone t =
     (let sod = nat ((t div 1000000000 + zone) mod 86400)
      in (sod div 3600, sod div 60 mod 60, sod mod 60, nat (t mod 1000000000)))"

text \<open>Layout \<^verbatim>\<open>20060102-150405.000\<close>.\<close>

definition file_stamp :: "int \<Rightarrow> int \<Rightarrow> string" where
  "file_stamp zone t =
     (case civil ((t div 1000000000 + zone) div 86400) of
        (y, m, d) \<Rightarrow>
          (case clock_parts zone t of
             (hh, mm, ss, ns) \<Rightarrow>
               pad 4 (nat y) @ pad 2 m @ pad 2 d @ ''-'' @ pad 2 hh @ pad 2 mm @ pad 2 ss @ ''.'' @
               pad 3 (ns div 1000000)))"

definition zone_text :: "int \<Rightarrow> string" where
  "zone_text zone =
     (if zone = 0 then ''Z''
      else let a = nat \<bar>zone\<bar> div 60
           in (if zone < 0 then ''-'' else ''+'') @ pad 2 (a div 60) @ '':'' @ pad 2 (a mod 60))"

text \<open>Layout \<^verbatim>\<open>time.RFC3339Nano\<close>: the fraction loses its trailing zeros.\<close>

definition fraction :: "nat \<Rightarrow> string" where
  "fraction ns =
     (if ns = 0 then [] else ''.'' @ rev (dropWhile (\<lambda>c. c = CHR ''0'') (rev (pad 9 ns))))"

definition rfc3339nano :: "int \<Rightarrow> int \<Rightarrow> string" where
  "rfc3339nano zone t =
     (case civil ((t div 1000000000 + zone) div 86400) of
        (y, m, d) \<Rightarrow>
          (case clock_parts zone t of
             (hh, mm, ss, ns) \<Rightarrow>
               pad 4 (nat y) @ ''-'' @ pad 2 m @ ''-'' @ pad 2 d @ ''T'' @ pad 2 hh @ '':'' @ pad 2 mm @ '':'' @
               pad 2 ss @ fraction ns @ zone_text zone))"

section \<open>Base64\<close>

definition b64_alphabet :: string where
  "b64_alphabet = ''ABCDEFGHIJKLMNOPQRSTUVWXYZabcdefghijklmnopqrstuvwxyz0123456789+/''"

definition b64_char :: "nat \<Rightarrow> char" where
  "b64_char n = b64_alphabet ! n"

definition b64_three :: "nat \<Rightarrow> nat \<Rightarrow> nat \<Rightarrow> string" where
  "b64_three a b c =
     [b64_char (a div 4), b64_char (a mod 4 * 16 + b div 16), b64_char (b mod 16 * 4 + c div 64), b64_char (c mod 64)]"

fun base64 :: "bytes \<Rightarrow> string" where
  "base64 [] = []"
| "base64 [a] = take 2 (b64_three (unat a) 0 0) @ ''==''"
| "base64 [a, b] = take 3 (b64_three (unat a) (unat b) 0) @ ''=''"
| "base64 (a # b # c # bs) = b64_three (unat a) (unat b) (unat c) @ base64 bs"

text \<open>The reader's side.\<close>

definition b64_val :: "char \<Rightarrow> nat option" where
  "b64_val c = map_of (zip b64_alphabet [0..<64]) c"

definition b64_byte1 :: "nat \<Rightarrow> nat \<Rightarrow> byte" where "b64_byte1 p q = word_of_nat (p * 4 + q div 16)"
definition b64_byte2 :: "nat \<Rightarrow> nat \<Rightarrow> byte" where "b64_byte2 q r = word_of_nat (q mod 16 * 16 + r div 4)"
definition b64_byte3 :: "nat \<Rightarrow> nat \<Rightarrow> byte" where "b64_byte3 r s = word_of_nat (r mod 4 * 64 + s)"

fun unbase64 :: "string \<Rightarrow> bytes option" where
  "unbase64 [] = Some []"
| "unbase64 (p # q # r # s # cs) =
     (case (b64_val p, b64_val q) of
        (Some vp, Some vq) \<Rightarrow>
          if r = CHR ''='' \<and> s = CHR ''='' \<and> cs = [] then Some [b64_byte1 vp vq]
          else (case b64_val r of
                  None \<Rightarrow> None
                | Some vr \<Rightarrow>
                    if s = CHR ''='' \<and> cs = [] then Some [b64_byte1 vp vq, b64_byte2 vq vr]
                    else (case b64_val s of
                            None \<Rightarrow> None
                          | Some vs \<Rightarrow>
                              map_option (\<lambda>bs. b64_byte1 vp vq # b64_byte2 vq vr # b64_byte3 vr vs # bs)
                                (unbase64 cs)))
      | _ \<Rightarrow> None)"
| "unbase64 _ = None"

section \<open>Facts\<close>

text \<open>Plain ASCII without a slash: what times and padded numbers are made of.\<close>

definition stampish :: "string \<Rightarrow> bool" where
  "stampish s \<longleftrightarrow> (\<forall>c \<in> set s. is_digit c \<or> c \<in> set ''-.:+TZ'')"

lemma stampish_simps [simp]:
  "stampish []" "stampish (a @ b) \<longleftrightarrow> stampish a \<and> stampish b"
  "stampish (c # s) \<longleftrightarrow> (is_digit c \<or> c \<in> set ''-.:+TZ'') \<and> stampish s"
  "stampish (pad k n)" "stampish (dec n)"
  using dec_digits [of _ n] by (auto simp: stampish_def pad_def) (auto simp: is_digit_def)

lemma stampish_fraction [simp]: "stampish (fraction n)"
proof -
  have "set (dropWhile P xs) \<subseteq> set xs" for P and xs :: string by (simp add: set_dropWhileD subsetI)
  then have "set (rev (dropWhile P (rev (pad 9 n)))) \<subseteq> set (pad 9 n)" for P by (metis set_rev)
  then have "stampish (rev (dropWhile P (rev (pad 9 n))))" for P
    using stampish_simps(4) [of 9 n] unfolding stampish_def by blast
  then show ?thesis by (simp add: fraction_def)
qed

lemma stampish_zone [simp]: "stampish (zone_text z)"
  by (simp add: zone_text_def Let_def)

lemma stampish_stamps [simp]: "stampish (file_stamp z t)" "stampish (rfc3339nano z t)"
  by (simp_all add: file_stamp_def rfc3339nano_def split: prod.splits)

lemma stampish_chars:
  assumes "stampish s"
  shows "CHR ''/'' \<notin> set s" and "\<forall>c \<in> set s. (of_char c :: nat) < 128"
  using assms by (auto simp: stampish_def is_digit_def)

lemma utf8_ascii:
  assumes "\<forall>c \<in> set s. (of_char c :: nat) < 128"
  shows "utf8_valid (bytes_of s)"
proof (rule utf8_valid_ascii)
  have "byte_of c < 0x80" if "(of_char c :: nat) < 128" for c
    using that by (simp add: byte_of_def word_less_nat_alt unat_of_nat)
  then show "\<forall>b \<in> set (bytes_of s). b < 0x80" using assms by auto
qed

lemma b64_val_char: "n < 64 \<Longrightarrow> b64_val (b64_char n) = Some n"
proof -
  assume n: "n < 64"
  have l: "length b64_alphabet = 64" and d: "distinct b64_alphabet" by (simp_all add: b64_alphabet_def)
  show ?thesis
    using map_of_zip_nth [of b64_alphabet "[0..<64]" n] l d n by (simp add: b64_val_def b64_char_def)
qed

lemma b64_pad [simp]: "b64_val (CHR ''='') = None"
  by (simp add: b64_val_def b64_alphabet_def map_of_zip_is_None)

lemma b64_not_pad [simp]: "n < 64 \<Longrightarrow> b64_char n \<noteq> CHR ''=''"
  using b64_val_char [of n] by auto

lemma b64_char_ascii: "n < 64 \<Longrightarrow> (of_char (b64_char n) :: nat) < 128"
proof -
  assume "n < 64"
  moreover have "length b64_alphabet = 64" by (simp add: b64_alphabet_def)
  ultimately have "b64_char n \<in> set b64_alphabet" unfolding b64_char_def by (metis nth_mem)
  moreover have "\<forall>c \<in> set b64_alphabet. (of_char c :: nat) < 128" by (simp add: b64_alphabet_def)
  ultimately show ?thesis by blast
qed

lemma b64_byte_of_three:
  "k < 16 \<Longrightarrow> b64_byte1 (unat a div 4) (unat a mod 4 * 16 + k) = a"
  "k < 4 \<Longrightarrow> b64_byte2 (j * 16 + unat b div 16) (unat b mod 16 * 4 + k) = b"
  "b64_byte3 (j * 4 + unat c div 64) (unat c mod 64) = c"
proof -
  show "k < 16 \<Longrightarrow> b64_byte1 (unat a div 4) (unat a mod 4 * 16 + k) = a"
  proof -
    assume "k < 16"
    then have "unat a div 4 * 4 + (unat a mod 4 * 16 + k) div 16 = unat a" by simp
    then show ?thesis by (simp only: b64_byte1_def of_nat_unat ucast_id)
  qed
  show "k < 4 \<Longrightarrow> b64_byte2 (j * 16 + unat b div 16) (unat b mod 16 * 4 + k) = b"
  proof -
    assume "k < 4"
    moreover have "unat b div 16 < 16" using unat_byte_less [of b] by (simp add: less_mult_imp_div_less)
    ultimately have "(j * 16 + unat b div 16) mod 16 * 16 + (unat b mod 16 * 4 + k) div 4 = unat b" by simp
    then show ?thesis by (simp only: b64_byte2_def of_nat_unat ucast_id)
  qed
  have "unat c div 64 < 4" using unat_byte_less [of c] by (simp add: less_mult_imp_div_less)
  then have "(j * 4 + unat c div 64) mod 4 * 64 + unat c mod 64 = unat c" by simp
  then show "b64_byte3 (j * 4 + unat c div 64) (unat c mod 64) = c"
    by (simp only: b64_byte3_def of_nat_unat ucast_id)
qed

lemma b64_index: 
  "unat (a :: byte) div 4 < 64" "unat a mod 4 * 16 + unat (b :: byte) div 16 < 64"
  "unat b mod 16 * 4 + unat a div 64 < 64" "unat a mod 64 < 64" "unat b div 16 < 16" "unat b div 64 < 4"
proof -
  have "unat a < 256" "unat b < 256" by simp_all
  then show "unat a div 4 < 64" "unat a mod 4 * 16 + unat b div 16 < 64"
    "unat b mod 16 * 4 + unat a div 64 < 64" "unat a mod 64 < 64" "unat b div 16 < 16" "unat b div 64 < 4"
    by linarith+
qed

lemma unbase64_base64: "unbase64 (base64 bs) = Some bs"
proof (induction bs rule: base64.induct)
  case (2 a)
  show ?case
    using b64_index(1) [of a] b64_index(2) [of a 0] b64_byte_of_three(1) [of 0 a] by (simp add: b64_three_def b64_val_char)
next
  case (3 a b)
  show ?case
    using b64_index(1) [of a] b64_index(2) [of a b] b64_index(3) [of b 0] b64_index(5) [of b]
      b64_byte_of_three(1) [of "unat b div 16" a] b64_byte_of_three(2) [of 0 "unat a mod 4" b]
    by (simp add: b64_three_def b64_val_char)
next
  case (4 a b c bs)
  then show ?case
    using b64_index(1) [of a] b64_index(2) [of a b] b64_index(3) [of b c] b64_index(4) [of c] b64_index(5) [of b]
      b64_index(6) [of c] b64_byte_of_three(1) [of "unat b div 16" a]
      b64_byte_of_three(2) [of "unat c div 64" "unat a mod 4" b] b64_byte_of_three(3) [of "unat b mod 16" c]
    by (simp add: b64_three_def b64_val_char)
qed simp

lemma base64_ascii: "x \<in> set (base64 bs) \<Longrightarrow> (of_char x :: nat) < 128"
proof (induction bs rule: base64.induct)
  case (2 a)
  then show ?case using b64_index(1) [of a] b64_index(2) [of a 0] by (auto simp: b64_three_def b64_char_ascii)
next
  case (3 a b)
  then show ?case
    using b64_index(1) [of a] b64_index(2) [of a b] b64_index(3) [of b 0] by (auto simp: b64_three_def b64_char_ascii)
next
  case (4 a b d bs)
  then show ?case
    using b64_index(1) [of a] b64_index(2) [of a b] b64_index(3) [of b d] b64_index(4) [of d]
    by (auto simp: b64_three_def b64_char_ascii)
qed simp

end
