(* ===== verification/Service.thy ===== *)
theory Service
  imports StreamReceiver InboxBudget Dedupe Client Goformat Json
begin

text \<open>
  The receiving daemon, \<^verbatim>\<open>service.go\<close>: configuration, the stored form of messages and files, and
  the loop that serves one connection, with duplicate suppression, the inbox budget, the
  received-files quota and the stream receiver.  One iteration of the loop is one step of the
  model; the clock does not advance inside it.
\<close>

section \<open>Configuration\<close>

record ServiceConfig =
  cReceivedDir :: string
  cInboxDir :: string
  cIncludeBase64 :: bool
  cInboxMaxFiles :: int
  cInboxMaxBytes :: int
  cDedupeWindow :: int
  cDedupeContentWindow :: int
  cReceivedMaxBytes :: int
  cIdleTimeout :: int

definition DefaultInboxMaxBytes :: int where "DefaultInboxMaxBytes = 256 * 2 ^ 20"
definition DefaultReceivedMaxBytes :: int where "DefaultReceivedMaxBytes = 2 * 2 ^ 30"
definition DefaultIdleTimeout :: int where "DefaultIdleTimeout = 2 * 60 * 1000000000"
definition inboxEvictCheckEvery :: u64 where "inboxEvictCheckEvery = 64"

definition effectiveInboxMaxBytes :: "ServiceConfig \<Rightarrow> int" where
  "effectiveInboxMaxBytes cfg =
     (if cInboxMaxBytes cfg < 0 then 0 else if cInboxMaxBytes cfg = 0 then DefaultInboxMaxBytes
      else cInboxMaxBytes cfg)"

definition effectiveReceivedMaxBytes :: "ServiceConfig \<Rightarrow> int" where
  "effectiveReceivedMaxBytes cfg =
     (if cReceivedMaxBytes cfg < 0 then 0 else if cReceivedMaxBytes cfg = 0 then DefaultReceivedMaxBytes
      else cReceivedMaxBytes cfg)"

definition effectiveIdleTimeout :: "ServiceConfig \<Rightarrow> int" where
  "effectiveIdleTimeout cfg =
     (if cIdleTimeout cfg < 0 then 0 else if cIdleTimeout cfg = 0 then DefaultIdleTimeout
      else cIdleTimeout cfg)"

section \<open>State\<close>

type_synonym event = "string \<times> (string \<times> jval) list"

text \<open>The sequence number \<^verbatim>\<open>seq\<close> is part of the world, which the stream receivers share.\<close>

record Service =
  scfg :: ServiceConfig
  sinbox :: inboxBudget
  sbyID :: "deliveryDedupe option"
  sbyContent :: "deliveryDedupe option"
  sworld :: world
  sevents :: "event list"

definition emptyBudget :: inboxBudget where
  "emptyBudget = \<lparr>bdir = [], known = False, onDisk = 0, pending = 0, inflight = {}, scans = 0\<rparr>"

definition NewService :: "ServiceConfig \<Rightarrow> world \<Rightarrow> Service" where
  "NewService cfg w =
     \<lparr>scfg = cfg, sinbox = emptyBudget,
      sbyID = (let window = effectiveDedupeWindow (cDedupeWindow cfg) in
        if window > 0 then Some (newDeliveryDedupe window dedupeMaxEntries) else None),
      sbyContent = (if cDedupeContentWindow cfg > 0
        then Some (newDeliveryDedupe (cDedupeContentWindow cfg) dedupeMaxEntries) else None),
      sworld = w, sevents = []\<rparr>"

text \<open>
  What surrounds the service: the offset of the local time zone, the user's home directory, an
  event bus or none, the sort of the inbox, free disk space, random bytes, and the frame cap.
\<close>

record svcEnv =
  zone :: int
  userHome :: "string + string"
  hasEvents :: bool
  sortFiles :: sorter
  diskFree :: "fsys \<Rightarrow> string \<Rightarrow> nat option"
  randBytes :: "nat \<Rightarrow> string + bytes"
  frameCap :: u32

definition publish :: "svcEnv \<Rightarrow> event \<Rightarrow> Service \<Rightarrow> Service" where
  "publish env e s = (if hasEvents env then s\<lparr>sevents := sevents s @ [e]\<rparr> else s)"

abbreviation sfs :: "Service \<Rightarrow> fsys" where
  "sfs s \<equiv> wfs (sworld s)"

definition set_fs :: "fsys \<Rightarrow> Service \<Rightarrow> Service" where
  "set_fs fs s = s\<lparr>sworld := (sworld s)\<lparr>wfs := fs\<rparr>\<rparr>"

text \<open>\<^verbatim>\<open>s.seq.Add(1)\<close>.\<close>

definition next_seq :: "Service \<Rightarrow> u64 \<times> Service" where
  "next_seq s = (wseq (sworld s) + 1, s\<lparr>sworld := (sworld s)\<lparr>wseq := wseq (sworld s) + 1\<rparr>\<rparr>)"

section \<open>Directories and names\<close>

definition defaultDir :: "svcEnv \<Rightarrow> string \<Rightarrow> string \<Rightarrow> string + string" where
  "defaultDir env cfgDir sub =
     (if cfgDir \<noteq> [] then Inr cfgDir
      else map_sum ((@) ''home dir: '') (\<lambda>h. filepath_Join [h, ''.pilot'', sub]) (userHome env))"

definition svc_receivedDir :: "svcEnv \<Rightarrow> ServiceConfig \<Rightarrow> string + string" where
  "svc_receivedDir env cfg = defaultDir env (cReceivedDir cfg) ''received''"

definition svc_inboxDir :: "svcEnv \<Rightarrow> ServiceConfig \<Rightarrow> string + string" where
  "svc_inboxDir env cfg = defaultDir env (cInboxDir cfg) ''inbox''"

text \<open>The unique name of a received file; the extension stays at the end.\<close>

definition streamNameSuffix :: "int \<Rightarrow> int \<Rightarrow> u64 \<Rightarrow> string \<Rightarrow> string" where
  "streamNameSuffix z t seq base =
     (let ext = filepath_Ext base; stem = take (length base - length ext) base
      in stem @ ''-'' @ file_stamp z t @ ''-'' @ pad 6 (unat seq) @ ext)"

text \<open>The name a receiver gives a file when its owner passes no function for it.\<close>

definition defaultStreamName :: "int \<Rightarrow> int \<Rightarrow> string \<Rightarrow> string" where
  "defaultStreamName z t base =
     (let ext = filepath_Ext base; stem = take (length base - length ext) base
      in stem @ ''-'' @ file_stamp z t @ ext)"

definition inboxName :: "int \<Rightarrow> int \<Rightarrow> u64 \<Rightarrow> u32 \<Rightarrow> string" where
  "inboxName z t seq ty = TypeName ty @ ''-'' @ file_stamp z t @ ''-'' @ pad 6 (unat seq) @ ''.json''"

definition dirTotalBytes :: "string \<Rightarrow> fsys \<Rightarrow> int \<times> fsys" where
  "dirTotalBytes dir fs = (case WalkDir dir fs of (es, fs1) \<Rightarrow> (sum_list (map snd es), fs1))"

definition addCorrelation :: "Frame \<Rightarrow> (string \<times> jval) list" where
  "addCorrelation f =
     (if MessageID f \<noteq> [] then [(''message_id'', JStr (MessageID f))] else []) @
     (if ReplyTo f \<noteq> [] then [(''reply_to'', JStr (ReplyTo f))] else [])"

text \<open>The same tags as attributes of a line of the log: keys and values in turn.\<close>

definition correlationAttrs :: "Frame \<Rightarrow> string list" where
  "correlationAttrs f =
     (if MessageID f \<noteq> [] then [''message_id'', MessageID f] else []) @
     (if ReplyTo f \<noteq> [] then [''reply_to'', ReplyTo f] else [])"

section \<open>Received files\<close>

definition quotaError :: "int \<Rightarrow> nat \<Rightarrow> int \<Rightarrow> string" where
  "quotaError current n quota =
     ''received-files quota exceeded: '' @ dec_int current @ '' + '' @ dec n @ '' > '' @ dec_int quota"

definition checkReceivedQuota :: "svcEnv \<Rightarrow> string \<Rightarrow> Frame \<Rightarrow> Service \<Rightarrow> string option \<times> Service" where
  "checkReceivedQuota env dir f s =
     (let quota = effectiveReceivedMaxBytes (scfg s); n = length (Payload f) in
      if quota > 0 then
        (case dirTotalBytes dir (sfs s) of
           (current, fs1) \<Rightarrow>
             let s1 = set_fs fs1 s in
             if i64 (current + int n) > quota then
               (Some (quotaError current n quota),
                publish env (''received.full'', [(''type'', JStr (TypeName (Type f))),
                  (''frame_bytes'', JNum (dec n)), (''max_bytes'', JNum (dec_int quota))]) s1)
             else (None, s1))
      else (None, s))"

text \<open>The path of the stored file, or the text of an error.\<close>

definition prepareReceivedFile :: "svcEnv \<Rightarrow> Frame \<Rightarrow> Service \<Rightarrow> (string + string) \<times> Service" where
  "prepareReceivedFile env f s =
     (case svc_receivedDir env (scfg s) of
        Inl e \<Rightarrow> (Inl e, s)
      | Inr dir \<Rightarrow>
          (case os_MkdirAll dir (sfs s) of
             (Some e, fs1) \<Rightarrow> (Inl (''mkdir: '' @ err_text e), set_fs fs1 s)
           | (None, fs1) \<Rightarrow>
               (case checkReceivedQuota env dir f (set_fs fs1 s) of
                  (Some e, s1) \<Rightarrow> (Inl e, s1)
                | (None, s1) \<Rightarrow>
                    (case next_seq s1 of
                       (seq, s2) \<Rightarrow>
                         let dest = filepath_Join
                               [dir, streamNameSuffix (zone env) (now (sworld s2)) seq (filepath_Base (Filename f))]
                         in (case os_WriteFile dest (Payload f) (sfs s2) of
                               (Some e, fs2) \<Rightarrow> (Inl (''write: '' @ err_text e), set_fs (snd (os_Remove dest fs2)) s2)
                             | (None, fs2) \<Rightarrow> (Inr dest, set_fs fs2 s2))))))"

definition commitReceived :: "svcEnv \<Rightarrow> Frame \<Rightarrow> string \<Rightarrow> Service \<Rightarrow> Service" where
  "commitReceived env f dest s =
     publish env (''file.received'', [(''filename'', JStr (filepath_Base (Filename f))),
       (''size'', JNum (dec (length (Payload f)))), (''path'', JStr dest)] @ addCorrelation f) s"

text \<open>A removal whose error counts unless the file is already gone.\<close>

definition removeError :: "oserr option \<Rightarrow> oserr option" where
  "removeError r = (case r of Some (OsErr ENOENT _) \<Rightarrow> None | _ \<Rightarrow> r)"

definition rollbackReceived :: "string \<Rightarrow> Service \<Rightarrow> oserr option \<times> Service" where
  "rollbackReceived dest s = (case os_Remove dest (sfs s) of (r, fs1) \<Rightarrow> (removeError r, set_fs fs1 s))"

definition saveReceivedFile :: "svcEnv \<Rightarrow> Frame \<Rightarrow> Service \<Rightarrow> string option \<times> Service" where
  "saveReceivedFile env f s =
     (case prepareReceivedFile env f s of
        (Inl e, s1) \<Rightarrow> (Some e, s1)
      | (Inr dest, s1) \<Rightarrow> (None, commitReceived env f dest s1))"

section \<open>Inbox messages\<close>

text \<open>
  The JSON record of a message.  \<^verbatim>\<open>json.Marshal\<close> prints the members of a map in the order of
  their keys, which is the order here.
\<close>

definition asBase64 :: "ServiceConfig \<Rightarrow> Frame \<Rightarrow> bool" where
  "asBase64 cfg f \<longleftrightarrow> cIncludeBase64 cfg \<or> Type f = TypeBinary \<or> \<not> utf8_valid (Payload f)"

definition inboxRecord :: "ServiceConfig \<Rightarrow> string \<Rightarrow> string \<Rightarrow> Frame \<Rightarrow> (string \<times> jval) list" where
  "inboxRecord cfg from ts f =
     [(''bytes'', JNum (dec (length (Payload f))))] @
     (if asBase64 cfg f
      then [(''data_b64'', JStr (base64 (Payload f))), (''data_encoding'', JStr ''base64'')]
      else [(''data'', JStr (string_of (Payload f))), (''data_encoding'', JStr ''utf8'')]) @
     [(''from'', JStr from)] @
     (if MessageID f \<noteq> [] then [(''message_id'', JStr (MessageID f))] else []) @
     [(''received_at'', JStr ts)] @
     (if ReplyTo f \<noteq> [] then [(''reply_to'', JStr (ReplyTo f))] else []) @
     [(''type'', JStr (TypeName (Type f)))]"

definition inboxErr_text :: "inboxErr \<Rightarrow> string" where
  "inboxErr_text e =
     ''inbox byte budget exceeded: '' @
     (case e of
        LargerThanCap sz mx \<Rightarrow> ''a '' @ dec_int sz @ ''-byte message is larger than the '' @ dec_int mx @ ''-byte cap''
      | BeingWritten p sz mx \<Rightarrow> dec_int p @ '' bytes being written + '' @ dec_int sz @ '' > '' @ dec_int mx
      | OverCap used sz mx \<Rightarrow> dec_int used @ '' + '' @ dec_int sz @ '' > '' @ dec_int mx)"

text \<open>The reservation, when there is a cap.\<close>

definition reserveMessage ::
  "svcEnv \<Rightarrow> string \<Rightarrow> string \<Rightarrow> string \<Rightarrow> Frame \<Rightarrow> int \<Rightarrow> Service \<Rightarrow> string option \<times> Service" where
  "reserveMessage env from dir dest f sz s =
     (let mx = effectiveInboxMaxBytes (scfg s) in
      if mx > 0 then
        (case reserveInbox (sortFiles env) dir dest sz mx (sinbox s) (sfs s) of
           (r, b, fs1) \<Rightarrow>
             let s1 = (set_fs fs1 s)\<lparr>sinbox := b\<rparr> in
             case r of
               Some e \<Rightarrow>
                 (Some (inboxErr_text e),
                  publish env (''inbox.full'', [(''from'', JStr from), (''type'', JStr (TypeName (Type f))),
                    (''frame_bytes'', JNum (dec (length (Payload f)))), (''max_bytes'', JNum (dec_int mx))]) s1)
             | None \<Rightarrow> (None, s1))
      else (None, s))"

definition settleMessage :: "string \<Rightarrow> int \<Rightarrow> bool \<Rightarrow> Service \<Rightarrow> Service" where
  "settleMessage dest sz written s =
     (if effectiveInboxMaxBytes (scfg s) > 0 then s\<lparr>sinbox := inboxWriteDone dest sz written (sinbox s)\<rparr> else s)"

text \<open>What is known of a stored message: directory, path, size of the record and sequence number.\<close>

type_synonym delivery = "string \<times> string \<times> int \<times> u64"

definition prepareInboxMessage :: "svcEnv \<Rightarrow> string \<Rightarrow> Frame \<Rightarrow> Service \<Rightarrow> (string + delivery) \<times> Service" where
  "prepareInboxMessage env from f s =
     (case svc_inboxDir env (scfg s) of
        Inl e \<Rightarrow> (Inl e, s)
      | Inr dir \<Rightarrow>
          (case os_MkdirAll dir (sfs s) of
             (Some e, fs1) \<Rightarrow> (Inl (''mkdir: '' @ err_text e), set_fs fs1 s)
           | (None, fs1) \<Rightarrow>
               let s1 = set_fs fs1 s; ts = now (sworld s1);
                   record_bytes = bytes_of (json_object (inboxRecord (scfg s) from (rfc3339nano (zone env) ts) f));
                   sz = int (length record_bytes)
               in (case next_seq s1 of
                     (seq, s2) \<Rightarrow>
                       let dest = filepath_Join [dir, inboxName (zone env) ts seq (Type f)]
                       in (case reserveMessage env from dir dest f sz s2 of
                             (Some e, s3) \<Rightarrow> (Inl e, s3)
                           | (None, s3) \<Rightarrow>
                               (case os_WriteFile dest record_bytes (sfs s3) of
                                  (Some e, fs4) \<Rightarrow>
                                    (Inl (''write: '' @ err_text e), settleMessage dest sz False (set_fs fs4 s3))
                                | (None, fs4) \<Rightarrow>
                                    (Inr (dir, dest, sz, seq), settleMessage dest sz True (set_fs fs4 s3)))))))"

definition commitInbox :: "svcEnv \<Rightarrow> string \<Rightarrow> Frame \<Rightarrow> delivery \<Rightarrow> Service \<Rightarrow> Service" where
  "commitInbox env from f d s =
     (case d of
        (dir, dest, sz, seq) \<Rightarrow>
          let s1 = publish env (''message.received'', [(''type'', JStr (TypeName (Type f))), (''from'', JStr from),
                (''size'', JNum (dec (length (Payload f))))] @ addCorrelation f) s
          in if seq mod inboxEvictCheckEvery = 0 then
               (case evictInboxOverflow (sortFiles env) (cInboxMaxFiles (scfg s1)) (effectiveInboxMaxBytes (scfg s1))
                       dir (sinbox s1) (sfs s1) of
                  (b, fs1) \<Rightarrow> (set_fs fs1 s1)\<lparr>sinbox := b\<rparr>)
             else s1)"

definition rollbackInbox :: "delivery \<Rightarrow> Service \<Rightarrow> oserr option \<times> Service" where
  "rollbackInbox d s =
     (case d of
        (dir, dest, sz, seq) \<Rightarrow>
          (case os_Remove dest (sfs s) of
             (r, fs1) \<Rightarrow>
               let s1 = set_fs fs1 s
               in (removeError r,
                   if r = None \<and> effectiveInboxMaxBytes (scfg s) > 0
                   then s1\<lparr>sinbox := inboxFileRemoved sz (sinbox s1)\<rparr> else s1)))"

definition saveInboxMessage :: "svcEnv \<Rightarrow> string \<Rightarrow> Frame \<Rightarrow> Service \<Rightarrow> string option \<times> Service" where
  "saveInboxMessage env from f s =
     (case prepareInboxMessage env from f s of
        (Inl e, s1) \<Rightarrow> (Some e, s1)
      | (Inr d, s1) \<Rightarrow> (None, commitInbox env from f d s1))"

section \<open>One connection\<close>

text \<open>What \<^verbatim>\<open>handleConn\<close> keeps: the connection, the stream receiver once there is one, and the claim.\<close>

record connState =
  cconn :: conn
  csr :: "streamReceiver option"
  cclaim :: "(dedupeCache \<times> dedupeKey \<times> eptr) option"

definition newConn :: "conn \<Rightarrow> connState" where
  "newConn c = \<lparr>cconn = c, csr = None, cclaim = None\<rparr>"

definition getCache :: "dedupeCache \<Rightarrow> Service \<Rightarrow> deliveryDedupe option" where
  "getCache c s = (case c of ByID \<Rightarrow> sbyID s | ByContent \<Rightarrow> sbyContent s)"

definition setCache :: "dedupeCache \<Rightarrow> deliveryDedupe \<Rightarrow> Service \<Rightarrow> Service" where
  "setCache c d s = (case c of ByID \<Rightarrow> s\<lparr>sbyID := Some d\<rparr> | ByContent \<Rightarrow> s\<lparr>sbyContent := Some d\<rparr>)"

definition answer :: "svcEnv \<Rightarrow> Frame \<Rightarrow> connState \<Rightarrow> error option \<times> connState" where
  "answer env f cs =
     (case WriteFrame (frameCap env) (cwr (cconn cs)) f of
        (r, w) \<Rightarrow> (r, cs\<lparr>cconn := (cconn cs)\<lparr>cwr := w\<rparr>\<rparr>))"

definition textFrame :: "string \<Rightarrow> Frame" where
  "textFrame m = mkFrame TypeText (bytes_of m)"

text \<open>
  A claim as it is seen by one frame handled as a whole: a delivery that another connection is
  storing at this moment would be waited for, and the wait ends with the connection's context.
\<close>

definition claimNow :: "int \<Rightarrow> deliveryDedupe \<Rightarrow> dedupeKey \<Rightarrow> (claim_state \<times> deliveryDedupe) option" where
  "claimNow t d key =
     (case claim_begin t d key of
        Some (Waiting k e, d1) \<Rightarrow>
          Some (if edone (dheap d1 ! e) then claim_recheck d1 k e else Cancelled, d1)
      | r \<Rightarrow> r)"

definition finishClaim :: "bool \<Rightarrow> string \<Rightarrow> connState \<Rightarrow> Service \<Rightarrow> (connState \<times> Service) option" where
  "finishClaim stored_it ack cs s =
     (case cclaim cs of
        None \<Rightarrow> Some (cs, s)
      | Some (c, k, e) \<Rightarrow>
          (case getCache c s of
             None \<Rightarrow> None
           | Some d \<Rightarrow>
               map_option (\<lambda>(_, d1). (cs\<lparr>cclaim := None\<rparr>, setCache c d1 s))
                 (claim_finish (now (sworld s)) d (Some (k, e)) stored_it ack)))"

subsection \<open>Streamed files\<close>

text \<open>
  The constructors of a receiver: what it is given, and its state.  Without a function for final
  names it uses \<open>defaultStreamName\<close>, which takes no sequence number; \<^verbatim>\<open>onSaved\<close> is not kept, because the
  handlers return the saved files.
\<close>

type_synonym hook = "bytes \<Rightarrow> string \<Rightarrow> string \<Rightarrow> nat \<Rightarrow> string option"

definition NewStreamReceiverWithQuotaAndPrepareAndCommit ::
  "svcEnv \<Rightarrow> string \<Rightarrow> (int \<Rightarrow> u64 \<Rightarrow> string \<Rightarrow> string) option \<Rightarrow> hook option \<Rightarrow> hook option \<Rightarrow> int \<Rightarrow>
   srEnv \<times> streamReceiver" where
  "NewStreamReceiverWithQuotaAndPrepareAndCommit env dir suffixOf prepare commit q =
     (\<lparr>nameSuffix = (case suffixOf of None \<Rightarrow> (\<lambda>t _. defaultStreamName (zone env) t) | Some g \<Rightarrow> g),
       onPrepare = prepare, onCommit = commit, freeDiskBytes = diskFree env, randSuffix = randBytes env\<rparr>,
      newReceiver dir q)"

definition NewStreamReceiverWithQuotaAndCommit ::
  "svcEnv \<Rightarrow> string \<Rightarrow> (int \<Rightarrow> u64 \<Rightarrow> string \<Rightarrow> string) option \<Rightarrow> hook option \<Rightarrow> int \<Rightarrow> srEnv \<times> streamReceiver" where
  "NewStreamReceiverWithQuotaAndCommit env dir suffixOf commit q =
     NewStreamReceiverWithQuotaAndPrepareAndCommit env dir suffixOf None commit q"

definition NewStreamReceiverWithQuota ::
  "svcEnv \<Rightarrow> string \<Rightarrow> (int \<Rightarrow> u64 \<Rightarrow> string \<Rightarrow> string) option \<Rightarrow> int \<Rightarrow> srEnv \<times> streamReceiver" where
  "NewStreamReceiverWithQuota env dir suffixOf q = NewStreamReceiverWithQuotaAndCommit env dir suffixOf None q"

definition NewStreamReceiver ::
  "svcEnv \<Rightarrow> string \<Rightarrow> (int \<Rightarrow> u64 \<Rightarrow> string \<Rightarrow> string) option \<Rightarrow> srEnv \<times> streamReceiver" where
  "NewStreamReceiver env dir suffixOf = NewStreamReceiverWithQuotaAndCommit env dir suffixOf None 0"

text \<open>What the receivers of the service are given.\<close>

definition streamEnv :: "svcEnv \<Rightarrow> srEnv" where
  "streamEnv env = \<lparr>nameSuffix = streamNameSuffix (zone env), onPrepare = None, onCommit = None,
     freeDiskBytes = diskFree env, randSuffix = randBytes env\<rparr>"

lemma service_receiver [simp]:
  "NewStreamReceiverWithQuota env dir (Some (streamNameSuffix (zone env))) q = (streamEnv env, newReceiver dir q)"
  by (simp add: NewStreamReceiverWithQuota_def NewStreamReceiverWithQuotaAndCommit_def
      NewStreamReceiverWithQuotaAndPrepareAndCommit_def streamEnv_def)

fun publishSaved :: "svcEnv \<Rightarrow> saved \<Rightarrow> Service \<Rightarrow> Service" where
  "publishSaved env [] s = s"
| "publishSaved env ((name, path, n) # sv) s =
     publishSaved env sv (publish env (''file.received'', [(''filename'', JStr name), (''size'', JNum (dec n)),
       (''path'', JStr path)]) s)"

text \<open>The receiver of the connection, made at its first stream frame; or the text of an error.\<close>

definition ensureReceiver ::
  "svcEnv \<Rightarrow> connState \<Rightarrow> Service \<Rightarrow> (string + streamReceiver) \<times> Service" where
  "ensureReceiver env cs s =
     (case csr cs of
        Some sr \<Rightarrow> (Inr sr, s)
      | None \<Rightarrow>
          (case svc_receivedDir env (scfg s) of
             Inl e \<Rightarrow> (Inl (''ERR received dir: '' @ e), s)
           | Inr dir \<Rightarrow>
               (case os_MkdirAll dir (sfs s) of
                  (Some e, fs1) \<Rightarrow> (Inl (''ERR mkdir: '' @ err_text e), set_fs fs1 s)
                | (None, fs1) \<Rightarrow>
                    (Inr (snd (NewStreamReceiverWithQuota env dir (Some (streamNameSuffix (zone env)))
                       (effectiveReceivedMaxBytes (scfg s)))), set_fs fs1 s))))"

text \<open>The first component says whether the connection goes on.\<close>

definition handleStream :: "svcEnv \<Rightarrow> Frame \<Rightarrow> connState \<Rightarrow> Service \<Rightarrow> bool \<times> connState \<times> Service" where
  "handleStream env f cs s =
     (case ensureReceiver env cs s of
        (Inl e, s1) \<Rightarrow> (False, snd (answer env (textFrame e) cs), s1)
      | (Inr sr, s1) \<Rightarrow>
          let cs1 = cs\<lparr>csr := Some sr\<rparr> in
          (case decodeStreamFrame (Some f) of
             None \<Rightarrow>
               (True, snd (answer env (encodeComplete (replicate 16 0) False ''malformed stream frame'') cs1), s1)
           | Some _ \<Rightarrow>
               (case HandleFrame (streamEnv env) f sr (sworld s1) of
                  (resp, sv, sr1, w1) \<Rightarrow>
                    let s2 = publishSaved env sv (s1\<lparr>sworld := w1\<rparr>); cs2 = cs1\<lparr>csr := Some sr1\<rparr> in
                    (case resp of
                       None \<Rightarrow> (True, cs2, s2)
                     | Some g \<Rightarrow> (case answer env g cs2 of (r, cs3) \<Rightarrow> (r = None, cs3, s2))))))"

subsection \<open>Messages and files\<close>

definition trace_err_text :: "error \<Rightarrow> string" where
  "trace_err_text e =
     (case e of
        NotTrace t \<Rightarrow> ''expected TypeTrace, got '' @ dec (unat t)
      | TraceTooShort n \<Rightarrow> ''trace payload too short: '' @ dec n @ '' bytes''
      | _ \<Rightarrow> [])"

definition ackText :: "u32 \<Rightarrow> nat \<Rightarrow> string option \<Rightarrow> string" where
  "ackText ty n saveErr =
     (case saveErr of
        None \<Rightarrow> ''ACK '' @ TypeName ty @ '' '' @ dec n @ '' bytes''
      | Some e \<Rightarrow> ''ERR '' @ TypeName ty @ '' save failed: '' @ e)"

definition traceTiming :: "TraceFrame \<Rightarrow> int \<Rightarrow> string \<Rightarrow> Frame" where
  "traceTiming tf t innerAck =
     mkFrame TypeJSON (bytes_of (json_object
       [(''ack_sent_at_ns'', JNum (dec_int t)), (''inbox_written_at_ns'', JNum (dec_int t)),
        (''inner_ack'', JStr innerAck), (''received_at_ns'', JNum (dec_int t)),
        (''sent_at_ns'', JNum (dec_int (SentAtNs tf)))]))"

definition saveTrace :: "svcEnv \<Rightarrow> string \<Rightarrow> Frame \<Rightarrow> Service \<Rightarrow> Frame \<times> Service" where
  "saveTrace env from f s =
     (case ReadTracePayload f of
        Inl e \<Rightarrow> (textFrame (''ERR trace parse: '' @ trace_err_text e), s)
      | Inr tf \<Rightarrow>
          let inner = \<lparr>Type = InnerType tf, Payload = TracePayload tf, Filename = [],
                MessageID = MessageID f, ReplyTo = ReplyTo f\<rparr>
          in (case saveInboxMessage env from inner s of
                (e, s1) \<Rightarrow>
                  (traceTiming tf (now (sworld s)) (ackText (InnerType tf) (length (TracePayload tf)) e), s1)))"

text \<open>The error of the save, the answer where it is not the generic one, and the new state.\<close>

definition saveFrame :: "svcEnv \<Rightarrow> string \<Rightarrow> Frame \<Rightarrow> Service \<Rightarrow> (string option \<times> Frame option) \<times> Service" where
  "saveFrame env from f s =
     (if Type f = TypeFile then
        (if Filename f \<noteq> []
         then (case saveReceivedFile env f s of (e, s1) \<Rightarrow> ((e, None), s1)) else ((None, None), s))
      else if Type f = TypeText \<or> Type f = TypeJSON \<or> Type f = TypeBinary then
        (case saveInboxMessage env from f s of (e, s1) \<Rightarrow> ((e, None), s1))
      else if Type f = TypeTrace then
        (case saveTrace env from f s of (a, s1) \<Rightarrow> ((None, Some a), s1))
      else ((Some (''unsupported frame type '' @ dec (unat (Type f))), None), s))"

text \<open>An acknowledgement carries no tags, so its write can only fail with an I/O error.\<close>

definition write_err_text :: "error \<Rightarrow> string" where
  "write_err_text e =
     (case e of Io EOF \<Rightarrow> ''EOF'' | Io ErrUnexpectedEOF \<Rightarrow> ''unexpected EOF'' | Io (IOErr m) \<Rightarrow> m | _ \<Rightarrow> [])"

definition ackFrameFor :: "Frame \<Rightarrow> string option \<Rightarrow> Frame option \<Rightarrow> Frame" where
  "ackFrameFor f saveErr special =
     (case special of Some a \<Rightarrow> a | None \<Rightarrow> textFrame (ackText (Type f) (length (Payload f)) saveErr))"

definition storeAndAck ::
  "svcEnv \<Rightarrow> string \<Rightarrow> Frame \<Rightarrow> connState \<Rightarrow> Service \<Rightarrow> (bool \<times> connState \<times> Service) option" where
  "storeAndAck env from f cs s =
     (case saveFrame env from f s of
        ((saveErr, special), s1) \<Rightarrow>
          let ack = ackFrameFor f saveErr special in
          (case finishClaim (saveErr = None) (string_of (Payload ack)) cs s1 of
             None \<Rightarrow> None
           | Some (cs2, s2) \<Rightarrow>
               (case answer env ack cs2 of
                  (None, cs3) \<Rightarrow> Some (True, cs3, s2)
                | (Some e, cs3) \<Rightarrow>
                    Some (False, cs3, publish env (''dataexchange.ack_failed'',
                      [(''remote'', JStr from), (''frame_type'', JStr (TypeName (Type f))),
                       (''error'', JStr (write_err_text e))]) s2))))"

subsection \<open>The loop\<close>

definition processFrame ::
  "svcEnv \<Rightarrow> string \<Rightarrow> Frame \<Rightarrow> connState \<Rightarrow> Service \<Rightarrow> (bool \<times> connState \<times> Service) option" where
  "processFrame env from f cs s =
     (if Type f = TypeFileStream then Some (handleStream env f cs s) else storeAndAck env from f cs s)"

text \<open>One iteration after a successful read; \<open>None\<close> is a run-time panic.\<close>

definition serveFrame ::
  "svcEnv \<Rightarrow> string \<Rightarrow> Frame \<Rightarrow> connState \<Rightarrow> Service \<Rightarrow> (bool \<times> connState \<times> Service) option" where
  "serveFrame env from f cs s =
     (case dedupeCacheFor (sbyID s \<noteq> None) (sbyContent s \<noteq> None) f of
        None \<Rightarrow> processFrame env from f cs s
      | Some c \<Rightarrow>
          (case claimNow (now (sworld s)) (the (getCache c s)) (deliveryKeyFor from f) of
             None \<Rightarrow> None
           | Some (st, d) \<Rightarrow>
               let s1 = setCache c d s in
               (case st of
                  Holding k e \<Rightarrow> processFrame env from f (cs\<lparr>cclaim := Some (c, k, e)\<rparr>) s1
                | Duplicated k a \<Rightarrow>
                    (case answer env (textFrame (a @ duplicateAckSuffix)) (cs\<lparr>cclaim := None\<rparr>) of
                       (r, cs1) \<Rightarrow> Some (r = None, cs1, s1))
                | _ \<Rightarrow> Some (False, cs\<lparr>cclaim := None\<rparr>, s1))))"

text \<open>The deferred calls: an open claim is given back, the stream receiver is closed.\<close>

definition closeConn :: "connState \<Rightarrow> Service \<Rightarrow> (connState \<times> Service) option" where
  "closeConn cs s =
     (case finishClaim False [] cs s of
        None \<Rightarrow> None
      | Some (cs1, s1) \<Rightarrow>
          (case csr cs1 of
             None \<Rightarrow> Some (cs1, s1)
           | Some sr \<Rightarrow>
               (case Close sr (sworld s1) of
                  (sr1, w1) \<Rightarrow> Some (cs1\<lparr>csr := Some sr1\<rparr>, s1\<lparr>sworld := w1\<rparr>))))"

lemma answer_reader [simp]: "crd (cconn (snd (answer env f cs))) = crd (cconn cs)"
  by (simp add: answer_def split: prod.split)

lemma answer_readerE: "answer env f cs = (r, cs') \<Longrightarrow> crd (cconn cs') = crd (cconn cs)"
  by (metis answer_reader snd_conv)

lemma finishClaim_conn: "finishClaim b a cs s = Some (cs', s') \<Longrightarrow> cconn cs' = cconn cs \<and> csr cs' = csr cs"
  by (auto simp: finishClaim_def split: option.splits prod.splits)

lemma handleStream_reader: "handleStream env f cs s = (b, cs', s') \<Longrightarrow> crd (cconn cs') = crd (cconn cs)"
  by (auto simp: handleStream_def Let_def split: prod.splits sum.splits option.splits dest!: answer_readerE)

lemma storeAndAck_reader: "storeAndAck env from f cs s = Some (b, cs', s') \<Longrightarrow> crd (cconn cs') = crd (cconn cs)"
  by (auto simp: storeAndAck_def Let_def split: prod.splits option.splits dest!: answer_readerE finishClaim_conn)

lemma processFrame_reader: "processFrame env from f cs s = Some (b, cs', s') \<Longrightarrow> crd (cconn cs') = crd (cconn cs)"
  by (auto simp: processFrame_def dest: handleStream_reader storeAndAck_reader split: if_splits)

lemma serveFrame_reader:
  assumes "serveFrame env from f cs s = Some (b, cs', s')"
  shows "crd (cconn cs') = crd (cconn cs)"
  using assms
  by (auto simp: serveFrame_def Let_def split: option.splits prod.splits claim_state.splits
      dest!: processFrame_reader answer_readerE)

function handleConn :: "svcEnv \<Rightarrow> string \<Rightarrow> connState \<Rightarrow> Service \<Rightarrow> (connState \<times> Service) option" where
  "handleConn env from cs s =
     (case ReadFrame (frameCap env) (crd (cconn cs)) of
        (Inl e, r) \<Rightarrow> closeConn (cs\<lparr>cconn := (cconn cs)\<lparr>crd := r\<rparr>\<rparr>) s
      | (Inr f, r) \<Rightarrow>
          (case serveFrame env from f (cs\<lparr>cconn := (cconn cs)\<lparr>crd := r\<rparr>\<rparr>) s of
             None \<Rightarrow> None
           | Some (True, cs1, s1) \<Rightarrow> handleConn env from cs1 s1
           | Some (False, cs1, s1) \<Rightarrow> closeConn cs1 s1))"
  by pat_completeness auto
termination
  by (relation "measure (\<lambda>(env, from, cs, s). length (rbuf (crd (cconn cs))))")
    (auto dest!: serveFrame_reader ReadFrame_shorter [OF sym])

declare handleConn.simps [simp del]

end
