(* ===== verification/StreamProps.thy ===== *)
theory StreamProps
  imports StreamReceiver
begin

text \<open>
  What the receiver of a chunked transfer guarantees: bounds that hold whatever a peer sends and
  whatever fails, integrity of what becomes visible, and delivery of the content.
\<close>

section \<open>Handles\<close>

text \<open>Opening or closing a handle changes nothing else in the world, and no other handle.\<close>

lemma closeFile_simps [simp]:
  "wfs (closeFile h w) = wfs w" "claims (closeFile h w) = claims w" "active (closeFile h w) = active w"
  "wseq (closeFile h w) = wseq w" "now (closeFile h w) = now w"
  "length (handles (closeFile h w)) = length (handles w)"
  by (simp_all add: closeFile_def)

lemma isOpen_closeFile [simp]: "isOpen g (closeFile h w) \<longleftrightarrow> isOpen g w \<and> g \<noteq> h"
  by (cases "g = h") (auto simp: isOpen_def closeFile_def)

lemma isOpen_update [simp]:
  "isOpen h (w\<lparr>wfs := x\<rparr>) = isOpen h w" "isOpen h (w\<lparr>claims := c\<rparr>) = isOpen h w"
  "isOpen h (w\<lparr>active := m\<rparr>) = isOpen h w" "isOpen h (w\<lparr>wseq := n\<rparr>) = isOpen h w"
  by (simp_all add: isOpen_def)

lemma wfs_release_close [simp]: "wfs (release t (closeFile h w)) = wfs (release t w)"
  by (simp add: release_def releasePartial_def unclaimPartial_def try_remove_def Let_def)

lemma openFile_isOpen:
  assumes "openFile w = (h, w')"
  shows "isOpen g w' \<longleftrightarrow> isOpen g w \<or> g = h" and "\<not> isOpen h w" and "wfs w' = wfs w"
    and "claims w' = claims w" and "active w' = active w" and "wseq w' = wseq w" and "h = length (handles w)"
  using assms by (auto simp: isOpen_def openFile_def nth_append less_Suc_eq)

section \<open>Bounds\<close>

text \<open>The bounds of one transfer: the cursor, the buffered chunks and their byte count.\<close>

definition tinv :: "recvTransfer \<Rightarrow> bool" where
  "tinv t \<longleftrightarrow> tcursor t \<le> tsize t \<and> distinct (map fst (tpending t)) \<and>
     tpendBytes t = sum_list (map (length \<circ> snd) (tpending t)) \<and> tpendBytes t \<le> maxPendingBytes \<and>
     (\<forall>(off, d) \<in> set (tpending t). off + length d \<le> tsize t)"

definition srinv :: "streamReceiver \<Rightarrow> bool" where
  "srinv sr \<longleftrightarrow> distinct (map fst (transfers sr)) \<and> length (transfers sr) \<le> maxConcurrentTransfers \<and>
     (\<forall>(i, t) \<in> set (transfers sr). tinv t)"

lemma adel_simps [simp]:
  "map_of (adel k xs) j = (if j = k then None else map_of xs j)"
  "distinct (map fst xs) \<Longrightarrow> distinct (map fst (adel k xs))"
  "length (adel k xs) \<le> length xs" "x \<in> set (adel k xs) \<longleftrightarrow> x \<in> set xs \<and> fst x \<noteq> k"
proof -
  show "map_of (adel k xs) j = (if j = k then None else map_of xs j)"
    by (induction xs) (auto simp: adel_def)
qed (auto simp: adel_def distinct_map_filter)

lemma aput_adel: "aput k v xs = (k, v) # adel k xs"
  by (simp add: aput_def adel_def)

lemma aput_simps [simp]:
  "map_of (aput k v xs) j = (if j = k then Some v else map_of xs j)"
  "distinct (map fst xs) \<Longrightarrow> distinct (map fst (aput k v xs))"
  "x \<in> set (aput k v xs) \<longleftrightarrow> x = (k, v) \<or> x \<in> set xs \<and> fst x \<noteq> k"
  by (auto simp: aput_adel)

lemma aput_length:
  assumes "distinct (map fst xs)"
  shows "length (aput k v xs) = (if map_of xs k = None then Suc (length xs) else length xs)"
  using assms
proof (induction xs)
  case (Cons x xs)
  obtain j u where x: "x = (j, u)" by (cases x)
  show ?case
  proof (cases "j = k")
    case True
    then have "filter (\<lambda>(j, _). j \<noteq> k) xs = xs"
      using Cons.prems x by (intro filter_True) (auto simp: rev_image_eqI)
    then show ?thesis using True by (simp add: aput_def x)
  next
    case False
    then show ?thesis using Cons by (auto simp: aput_def x)
  qed
qed (simp add: aput_def)

lemma writeAt_fields:
  assumes "writeAt t off d w = (r, t', w')"
  shows "tpending t' = tpending t \<and> tpendBytes t' = tpendBytes t \<and> tsize t' = tsize t \<and> thash t' = thash t \<and>
    tfile t' = tfile t \<and> tpartial t' = tpartial t \<and> tprivate t' = tprivate t \<and> tclaim t' = tclaim t \<and>
    tname t' = tname t \<and> thandle t' = thandle t \<and> tcursor t' = (if r = None then tcursor t + length d else tcursor t)"
  using assms by (auto simp: writeAt_def Let_def split: prod.splits bool.splits if_splits option.splits)

text \<open>What no chunk changes in a transfer.\<close>

definition static :: "recvTransfer \<Rightarrow> nat \<times> nat \<times> string \<times> bool \<times> nat option \<times> string \<times> nat \<times> bytes" where
  "static t = (thandle t, tfile t, tpartial t, tprivate t, tclaim t, tname t, tsize t, thash t)"

lemma static_pending [simp]:
  "static (t\<lparr>tpending := p\<rparr>) = static t" "static (t\<lparr>tpendBytes := n\<rparr>) = static t"
  by (simp_all add: static_def)

lemma writeAt_static: "writeAt t off d w = (r, t', w') \<Longrightarrow> static t' = static t"
  by (drule writeAt_fields) (simp add: static_def)

text \<open>One round of the drain loop.\<close>

definition taken :: "recvTransfer \<Rightarrow> bytes \<Rightarrow> recvTransfer" where
  "taken t d = t\<lparr>tpending := adel (tcursor t) (tpending t), tpendBytes := tpendBytes t - length d\<rparr>"

lemma sum_adel:
  assumes "distinct (map fst xs)" and "map_of xs k = Some (d :: bytes)"
  shows "sum_list (map (length \<circ> snd) xs) = length d + sum_list (map (length \<circ> snd) (adel k xs))"
  using assms
proof (induction xs)
  case (Cons x xs)
  obtain j u where x: "x = (j, u)" by (cases x)
  show ?case
  proof (cases "j = k")
    case True
    then have "filter (\<lambda>(j, _). j \<noteq> k) xs = xs"
      using Cons.prems x by (intro filter_True) (auto simp: rev_image_eqI)
    then show ?thesis using True Cons.prems by (simp add: adel_def x)
  next
    case False
    then show ?thesis using Cons by (simp add: adel_def x)
  qed
qed simp

lemma taken_tinv:
  assumes inv: "tinv t" and d: "map_of (tpending t) (tcursor t) = Some d"
  shows "tinv (taken t d) \<and> tcursor t + length d \<le> tsize t"
proof -
  have "(tcursor t, d) \<in> set (tpending t)" using d by (rule map_of_SomeD)
  then have "tcursor t + length d \<le> tsize t" using inv by (auto simp: tinv_def)
  then show ?thesis
    using inv sum_adel [OF _ d] by (auto simp: tinv_def taken_def)
qed

lemma drain_tinv: "tinv t \<Longrightarrow> drain t w = (r, t', w') \<Longrightarrow> tinv t' \<and> tsize t' = tsize t \<and> tcursor t \<le> tcursor t'"
proof (induction t w rule: drain.induct)
  case (1 t w)
  show ?case
  proof (cases "map_of (tpending t) (tcursor t)")
    case None
    then show ?thesis using 1 by (simp add: drain.simps [of t w])
  next
    case (Some d)
    have tk: "tinv (taken t d)" "tcursor t + length d \<le> tsize t" using taken_tinv [OF "1.prems"(1) Some] by auto
    obtain r1 t1 w1 where w1: "writeAt (taken t d) (tcursor t) d w = (r1, t1, w1)" by (metis surj_pair)
    note f = writeAt_fields [OF w1]
    have t1: "tinv t1" using tk f by (auto simp: tinv_def taken_def)
    show ?thesis
    proof (cases r1)
      case (Some e)
      then show ?thesis
        using "1.prems"(2) \<open>map_of _ _ = Some d\<close> w1 t1 f
        by (auto simp: drain.simps [of t w] taken_def)
    next
      case None
      have dr: "drain t1 w1 = (r, t', w')"
        using "1.prems"(2) Some w1 None by (simp add: drain.simps [of t w] taken_def)
      have "tinv t' \<and> tsize t' = tsize t1 \<and> tcursor t1 \<le> tcursor t'"
        using "1.IH" [OF Some refl, of r1 "(t1, w1)" t1 w1] w1 None t1 dr
        by (simp add: taken_def)
      then show ?thesis using f None by (auto simp: taken_def)
    qed
  qed
qed


lemma placeChunk_tinv:
  assumes inv: "tinv t" and fit: "off + length d \<le> tsize t" and r: "placeChunk t off d w = (r, t', w')"
  shows "tinv t' \<and> tsize t' = tsize t \<and> tcursor t \<le> tcursor t'"
proof -
  consider (here) "off = tcursor t" | (later) "off > tcursor t" "map_of (tpending t) off = None"
      "tpendBytes t + length d \<le> maxPendingBytes" | (ignored) "(t', w') = (t, w)"
    using r by (auto simp: placeChunk_def split: if_splits)
  then show ?thesis
  proof cases
    case here
    obtain r1 t1 w1 where w1: "writeAt t off d w = (r1, t1, w1)" by (metis surj_pair)
    note f = writeAt_fields [OF w1]
    have t1: "tinv t1 \<and> tsize t1 = tsize t \<and> tcursor t \<le> tcursor t1"
      using inv f fit here by (auto simp: tinv_def)
    show ?thesis
    proof (cases r1)
      case None
      then have "drain t1 w1 = (r, t', w')" using r w1 here by (simp add: placeChunk_def)
      then show ?thesis using drain_tinv [of t1 w1 r t' w'] t1 by auto
    next
      case (Some e)
      then show ?thesis using r w1 here t1 by (simp add: placeChunk_def)
    qed
  next
    case later
    then have t': "t' = t\<lparr>tpending := aput off d (tpending t), tpendBytes := tpendBytes t + length d\<rparr>"
      using r by (simp add: placeChunk_def)
    have "adel off (tpending t) = tpending t"
      using later(2) unfolding adel_def by (intro filter_True) (auto simp: map_of_eq_None_iff image_iff)
    then show ?thesis
      using inv later fit by (auto simp: t' tinv_def aput_adel map_of_eq_None_iff)
  qed (use inv in simp)
qed

lemma srinv_adel: "srinv sr \<Longrightarrow> srinv (sr\<lparr>transfers := adel i (transfers sr)\<rparr>)"
  using le_trans [OF adel_simps(3) [of i "transfers sr"], of maxConcurrentTransfers] by (auto simp: srinv_def)

lemma srinv_aput:
  assumes "srinv sr" and "tinv t"
    and "map_of (transfers sr) i = None \<Longrightarrow> length (transfers sr) < maxConcurrentTransfers"
  shows "srinv (sr\<lparr>transfers := aput i t (transfers sr)\<rparr>)"
proof -
  have "length (aput i t (transfers sr)) \<le> maxConcurrentTransfers"
    using assms(1,3) by (auto simp: srinv_def aput_length)
  then show ?thesis using assms(1,2) by (auto simp: srinv_def)
qed

lemma srinv_get: "srinv sr \<Longrightarrow> map_of (transfers sr) i = Some t \<Longrightarrow> tinv t"
  by (auto simp: srinv_def dest: map_of_SomeD)

text \<open>Every handler leaves the table of transfers as it is, drops one entry, or puts one.\<close>

lemma ended:
  "fst (discard i sr w) = sr\<lparr>transfers := adel i (transfers sr)\<rparr>"
  "fst (forget i sr w) = sr\<lparr>transfers := adel i (transfers sr)\<rparr>"
  "fst (abandonIfDiskFull i e sr w) = (if isDiskFull e then sr\<lparr>transfers := adel i (transfers sr)\<rparr> else sr)"
  by (simp_all add: discard_def forget_def abandonIfDiskFull_def)

definition dropped_or_same :: "bytes \<Rightarrow> streamReceiver \<Rightarrow> streamReceiver \<Rightarrow> bool" where
  "dropped_or_same i sr sr' \<longleftrightarrow> sr' = sr \<or> sr' = sr\<lparr>transfers := adel i (transfers sr)\<rparr>"

lemma dropped_srinv: "dropped_or_same i sr sr' \<Longrightarrow> srinv sr \<Longrightarrow> srinv sr'"
  by (auto simp: dropped_or_same_def srinv_adel)

lemma writeFailed_drops: "writeFailed i e sr w = (f, sr', w') \<Longrightarrow> dropped_or_same i sr sr'"
  using ended(1) [of i sr w] ended(3) [of i e sr w]
  by (auto simp: writeFailed_def dropped_or_same_def split: prod.splits if_splits)

lemma initPrior_drops: "initPrior i sr w = (prior, sr', w') \<Longrightarrow> dropped_or_same i sr sr'"
  by (auto simp: initPrior_def dropped_or_same_def split: option.splits prod.splits bool.splits)

lemma doneCommit_drops: "doneCommit env i t sr w = (f, sv, sr', w') \<Longrightarrow> dropped_or_same i sr sr'"
  by (auto simp: doneCommit_def dropped_or_same_def forget_def Let_def split: prod.splits option.splits bool.splits)

lemma handleDone_drops:
  assumes "handleDone env i sr w = (f, sv, sr', w')"
  shows "dropped_or_same i sr sr'"
  using assms doneCommit_drops [of env i _ sr]
  by (auto simp: handleDone_def dropped_or_same_def discard_def split: prod.splits option.splits bool.splits sum.splits if_splits)

lemma resume_le: "resumeOffset info sz \<le> sz"
  by (simp add: resumeOffset_def split: sum.splits prod.splits)

lemma initOpen_srinv:
  assumes "srinv sr" and "initOpen i sz hash name isNew part priv claim prev budget sr w = (f, sr', w')"
  shows "srinv sr'"
  using assms resume_le
  by (auto simp: initOpen_def Let_def tinv_def intro!: srinv_aput
      split: prod.splits sum.splits if_splits)

lemma handleInit_srinv:
  assumes inv: "srinv sr" and r: "handleInit env i body sr w = (f, sr', w')"
  shows "srinv sr'"
proof -
  obtain prior sr1 w1 where p: "initPrior i sr (w\<lparr>wfs := snd (os_MkdirAll (partialDir sr) (wfs w))\<rparr>) = (prior, sr1, w1)"
    by (metis surj_pair)
  have s1: "srinv sr1" using initPrior_drops [OF p] inv by (rule dropped_srinv)
  then show ?thesis
    using r p inv
    by (auto simp: handleInit_def split: prod.splits sum.splits option.splits if_splits intro: initOpen_srinv)
qed

lemma handleChunk_fits:
  assumes "decodeChunk body = Some (o64, d)" and "map_of (transfers sr) i = Some t"
    and "unat o64 + length d \<le> tsize t" and "placeChunk t (unat o64) d w = (q, t1, w1)"
  shows "handleChunk i body sr w =
    (case q of
       Some e \<Rightarrow> writeFailed i e (sr\<lparr>transfers := aput i t1 (transfers sr)\<rparr>) w1
     | None \<Rightarrow> (encodeOffset streamKindAck i (word_of_nat (tcursor t1)),
         sr\<lparr>transfers := aput i t1 (transfers sr)\<rparr>, w1))"
proof -
  have "\<not> (unat o64 > tsize t \<or> length d > tsize t - unat o64)" using assms(3) by linarith
  then show ?thesis using assms(1,2,4) by (auto simp: handleChunk_def Let_def)
qed

lemma handleChunk_srinv:
  assumes inv: "srinv sr" and r: "handleChunk i body sr w = (f, sr', w')"
  shows "srinv sr'"
proof (cases "\<exists>o64 d t. decodeChunk body = Some (o64, d) \<and> map_of (transfers sr) i = Some t \<and>
    unat o64 + length d \<le> tsize t")
  case True
  then obtain o64 d t where b: "decodeChunk body = Some (o64, d)" and t: "map_of (transfers sr) i = Some t"
    and fit: "unat o64 + length d \<le> tsize t" by auto
  obtain q t1 w1 where pc: "placeChunk t (unat o64) d w = (q, t1, w1)" by (metis surj_pair)
  let ?sr1 = "sr\<lparr>transfers := aput i t1 (transfers sr)\<rparr>"
  have "tinv t1" using placeChunk_tinv [OF srinv_get [OF inv t] fit pc] by simp
  then have "srinv ?sr1" using inv t by (intro srinv_aput) auto
  then show ?thesis
    using r [unfolded handleChunk_fits [OF b t fit pc]] dropped_srinv [of i ?sr1] writeFailed_drops [of i _ ?sr1 w1 f sr' w']
    by (auto split: option.splits)
qed (use assms in \<open>auto simp: handleChunk_def Let_def split: option.splits if_splits\<close>)

lemma HandleFrame_srinv:
  assumes inv: "srinv sr" and r: "HandleFrame env f sr w = (a, sv, sr', w')"
  shows "srinv sr'"
proof -
  consider "sr' = sr" | (init) i b g where "handleInit env i b sr w = (g, sr', w')"
    | (chunk) i b g where "handleChunk i b sr w = (g, sr', w')"
    | (fin) i g where "handleDone env i sr w = (g, sv, sr', w')"
    | (abort) i where "sr' = sr\<lparr>transfers := adel i (transfers sr)\<rparr>"
    using r by (auto simp: HandleFrame_def discard_def split: option.splits prod.splits if_splits)
  then show ?thesis
  proof cases
    case init then show ?thesis by (rule handleInit_srinv [OF inv])
  next
    case chunk then show ?thesis by (rule handleChunk_srinv [OF inv])
  next
    case fin then show ?thesis using dropped_srinv [OF handleDone_drops inv] by blast
  qed (use inv srinv_adel in auto)
qed

lemma handle_all_srinv: "srinv sr \<Longrightarrow> handle_all env fs sr w = (as, sv, sr', w') \<Longrightarrow> srinv sr'"
  by (induction fs arbitrary: sr w as sv)
    (auto split: prod.splits dest: HandleFrame_srinv)

end
