(* ===== verification/StreamDelivery.thy ===== *)
theory StreamDelivery
  imports StreamProps
begin

text \<open>
  Delivery of a chunked transfer: what a handler may touch in the world, the content held by a
  \<^verbatim>\<open>.partial\<close> file while consistent chunks arrive in any order, and the result of DONE.
\<close>

section \<open>What a chunk touches\<close>

text \<open>Only the file \<open>ino\<close> and the time of claims change; no handle is opened or closed.\<close>

definition wrote :: "nat \<Rightarrow> world \<Rightarrow> world \<Rightarrow> bool" where
  "wrote ino w w' \<longleftrightarrow> names (wfs w') = names (wfs w) \<and> opFault (wfs w') = opFault (wfs w) \<and>
     now w' = now w \<and> wseq w' = wseq w \<and> handles w' = handles w \<and> active w' = active w \<and> length (claims w') = length (claims w) \<and>
     length (store (wfs w')) = length (store (wfs w)) \<and>
     (\<forall>j. j \<noteq> ino \<longrightarrow> store (wfs w') ! j = store (wfs w) ! j)"

lemma wrote_refl [simp]: "wrote ino w w"
  by (simp add: wrote_def)

lemma wrote_trans: "wrote ino a b \<Longrightarrow> wrote ino b c \<Longrightarrow> wrote ino a c"
  by (simp add: wrote_def)

lemma wrote_wf: "wrote ino w w' \<Longrightarrow> wf_fs (wfs w') = wf_fs (wfs w) \<and> lookup (wfs w') = lookup (wfs w) \<and>
    no_faults (wfs w') = no_faults (wfs w)"
  by (auto simp: wrote_def wf_fs_def lookup_def no_faults_def)

lemma wrote_open: "wrote ino w w' \<Longrightarrow> isOpen h w' = isOpen h w"
  by (simp add: wrote_def isOpen_def)

lemma stillHolds_wrote:
  assumes "stillHolds p c w = (b, w')"
  shows "wrote ino w w' \<and> wfs w' = wfs w \<and> active w' = active w \<and> (b \<longleftrightarrow> c = None \<or> active w p = c)"
  using assms by (auto simp: stillHolds_def wrote_def split: option.splits if_splits)

lemma WriteAt_wrote: "file_WriteAt p i bs off fs = (r, fs') \<Longrightarrow> wrote i w (w\<lparr>wfs := fs'\<rparr>) \<or> wfs w \<noteq> fs"
  by (auto simp: file_WriteAt_def sys_def set_data_def wrote_def split: option.splits)

lemma writeAt_wrote:
  assumes "writeAt t off d w = (r, t', w')"
  shows "wrote (tfile t) w w'"
proof -
  obtain b w1 where h: "stillHolds (tpartial t) (tclaim t) w = (b, w1)" by (metis surj_pair)
  note h1 = stillHolds_wrote [OF h, of "tfile t"]
  obtain q fs1 where q: "file_WriteAt (tpartial t) (tfile t) d off (wfs w) = (q, fs1)" by (metis surj_pair)
  have "wrote (tfile t) w1 (w1\<lparr>wfs := fs1\<rparr>)" using WriteAt_wrote [OF q, of w1] h1 by simp
  then have "wrote (tfile t) w (w1\<lparr>wfs := fs1\<rparr>)" using h1 wrote_trans by blast
  moreover have "wrote (tfile t) w (w1\<lparr>wfs := wfs w\<rparr>)" using h1 by (auto simp: wrote_def)
  ultimately show ?thesis
    using assms h1 by (auto simp: writeAt_def h q Let_def split: bool.splits if_splits option.splits)
qed

lemma drain_wrote: "drain t w = (r, t', w') \<Longrightarrow> wrote (tfile t) w w' \<and> static t' = static t"
proof (induction t w rule: drain.induct)
  case (1 t w)
  show ?case
  proof (cases "map_of (tpending t) (tcursor t)")
    case None
    then show ?thesis using 1 by (simp add: drain.simps [of t w])
  next
    case (Some d)
    obtain r1 t1 w1 where w1: "writeAt (taken t d) (tcursor t) d w = (r1, t1, w1)" by (metis surj_pair)
    have f: "static t1 = static t" "tfile t1 = tfile t" "wrote (tfile t) w w1"
      using writeAt_static [OF w1] writeAt_wrote [OF w1] by (simp_all add: taken_def static_def)
    show ?thesis
    proof (cases r1)
      case (Some e)
      then show ?thesis
        using "1.prems" \<open>map_of _ _ = Some d\<close> w1 f by (auto simp: drain.simps [of t w] taken_def)
    next
      case None
      have dr: "drain t1 w1 = (r, t', w')"
        using "1.prems" Some w1 None by (simp add: drain.simps [of t w] taken_def)
      have "wrote (tfile t1) w1 w' \<and> static t' = static t1"
        using "1.IH" [OF Some refl, of r1 "(t1, w1)" t1 w1] w1 None dr by (simp add: taken_def)
      then show ?thesis using f wrote_trans [of "tfile t" w w1 w'] by simp
    qed
  qed
qed

lemma placeChunk_wrote:
  assumes "placeChunk t off d w = (r, t', w')"
  shows "wrote (tfile t) w w' \<and> static t' = static t"
proof -
  obtain r1 t1 w1 where w1: "writeAt t (tcursor t) d w = (r1, t1, w1)" by (metis surj_pair)
  have f: "static t1 = static t" "tfile t1 = tfile t" "wrote (tfile t) w w1"
    using writeAt_static [OF w1] writeAt_wrote [OF w1] by (simp_all add: static_def)
  show ?thesis
    using assms f drain_wrote [of t1 w1 r t' w'] wrote_trans [of "tfile t" w w1 w']
    by (auto simp: placeChunk_def w1 split: if_splits option.splits)
qed

section \<open>The content under consistent chunks\<close>

definition piece :: "bytes \<Rightarrow> nat \<times> bytes \<Rightarrow> bool" where
  "piece c = (\<lambda>(off, d). off + length d \<le> length c \<and> d = take (length d) (drop off c))"

text \<open>
  A transfer in step with the content \<open>c\<close>: its file is the prefix of \<open>c\<close> up to the cursor, what
  it holds back are pieces of \<open>c\<close>, its handle is open, its claim is its own and its quota covers the rest.
\<close>

definition synced :: "bytes \<Rightarrow> recvTransfer \<Rightarrow> world \<Rightarrow> bool" where
  "synced c t w \<longleftrightarrow> tinv t \<and> tsize t = length c \<and> (\<forall>e \<in> set (tpending t). piece c e) \<and>
     isOpen (thandle t) w \<and> tfile t < length (store (wfs w)) \<and> fdata (store (wfs w) ! tfile t) = take (tcursor t) c \<and>
     (tclaim t = None \<or> active w (tpartial t) = tclaim t) \<and>
     (tquotaBudget t \<ge> 0 \<longrightarrow> int (length c) \<le> tquotaBudget t + int (tcursor t))"

lemma overwrite_next:
  assumes "piece c (k, d)"
  shows "overwrite (take k c) k d = take (k + length d) c"
  using assms by (auto simp: overwrite_def piece_def take_add min_def)

lemma writeAt_synced:
  assumes s: "synced c t w" and nf: "no_faults (wfs w)" and d: "piece c (tcursor t, d)"
    and r: "writeAt t (tcursor t) d w = (r, t', w')"
  shows "r = None \<and> synced c t' w'"
proof -
  obtain b w1 where h: "stillHolds (tpartial t) (tclaim t) w = (b, w1)" by (metis surj_pair)
  note h1 = stillHolds_wrote [OF h, of "tfile t"]
  have b: "b" "wfs w1 = wfs w" "active w1 = active w" "isOpen (thandle t) w1"
    using h1 s wrote_open [of "tfile t" w w1 "thandle t"] by (auto simp: synced_def)
  have q: "\<not> (tquotaBudget t \<ge> 0 \<and> int (length d) > tquotaBudget t)"
    using s d by (auto simp: synced_def piece_def)
  let ?fs = "set_data (tfile t) (take (tcursor t + length d) c) ((wfs w)\<lparr>ops := Suc (ops (wfs w))\<rparr>)"
  have f: "file_WriteAt (tpartial t) (tfile t) d (tcursor t) (wfs w1) = (None, ?fs)"
    using nf s overwrite_next [OF d] by (simp add: file_WriteAt_def sys_def no_faults_def b synced_def)
  have r': "r = None" and t': "t' = (if tquotaBudget t \<ge> 0 then t\<lparr>tquotaBudget := tquotaBudget t - int (length d)\<rparr> else t)
      \<lparr>tcursor := tcursor t + length d\<rparr>" and w': "w' = w1\<lparr>wfs := ?fs\<rparr>"
    using r q by (auto simp: writeAt_def h b(1,4) f Let_def)
  have "tinv t'" using s d by (auto simp: t' tinv_def synced_def piece_def)
  then show ?thesis
    using s d b by (auto simp: synced_def t' w' set_data_def r' piece_def)
qed

lemma synced_taken:
  assumes "synced c t w" and "map_of (tpending t) (tcursor t) = Some d"
  shows "synced c (taken t d) w \<and> piece c (tcursor t, d)"
  using assms taken_tinv [of t d] map_of_SomeD [OF assms(2)]
  by (auto simp: synced_def taken_def)

lemma drain_synced:
  "synced c t w \<Longrightarrow> no_faults (wfs w) \<Longrightarrow> drain t w = (r, t', w') \<Longrightarrow> r = None \<and> synced c t' w'"
proof (induction t w rule: drain.induct)
  case (1 t w)
  show ?case
  proof (cases "map_of (tpending t) (tcursor t)")
    case None
    then show ?thesis using 1 by (simp add: drain.simps [of t w])
  next
    case (Some d)
    note tk = synced_taken [OF "1.prems"(1) Some]
    obtain r1 t1 w1 where w1: "writeAt (taken t d) (tcursor t) d w = (r1, t1, w1)" by (metis surj_pair)
    have s1: "r1 = None" "synced c t1 w1"
      using writeAt_synced [of c "taken t d" w d r1 t1 w1] tk w1 "1.prems"(2) by (simp_all add: taken_def)
    have n1: "no_faults (wfs w1)" using writeAt_wrote [OF w1] wrote_wf "1.prems"(2) by blast
    have dr: "drain t1 w1 = (r, t', w')"
      using "1.prems"(3) Some w1 s1(1) by (simp add: drain.simps [of t w] taken_def)
    show ?thesis
      using "1.IH" [OF Some refl, of r1 "(t1, w1)" t1 w1] w1 s1 n1 dr by (simp add: taken_def)
  qed
qed

lemma placeChunk_synced:
  assumes s: "synced c t w" and nf: "no_faults (wfs w)" and d: "piece c (off, d)"
    and r: "placeChunk t off d w = (r, t', w')"
  shows "r = None \<and> synced c t' w'"
proof -
  consider (here) "off = tcursor t" | (later) "off > tcursor t" "map_of (tpending t) off = None"
      "tpendBytes t + length d \<le> maxPendingBytes" | (ignored) "r = None" "(t', w') = (t, w)"
    using r by (auto simp: placeChunk_def split: if_splits)
  then show ?thesis
  proof cases
    case here
    obtain r1 t1 w1 where w1: "writeAt t off d w = (r1, t1, w1)" by (metis surj_pair)
    have s1: "r1 = None" "synced c t1 w1"
      using writeAt_synced [of c t w d r1 t1 w1] s nf d w1 here by simp_all
    have "no_faults (wfs w1)" using writeAt_wrote [OF w1] wrote_wf nf by blast
    then show ?thesis
      using drain_synced [OF s1(2), of r t' w'] r w1 here s1(1) by (simp add: placeChunk_def)
  next
    case later
    then have "t' = t\<lparr>tpending := aput off d (tpending t), tpendBytes := tpendBytes t + length d\<rparr>" "w' = w" "r = None"
      using r by (simp_all add: placeChunk_def)
    moreover have "tinv t'" using placeChunk_tinv [OF _ _ r] s d by (auto simp: synced_def piece_def)
    ultimately show ?thesis using s d by (auto simp: synced_def)
  qed (use s in simp_all)
qed


section \<open>INIT\<close>

text \<open>Reads of the file system, with the claims untouched.\<close>

definition looked :: "world \<Rightarrow> world \<Rightarrow> bool" where
  "looked w w' \<longleftrightarrow> same_files (wfs w) (wfs w') \<and> handles w' = handles w \<and> claims w' = claims w \<and> active w' = active w"

lemma looked_refl [simp]: "looked w w"
  by (simp add: looked_def)

lemma looked_trans: "looked a b \<Longrightarrow> looked b c \<Longrightarrow> looked a c"
  by (auto simp: looked_def intro: same_files_trans)

lemma quotaGate_looked:
  assumes "quotaGate sr p sz w = (r, w')"
  shows "looked w w' \<and> (\<forall>b. r = Inr b \<longrightarrow> b \<ge> 0 \<longrightarrow> int sz \<le> b)"
  using assms WalkDir_same [of "wfs w" "receivedDir sr"]
  by (auto simp: quotaGate_def dirSizeExcluding_def looked_def Let_def split: prod.splits if_splits)

lemma diskGate_looked:
  assumes "diskGate env p sz w = (r, w')"
  shows "looked w w'"
  using assms Stat_same [of "wfs w" p]
  by (auto simp: diskGate_def looked_def Let_def split: prod.splits option.splits if_splits)

lemma admit_looked:
  assumes "admit env sr p sz w = (r, w')"
  shows "looked w w' \<and> (\<forall>b. r = Inr b \<longrightarrow> b \<ge> 0 \<longrightarrow> int sz \<le> b)"
proof -
  obtain r1 w1 where q: "quotaGate sr p sz w = (r1, w1)" by (metis surj_pair)
  obtain r2 w2 where d: "diskGate env p sz w1 = (r2, w2)" by (metis surj_pair)
  show ?thesis
    using assms quotaGate_looked [OF q] diskGate_looked [OF d] looked_trans [of w w1 w2]
    by (auto simp: admit_def q d split: sum.splits option.splits)
qed

lemma claimPartial_cases:
  assumes "claimPartial p w = ((c, prev), w')"
  shows "c = None \<and> prev = None \<and> w' = w \<and> partialHeld p w \<or>
    c = Some (length (claims w)) \<and> prev = active w p \<and> \<not> partialHeld p w \<and>
    w' = w\<lparr>claims := claims w @ [now w], active := (active w)(p \<mapsto> length (claims w))\<rparr>"
  using assms by (auto simp: claimPartial_def split: if_splits)

text \<open>The world after the claim of a new transfer, relative to the one before INIT.\<close>

definition claimed :: "string \<Rightarrow> nat option \<Rightarrow> nat option \<Rightarrow> world \<Rightarrow> world \<Rightarrow> bool" where
  "claimed p c prev w w' \<longleftrightarrow> same_files (wfs w) (wfs w') \<and> handles w' = handles w \<and>
     (c = None \<and> prev = None \<and> claims w' = claims w \<and> active w' = active w \<and> partialHeld p w \<or>
      c = Some (length (claims w)) \<and> prev = active w p \<and> \<not> partialHeld p w \<and>
      claims w' = claims w @ [now w] \<and> active w' = (active w)(p \<mapsto> length (claims w)))"

lemma looked_held: "looked w w' \<Longrightarrow> partialHeld p w' = partialHeld p w \<and> now w' = now w"
  by (auto simp: looked_def same_files_def partialHeld_def claim_live_def split: option.splits)

lemma claimed_after:
  assumes "looked w w1" and "claimPartial p w1 = ((c, prev), w2)"
  shows "claimed p c prev w w2"
  using assms claimPartial_cases [OF assms(2)] looked_held [OF assms(1), of p]
  by (auto simp: claimed_def looked_def)

definition partial_names :: "srEnv \<Rightarrow> string \<Rightarrow> (string \<times> bool) set" where
  "partial_names env shared =
     {(shared, False)} \<union> {(shared @ ''.'' @ hex b, True) | b k. randSuffix env k = Inr b}"

definition selected_new :: "srEnv \<Rightarrow> string \<Rightarrow> nat \<Rightarrow> world \<Rightarrow> selected \<Rightarrow> world \<Rightarrow> bool" where
  "selected_new env shared sz w res w' =
     (case res of
        Inl e \<Rightarrow> looked w w'
      | Inr (part, priv, claim, prev, b) \<Rightarrow>
          (part, priv) \<in> partial_names env shared \<and> claimed part claim prev w w' \<and> (b \<ge> 0 \<longrightarrow> int sz \<le> b))"

lemma admitClaim_new:
  assumes nm: "(part, priv) \<in> partial_names env shared"
    and r: "admitClaim env shared sz part priv sr w = (res, w')"
  shows "selected_new env shared sz w res w'"
proof -
  obtain r1 w1 where a1: "admit env sr part sz w = (r1, w1)" by (metis surj_pair)
  note l1 = admit_looked [OF a1]
  show ?thesis
  proof (cases r1)
    case (Inl e)
    then show ?thesis using r a1 l1 by (auto simp: admitClaim_def selected_new_def)
  next
    case b: (Inr b)
    obtain c1 p1 w2 where c1: "claimPartial part w1 = ((c1, p1), w2)" by (metis surj_pair)
    show ?thesis
    proof (cases c1)
      case (Some k)
      then show ?thesis
        using r nm a1 l1 b c1 claimed_after [OF _ c1, of w] by (auto simp: admitClaim_def selected_new_def)
    next
      case None
      then have w2: "w2 = w1" using claimPartial_cases [OF c1] by simp
      show ?thesis
      proof (cases "randSuffix env 1")
        case (Inl e)
        then show ?thesis
          using r a1 l1 b c1 None w2 by (auto simp: admitClaim_def privatePartial_def selected_new_def)
      next
        case rb: (Inr rb)
        let ?p2 = "shared @ ''.'' @ hex rb"
        obtain r3 w3 where a3: "admit env sr ?p2 sz w1 = (r3, w3)" by (metis surj_pair)
        obtain c4 p4 w4 where c4: "claimPartial ?p2 w3 = ((c4, p4), w4)" by (metis surj_pair)
        have l3: "looked w w3" using admit_looked [OF a3] l1 looked_trans by blast
        have "(?p2, True) \<in> partial_names env shared" using rb by (auto simp: partial_names_def)
        then show ?thesis
          using r a1 b c1 None w2 rb a3 c4 admit_looked [OF a3] l3 claimed_after [OF l3 c4]
          by (cases r3) (auto simp: admitClaim_def privatePartial_def selected_new_def)
      qed
    qed
  qed
qed

lemma selectPartial_new:
  assumes "selectPartial env shared sz None sr w = (res, w')"
  shows "selected_new env shared sz w res w'"
proof (cases "partialHeld shared w")
  case True
  then show ?thesis
    using assms admitClaim_new [of _ True env shared sz sr w res w']
    by (cases "randSuffix env 0")
      (auto simp: selectPartial_def privatePartial_def partial_names_def selected_new_def)
next
  case False
  then show ?thesis
    using assms admitClaim_new [of shared False env shared sz sr w res w']
    by (simp add: selectPartial_def partial_names_def)
qed

text \<open>Opening a file whose content, if there is one, is a prefix of \<open>c\<close>, without faults.\<close>

definition prefix_at :: "string \<Rightarrow> bytes \<Rightarrow> fsys \<Rightarrow> bool" where
  "prefix_at p c fs \<longleftrightarrow> (\<forall>ino. lookup fs p = Some ino \<longrightarrow> prefix (fdata (store fs ! ino)) c)"

lemma OpenCreate_ok:
  assumes "no_faults fs" and "wf_fs fs" and "prefix_at p c fs" and "os_OpenCreate p fs = (r, fs')"
  shows "\<exists>ino k. r = Inr ino \<and> no_faults fs' \<and> wf_fs fs' \<and> lookup fs' p = Some ino \<and> ino < length (store fs') \<and>
    k \<le> length c \<and> fdata (store fs' ! ino) = take k c"
proof (cases "lookup fs p")
  case None
  then have "p \<notin> fst ` set (names fs)" by (simp add: lookup_def map_of_eq_None_iff)
  then have "r = Inr (length (store fs)) \<and> no_faults fs' \<and> wf_fs fs' \<and> lookup fs' p = Some (length (store fs)) \<and>
      store fs' = store fs @ [\<lparr>fdata = [], fmod = fclock fs\<rparr>]"
    using assms None by (auto simp: os_OpenCreate_def sys_def no_faults_def lookup_def wf_fs_def less_Suc_eq split: option.splits)
  then show ?thesis by (auto simp: nth_append)
next
  case (Some ino)
  then have "(p, ino) \<in> set (names fs)" by (simp add: lookup_def map_of_SomeD)
  then have l: "ino < length (store fs)" using assms(2) by (auto simp: wf_fs_def)
  obtain k where k: "fdata (store fs ! ino) = take k c" "k \<le> length c"
    using assms(3) Some that [of "length (fdata (store fs ! ino))"] by (auto simp: prefix_at_def prefix_def)
  have "r = Inr ino \<and> fs' = fs\<lparr>ops := Suc (ops fs)\<rparr>"
    using assms(1,4) Some by (auto simp: os_OpenCreate_def sys_def no_faults_def lookup_def split: option.splits)
  then show ?thesis using assms Some l k by (auto simp: no_faults_def wf_fs_def lookup_def)
qed

lemma initOpen_accepted:
  assumes nf: "no_faults (wfs w)" and wf: "wf_fs (wfs w)" and pre: "prefix_at part c (wfs w)"
    and sz: "sz = length c" and hold: "claim = None \<or> active w part = claim"
    and b: "budget \<ge> 0 \<longrightarrow> int sz \<le> budget"
    and new: "map_of (transfers sr) i = None"
    and r: "initOpen i sz hash name isNew part priv claim prev budget sr w = (f, sr1, w1)"
    and acc: "f = encodeOffset streamKindInitAck i off" and big: "length c < 2 ^ 64"
  shows "\<exists>t. sr1 = sr\<lparr>transfers := aput i t (transfers sr)\<rparr> \<and> synced c t w1 \<and> tcursor t = unat off \<and> tpending t = [] \<and>
    thash t = hash \<and> tname t = sanitizeBase name \<and> tpartial t = part \<and> tprivate t = priv \<and> tclaim t = claim \<and>
    lookup (wfs w1) part = Some (tfile t) \<and> no_faults (wfs w1) \<and> wf_fs (wfs w1)"
proof -
  obtain q fs1 where o1: "os_OpenCreate part (wfs w) = (q, fs1)" by (metis surj_pair)
  obtain ino k where q: "q = Inr ino" and n1: "no_faults fs1" and w1': "wf_fs fs1" and l1: "lookup fs1 part = Some ino"
    and i1: "ino < length (store fs1)" and k: "k \<le> length c" "fdata (store fs1 ! ino) = take k c"
    using OpenCreate_ok [OF nf wf pre o1] by blast
  have notfail: "initFail i m a p pv cl pr w' = (f, w'') \<Longrightarrow> False" for m a p pv cl pr w' w''
    by (simp add: initFail_def acc complete_err_def encodeComplete_def encodeOffset_def encodeStreamFrame_def mkFrame_def)
  let ?fs2 = "fs1\<lparr>ops := Suc (ops fs1)\<rparr>"
  have st: "file_Stat part ino fs1 = (Inr (fmod (store fs1 ! ino), int k), ?fs2)"
    using n1 k by (simp add: file_Stat_def sys_def no_faults_def fsize_def)
  have rs: "resumeOffset (Inr (fmod (store fs1 ! ino), int k)) sz = k" using k sz by (simp add: resumeOffset_def)
  let ?fs3 = "if k = 0 then file_Truncate part ino ?fs2 else ?fs2"
  obtain h wh where oh: "openFile (w\<lparr>wfs := fs1\<rparr>) = (h, wh)" by (metis surj_pair)
  let ?t = "\<lparr>thandle = h, tfile = ino, tpartial = part, tprivate = priv, tclaim = claim, tname = sanitizeBase name, tsize = sz,
      thash = hash, tcursor = k, tpending = [], tpendBytes = 0, tquotaBudget = budget\<rparr>"
  have tr: "file_Truncate part ino ?fs2 = set_data ino [] (?fs2\<lparr>ops := Suc (Suc (ops fs1))\<rparr>)"
    using n1 by (simp add: file_Truncate_def file_Truncate0_def sys_def no_faults_def)
  have main: "f = encodeOffset streamKindInitAck i (word_of_nat k)"
    "sr1 = sr\<lparr>transfers := aput i ?t (transfers sr)\<rparr>" "w1 = wh\<lparr>wfs := ?fs3\<rparr>"
    using r by (auto simp: initOpen_def o1 q oh st rs new Let_def split: if_splits prod.splits dest: notfail)
  have f3: "names ?fs3 = names fs1" "length (store ?fs3) = length (store fs1)" "opFault ?fs3 = opFault fs1"
    "fdata (store ?fs3 ! ino) = take k c"
    using i1 k by (auto simp: tr set_data_def)
  have "off = word_of_nat k"
    using main(1) offset_body.enc_inject [of "word_of_nat k" off]
    by (simp add: acc encodeOffset_def encodeStreamFrame_def mkFrame_def)
  then have "unat off = k" using k big by (simp add: unat_of_nat)
  moreover have "synced c ?t w1"
    using f3 i1 sz k hold b openFile_isOpen [OF oh] by (auto simp: synced_def main(3) tinv_def)
  moreover have "lookup (wfs w1) part = Some ino" "no_faults (wfs w1)" "wf_fs (wfs w1)"
    using f3 l1 n1 w1' by (simp_all add: main(3) lookup_def no_faults_def wf_fs_def)
  ultimately show ?thesis using main(2) by auto
qed

text \<open>The whole handler, for a transfer the receiver does not have yet.\<close>

definition shared_partial :: "streamReceiver \<Rightarrow> bytes \<Rightarrow> string" where
  "shared_partial sr i = filepath_Join [partialDir sr, hex i]"

definition may_resume :: "srEnv \<Rightarrow> streamReceiver \<Rightarrow> bytes \<Rightarrow> bytes \<Rightarrow> world \<Rightarrow> bool" where
  "may_resume env sr i c w \<longleftrightarrow> (\<forall>(p, _) \<in> partial_names env (shared_partial sr i). prefix_at p c (wfs w))"

lemma handleInit_accepted:
  assumes nf: "no_faults (wfs w)" and wf: "wf_fs (wfs w)" and new: "map_of (transfers sr) i = None"
    and pre: "may_resume env sr i c w" and big: "length c < 2 ^ 64"
    and body: "decodeInit body = Some (word_of_nat (length c), hash, cs, name)"
    and r: "handleInit env i body sr w = (encodeOffset streamKindInitAck i off, sr1, w1)"
  shows "\<exists>t. sr1 = sr\<lparr>transfers := aput i t (transfers sr)\<rparr> \<and> synced c t w1 \<and> tcursor t = unat off \<and> tpending t = [] \<and>
    thash t = hash \<and> tname t = sanitizeBase name \<and> (tpartial t, tprivate t) \<in> partial_names env (shared_partial sr i) \<and>
    lookup (wfs w1) (tpartial t) = Some (tfile t) \<and> no_faults (wfs w1) \<and> wf_fs (wfs w1)"
proof -
  let ?f = "encodeOffset streamKindInitAck i off" and ?sz = "length c"
  have err: "complete_err i m \<noteq> ?f" for m
    by (simp add: complete_err_def encodeComplete_def encodeOffset_def encodeStreamFrame_def mkFrame_def)
  obtain fs0 where mk: "os_MkdirAll (partialDir sr) (wfs w) = (None, fs0)"
    "names fs0 = names (wfs w)" "store fs0 = store (wfs w)" "opFault fs0 = opFault (wfs w)"
    using nf by (simp add: os_MkdirAll_def sys_def no_faults_def)
  let ?w0 = "w\<lparr>wfs := fs0\<rparr>"
  have ip: "initPrior i sr ?w0 = (None, sr, ?w0)" by (simp add: initPrior_def new)
  have sz: "unat (word_of_nat ?sz :: u64) = ?sz" using big by (simp add: unat_of_nat)
  obtain res w2 where sel: "selectPartial env (shared_partial sr i) ?sz None sr ?w0 = (res, w2)" by (metis surj_pair)
  obtain part priv claim prev b where res: "res = Inr (part, priv, claim, prev, b)"
    and op: "initOpen i ?sz hash name True part priv claim prev b sr w2 = (?f, sr1, w1)"
    using r by (auto simp: handleInit_def body mk(1) ip sz sel [unfolded shared_partial_def] err [simplified]
        split: if_splits sum.splits)
  have s: "(part, priv) \<in> partial_names env (shared_partial sr i)" "claimed part claim prev ?w0 w2" "b \<ge> 0 \<longrightarrow> int ?sz \<le> b"
    using selectPartial_new [OF sel] by (simp_all add: selected_new_def res)
  have w2: "names (wfs w2) = names (wfs w)" "store (wfs w2) = store (wfs w)" "opFault (wfs w2) = opFault (wfs w)"
    "claim = None \<or> active w2 part = claim"
    using s(2) mk by (auto simp: claimed_def same_files_def)
  have "no_faults (wfs w2)" "wf_fs (wfs w2)" "prefix_at part c (wfs w2)"
    using nf wf w2 pre s(1) by (auto simp: no_faults_def wf_fs_def prefix_at_def may_resume_def lookup_def)
  then show ?thesis
    using initOpen_accepted [OF _ _ _ refl w2(4) s(3) new op refl big] s(1) by blast
qed

section \<open>CHUNK\<close>

definition chunk_frame :: "bytes \<Rightarrow> nat \<times> bytes \<Rightarrow> Frame" where
  "chunk_frame i e = encodeChunk i (word_of_nat (fst e)) (snd e)"

lemma HandleFrame_chunk:
  assumes "length i = 16"
  shows "HandleFrame env (encodeChunk i off d) sr w =
    (case handleChunk i (chunkBody off d) sr w of (r, sr1, w1) \<Rightarrow> (Some r, [], sr1, w1))"
  using assms by (simp add: HandleFrame_def encodeChunk_def decode_stream split: prod.split)

lemma chunk_synced:
  assumes i: "length i = 16" and t: "map_of (transfers sr) i = Some t" and s: "synced c t w"
    and nf: "no_faults (wfs w)" and d: "piece c (off, d)" and big: "length c < 2 ^ 64"
    and r: "HandleFrame env (chunk_frame i (off, d)) sr w = (a, sv, sr', w')"
  shows "\<exists>t'. placeChunk t off d w = (None, t', w') \<and> sr' = sr\<lparr>transfers := aput i t' (transfers sr)\<rparr> \<and>
    a = Some (encodeOffset streamKindAck i (word_of_nat (tcursor t'))) \<and> sv = [] \<and> synced c t' w' \<and>
    static t' = static t \<and> wrote (tfile t) w w'"
proof -
  have off: "unat (word_of_nat off :: u64) = off" using d big by (simp add: piece_def unat_of_nat)
  obtain q t1 w1 where pc: "placeChunk t off d w = (q, t1, w1)" by (metis surj_pair)
  have q: "q = None" "synced c t1 w1" using placeChunk_synced [OF s nf d pc] by simp_all
  have dc: "decodeChunk (chunkBody (word_of_nat off) d) = Some (word_of_nat off, d)"
    using chunk_body.dec_enc [of "(word_of_nat off, d)"] by simp
  have fit: "unat (word_of_nat off :: u64) + length d \<le> tsize t" using s d off by (simp add: synced_def piece_def)
  have "handleChunk i (chunkBody (word_of_nat off) d) sr w =
      (encodeOffset streamKindAck i (word_of_nat (tcursor t1)), sr\<lparr>transfers := aput i t1 (transfers sr)\<rparr>, w1)"
    using handleChunk_fits [OF dc t fit] pc off q by simp
  then show ?thesis
    using r pc q placeChunk_wrote [OF pc] by (auto simp: chunk_frame_def HandleFrame_chunk [OF i])
qed

lemma chunks_synced:
  assumes "length i = 16" and "length c < 2 ^ 64"
  shows "map_of (transfers sr) i = Some t \<Longrightarrow> synced c t w \<Longrightarrow> no_faults (wfs w) \<Longrightarrow> (\<forall>e \<in> set ps. piece c e) \<Longrightarrow>
    handle_all env (map (chunk_frame i) ps) sr w = (as, sv, sr', w') \<Longrightarrow>
    sv = [] \<and> length as = length ps \<and> (\<exists>t'. map_of (transfers sr') i = Some t' \<and> synced c t' w' \<and> static t' = static t \<and>
      wrote (tfile t) w w' \<and> receivedDir sr' = receivedDir sr \<and>
      last (None # as) = (if ps = [] then None else Some (encodeOffset streamKindAck i (word_of_nat (tcursor t')))))"
proof (induction ps arbitrary: sr t w as sv)
  case (Cons e ps)
  obtain off d where e: "e = (off, d)" by (cases e)
  obtain a1 sv1 sr1 w1 where h: "HandleFrame env (chunk_frame i (off, d)) sr w = (a1, sv1, sr1, w1)" by (metis surj_pair)
  obtain as2 sv2 where h2: "handle_all env (map (chunk_frame i) ps) sr1 w1 = (as2, sv2, sr', w')"
    and as: "as = a1 # as2" "sv = sv1 @ sv2"
    using Cons.prems(5) h by (auto simp: e split: prod.splits)
  obtain t1 where t1: "sr1 = sr\<lparr>transfers := aput i t1 (transfers sr)\<rparr>" "synced c t1 w1" "static t1 = static t"
      "wrote (tfile t) w w1" "sv1 = []" "a1 = Some (encodeOffset streamKindAck i (word_of_nat (tcursor t1)))"
    using chunk_synced [OF assms(1) Cons.prems(1-3) _ assms(2) h] Cons.prems(4) e by auto
  have tf: "tfile t1 = tfile t" using t1(3) by (simp add: static_def)
  have "sv2 = [] \<and> length as2 = length ps \<and> (\<exists>t'. map_of (transfers sr') i = Some t' \<and> synced c t' w' \<and>
      static t' = static t1 \<and> wrote (tfile t1) w1 w' \<and> receivedDir sr' = receivedDir sr1 \<and>
      last (None # as2) = (if ps = [] then None else Some (encodeOffset streamKindAck i (word_of_nat (tcursor t')))))"
    using t1 wrote_wf [OF t1(4)] Cons.prems(3,4) by (intro Cons.IH [OF _ _ _ _ h2]) simp_all
  moreover have "ps = [] \<Longrightarrow> sr' = sr1" using h2 by simp
  ultimately show ?case
    using t1 tf as wrote_trans [OF t1(4)] by (cases ps) (auto split: if_splits)
qed simp

section \<open>DONE\<close>

lemma sys_ok: "no_faults fs \<Longrightarrow> sys p fs = (None, fs\<lparr>ops := Suc (ops fs)\<rparr>)"
  by (simp add: sys_def no_faults_def)

text \<open>A handler step that leaves all files and claims as they are.\<close>

definition touched :: "world \<Rightarrow> world \<Rightarrow> bool" where
  "touched w w' \<longleftrightarrow> same_files (wfs w) (wfs w') \<and> active w' = active w \<and> length (claims w') = length (claims w) \<and>
     wseq w' = wseq w \<and> handles w' = handles w"

lemma touched_trans: "touched a b \<Longrightarrow> touched b c \<Longrightarrow> touched a c"
  by (auto simp: touched_def intro: same_files_trans)

lemma stillHolds_touched: "stillHolds p c w = (b, w') \<Longrightarrow> touched w w'"
  by (auto simp: stillHolds_def touched_def split: option.splits if_splits)

lemma sys_touched: "sys p (wfs w) = (r, fs') \<Longrightarrow> touched w (w\<lparr>wfs := fs'\<rparr>)"
  by (auto simp: sys_def touched_def same_files_def)

lemma touched_open: "touched w w' \<Longrightarrow> isOpen h w' = isOpen h w"
  by (simp add: touched_def isOpen_def)

lemma hsys_touched: "hsys op t w = (r, fs') \<Longrightarrow> touched w (w\<lparr>wfs := fs'\<rparr>)"
  using sys_touched [of "tpartial t" w] by (auto simp: hsys_def touched_def split: if_splits)

lemma hsys_ok: "isOpen (thandle t) w \<Longrightarrow> no_faults (wfs w) \<Longrightarrow> hsys op t w = (None, (wfs w)\<lparr>ops := Suc (ops (wfs w))\<rparr>)"
  by (simp add: hsys_def sys_ok)

lemma doneVerify_touched:
  assumes "doneVerify t w = (r, w')"
  shows "touched w w' \<and> (\<forall>x. r = Inr x \<longrightarrow> x = fdata (store (wfs w) ! tfile t) \<and> sha256 x = thash t \<and> tcursor t = tsize t)"
proof -
  obtain r1 f1 where s1: "hsys ''sync'' t w = (r1, f1)" by (metis surj_pair)
  let ?w1 = "w\<lparr>wfs := f1\<rparr>"
  obtain r2 f2 where s2: "hsys ''seek'' t ?w1 = (r2, f2)" by (metis surj_pair)
  let ?w2 = "?w1\<lparr>wfs := f2\<rparr>"
  obtain b w3 where h: "stillHolds (tpartial t) (tclaim t) ?w2 = (b, w3)" by (metis surj_pair)
  obtain r4 f4 where s4: "hsys ''read'' t w3 = (r4, f4)" by (metis surj_pair)
  have t1: "touched w ?w1" by (rule hsys_touched [OF s1])
  have t2: "touched w ?w2" by (rule touched_trans [OF t1 hsys_touched [OF s2]])
  have t3: "touched w w3" by (rule touched_trans [OF t2 stillHolds_touched [OF h]])
  have t4: "touched w (w3\<lparr>wfs := f4\<rparr>)" by (rule touched_trans [OF t3 hsys_touched [OF s4]])
  have "store f4 = store (wfs w)" using t4 by (simp add: touched_def same_files_def)
  then show ?thesis
    using assms h s2 t1 t2 t3 t4
    by (auto simp: doneVerify_def heldRead_def s1 s4 Let_def split: option.splits if_splits bool.splits)
qed

lemma doneVerify_ok:
  assumes nf: "no_faults (wfs w)" and op: "isOpen (thandle t) w" and c: "tcursor t = tsize t"
    and h: "tclaim t = None \<or> active w (tpartial t) = tclaim t"
    and hash: "sha256 (fdata (store (wfs w) ! tfile t)) = thash t"
  shows "\<exists>w'. doneVerify t w = (Inr (fdata (store (wfs w) ! tfile t)), w')"
proof -
  let ?f1 = "(wfs w)\<lparr>ops := Suc (ops (wfs w))\<rparr>" and ?f2 = "(wfs w)\<lparr>ops := Suc (Suc (ops (wfs w)))\<rparr>"
  obtain b w3 where s: "stillHolds (tpartial t) (tclaim t) (w\<lparr>wfs := ?f2\<rparr>) = (b, w3)" by (metis surj_pair)
  have b: "b" "wfs w3 = ?f2" "isOpen (thandle t) w3"
    using stillHolds_wrote [OF s, of 0] h wrote_open [of 0 _ w3 "thandle t"] op by auto
  have n: "no_faults ?f1" "no_faults ?f2" using nf by (simp_all add: no_faults_def)
  show ?thesis
    using nf n c op hash s b by (simp add: doneVerify_def heldRead_def hsys_ok Let_def)
qed

text \<open>The hooks of a receiver let a file through.\<close>

definition accepts :: "srEnv \<Rightarrow> bool" where
  "accepts env \<longleftrightarrow> (\<forall>h \<in> set_option (onPrepare env) \<union> set_option (onCommit env). \<forall>i n p z. h i n p z = None)"

lemma release_names:
  assumes "no_faults (wfs w)" and "release t w = w'"
  shows "names (wfs w') = (if tprivate t then filter (\<lambda>(q, _). q \<noteq> tpartial t) (names (wfs w)) else names (wfs w)) \<and>
    store (wfs w') = store (wfs w) \<and> no_faults (wfs w')"
proof -
  have "lookup (wfs w) p = None \<Longrightarrow> filter (\<lambda>(q, _). q \<noteq> p) (names (wfs w)) = names (wfs w)" for p
    by (intro filter_True) (auto simp: lookup_def map_of_eq_None_iff image_iff)
  then show ?thesis
    using assms by (auto simp: release_def releasePartial_def unclaimPartial_def try_remove_def os_Remove_def Let_def
      sys_ok lookup_def no_faults_def split: option.splits if_splits)
qed

definition final_name :: "srEnv \<Rightarrow> recvTransfer \<Rightarrow> world \<Rightarrow> string" where
  "final_name env t w = nameSuffix env (now w) (wseq w + 1) (tname t)"

definition final_path :: "srEnv \<Rightarrow> streamReceiver \<Rightarrow> recvTransfer \<Rightarrow> world \<Rightarrow> string" where
  "final_path env sr t w = filepath_Join [receivedDir sr, final_name env t w]"

lemma doneCommit_ok:
  assumes acc: "accepts env" and nf: "no_faults (wfs w)" and t: "map_of (transfers sr) i = Some t"
    and h: "tclaim t = None \<or> active w (tpartial t) = tclaim t"
    and l: "lookup (wfs w) (tpartial t) = Some (tfile t)" and ne: "final_path env sr t w \<noteq> tpartial t"
  shows "\<exists>w'. doneCommit env i t sr w =
      (encodeComplete i True [], [(final_name env t w, final_path env sr t w, tsize t)],
       sr\<lparr>transfers := adel i (transfers sr)\<rparr>, w') \<and>
    lookup (wfs w') (final_path env sr t w) = Some (tfile t) \<and> lookup (wfs w') (tpartial t) = None \<and>
    store (wfs w') = store (wfs w)"
proof -
  let ?p = "tpartial t" and ?q = "final_path env sr t w"
  obtain b w1 where s: "stillHolds ?p (tclaim t) ((closeFile (thandle t) w)\<lparr>wseq := wseq w + 1\<rparr>) = (b, w1)" by (metis surj_pair)
  have b: "b" "wfs w1 = wfs w" using stillHolds_wrote [OF s, of 0] h by auto
  let ?fs2 = "(wfs w)\<lparr>ops := Suc (ops (wfs w)),
      names := (?q, tfile t) # filter (\<lambda>(r, _). r \<noteq> ?p \<and> r \<noteq> ?q) (names (wfs w))\<rparr>"
  have rn: "os_Rename ?p ?q (wfs w) = (None, ?fs2)"
    using nf l by (simp add: os_Rename_def sys_ok lookup_def)
  let ?w3 = "release t (w1\<lparr>wfs := ?fs2\<rparr>)"
  have pr: "(case onPrepare env of None \<Rightarrow> None | Some g \<Rightarrow> g i n p z) = None"
    "(case onCommit env of None \<Rightarrow> None | Some g \<Rightarrow> g i n p z) = None" for n p z
    using acc by (auto simp: accepts_def split: option.splits)
  have dc: "doneCommit env i t sr w =
      (encodeComplete i True [], [(final_name env t w, ?q, tsize t)], sr\<lparr>transfers := adel i (transfers sr)\<rparr>, ?w3)"
    using s b rn t by (simp add: doneCommit_def Let_def pr forget_def final_path_def final_name_def)
  have rl: "names (wfs ?w3) = (if tprivate t then filter (\<lambda>(q, _). q \<noteq> ?p) (names ?fs2) else names ?fs2) \<and>
      store (wfs ?w3) = store (wfs w)"
    using release_names [of "w1\<lparr>wfs := ?fs2\<rparr>" t] nf by (simp add: no_faults_def)
  have nop: "map_of (filter (\<lambda>(r, _). r \<noteq> ?p \<and> r \<noteq> ?q) xs) ?p = None" for xs :: "(string \<times> nat) list"
    by (auto simp: map_of_eq_None_iff)
  have "lookup (wfs ?w3) ?q = Some (tfile t)" "lookup (wfs ?w3) ?p = None"
    using rl ne nop by (auto simp: lookup_def map_of_eq_None_iff split: if_splits)
  then show ?thesis using dc rl by blast
qed

lemma HandleFrame_done:
  "length i = 16 \<Longrightarrow> HandleFrame env (encodeStreamFrame streamKindDone i body) sr w =
     (case handleDone env i sr w of (r, sv, sr1, w1) \<Rightarrow> (Some r, sv, sr1, w1))"
  by (simp add: HandleFrame_def decode_stream split: prod.split)

lemma done_delivers:
  assumes i: "length i = 16" and acc: "accepts env" and nf: "no_faults (wfs w)"
    and t: "map_of (transfers sr) i = Some t" and s: "synced c t w" and full: "tcursor t = length c"
    and hash: "thash t = sha256 c"
    and l: "lookup (wfs w) (tpartial t) = Some (tfile t)" and ne: "final_path env sr t w \<noteq> tpartial t"
  shows "\<exists>w'. HandleFrame env (encodeStreamFrame streamKindDone i body) sr w =
      (Some (encodeComplete i True []), [(final_name env t w, final_path env sr t w, length c)],
       sr\<lparr>transfers := adel i (transfers sr)\<rparr>, w') \<and>
    lookup (wfs w') (final_path env sr t w) = Some (tfile t) \<and> lookup (wfs w') (tpartial t) = None \<and>
    fdata (store (wfs w') ! tfile t) = c"
proof -
  have h: "tclaim t = None \<or> active w (tpartial t) = tclaim t" and d: "fdata (store (wfs w) ! tfile t) = c"
    and sz: "tsize t = length c" using s full by (auto simp: synced_def)
  obtain b w1 where s1: "stillHolds (tpartial t) (tclaim t) w = (b, w1)" by (metis surj_pair)
  have b: "b" "wfs w1 = wfs w" "active w1 = active w" "isOpen (thandle t) w1"
    using stillHolds_wrote [OF s1, of 0] h wrote_open [of 0 w w1 "thandle t"] s by (auto simp: synced_def)
  obtain w2 where v: "doneVerify t w1 = (Inr c, w2)"
    using doneVerify_ok [of w1 t] nf h d sz full hash b by auto
  have t2: "same_files (wfs w) (wfs w2)" "active w2 = active w" "wseq w2 = wseq w"
    using doneVerify_touched [OF v] stillHolds_touched [OF s1] b by (simp_all add: touched_def)
  have fn: "final_name env t w2 = final_name env t w" "final_path env sr t w2 = final_path env sr t w"
    using t2 by (simp_all add: final_name_def final_path_def same_files_def)
  obtain w' where w': "doneCommit env i t sr w2 =
      (encodeComplete i True [], [(final_name env t w, final_path env sr t w, tsize t)],
       sr\<lparr>transfers := adel i (transfers sr)\<rparr>, w')"
    "lookup (wfs w') (final_path env sr t w) = Some (tfile t)" "lookup (wfs w') (tpartial t) = None"
    "store (wfs w') = store (wfs w2)"
    using doneCommit_ok [OF acc _ t, of w2] ne nf h l t2 fn by (auto simp: same_files_def no_faults_def lookup_def)
  have "handleDone env i sr w = doneCommit env i t sr w2" using t s1 b v by (simp add: handleDone_def)
  then show ?thesis
    using w' t2 d sz HandleFrame_done [OF i, of env body sr w] by (auto simp: same_files_def)
qed

section \<open>Names\<close>

lemma plain_partial: "plain_name ''.partial''"
  by (simp add: plain_name_def)

lemma partial_path:
  assumes "receivedDir sr \<noteq> []" and "length i = 16" and "(p, priv) \<in> partial_names env (shared_partial sr i)"
  obtains h where "plain_name h" and "p = filepath_Join [partialDir sr, h]"
    and "h = (if priv then hex i @ drop (length (hex i)) h else hex i)" and "priv \<longleftrightarrow> CHR ''.'' \<in> set h"
proof -
  have d: "partialDir sr \<noteq> []" using Join_elems(2) [OF assms(1) plain_partial] by (simp add: partialDir_def)
  have pl: "plain_name (hex i)" and pl2: "plain_name (hex i @ ''.'' @ hex b)" and nd: "CHR ''.'' \<notin> set (hex i)" for b
    using assms(2) by (auto intro!: plain_long)
  show ?thesis
    using assms(3) that [OF pl] that [OF pl2] nd Join_append [OF d pl pl2]
    by (auto simp: partial_names_def shared_partial_def)
qed

lemma final_not_partial:
  assumes "receivedDir sr \<noteq> []" and "length i = 16" and "(tpartial t, priv) \<in> partial_names env (shared_partial sr i)"
    and "plain_name (final_name env t w)"
  shows "final_path env sr t w \<noteq> tpartial t"
proof -
  obtain h where h: "plain_name h" "tpartial t = filepath_Join [partialDir sr, h]"
    using partial_path [OF assms(1-3)] by blast
  show ?thesis
    using Join_levels [OF assms(1) plain_partial h(1) assms(4)] by (simp add: h(2) final_path_def partialDir_def)
qed

section \<open>Delivery\<close>

definition done_frame :: "bytes \<Rightarrow> Frame" where
  "done_frame i = encodeStreamFrame streamKindDone i []"

definition init_frame :: "bytes \<Rightarrow> bytes \<Rightarrow> string \<Rightarrow> Frame" where
  "init_frame i c name = encodeInit i (word_of_nat (length c)) (sha256 c) (word_of_nat StreamChunkSize) name"

text \<open>The environment of a receiver whose final names are plain and whose hooks accept.\<close>

definition friendly :: "srEnv \<Rightarrow> bool" where
  "friendly env \<longleftrightarrow> accepts env \<and> (\<forall>n q b. CHR ''/'' \<notin> set b \<longrightarrow> plain_name (nameSuffix env n q b))"

lemma sanitize_no_slash: "CHR ''/'' \<notin> set (sanitizeBase name)"
  using Base_slash_cases [of name] by (auto simp: sanitizeBase_def Let_def)

lemma init_starts:
  assumes i: "length i = 16" and n: "length name \<le> 255" and big: "length c < 2 ^ 64"
    and nf: "no_faults (wfs w)" and wf: "wf_fs (wfs w)" and new: "map_of (transfers sr) i = None"
    and pre: "may_resume env sr i c w"
    and r: "HandleFrame env (init_frame i c name) sr w = (Some (encodeOffset streamKindInitAck i off), sv, sr1, w1)"
  shows "sv = [] \<and> (\<exists>t. sr1 = sr\<lparr>transfers := aput i t (transfers sr)\<rparr> \<and> synced c t w1 \<and> tcursor t = unat off \<and> tpending t = [] \<and>
    thash t = sha256 c \<and> tname t = sanitizeBase name \<and> (tpartial t, tprivate t) \<in> partial_names env (shared_partial sr i) \<and>
    lookup (wfs w1) (tpartial t) = Some (tfile t) \<and> no_faults (wfs w1) \<and> wf_fs (wfs w1))"
proof -
  let ?b = "initBody (word_of_nat (length c)) (sha256 c) (word_of_nat StreamChunkSize) name"
  have dec: "decodeInit ?b = Some (word_of_nat (length c), sha256 c, word_of_nat StreamChunkSize, name)"
    using n by (intro decodeInit_initBody) simp_all
  obtain f' where h: "handleInit env i ?b sr w = (f', sr1, w1)" and f': "f' = encodeOffset streamKindInitAck i off" and sv: "sv = []"
    using r i by (auto simp: init_frame_def encodeInit_def HandleFrame_def decode_stream split: prod.splits)
  show ?thesis
    using handleInit_accepted [OF nf wf new pre big dec] h f' sv by simp
qed

text \<open>
  C8. Delivery of a chunked file, whatever the order of its chunks.  A receiver that answers the
  INIT of content \<open>c\<close> with an offset, then receives any list of pieces of \<open>c\<close> (out of order,
  repeated, overlapping) and has acknowledged all of \<open>c\<close> when DONE arrives, answers COMPLETE with
  success, stores exactly \<open>c\<close> under the final path, reports that path once, keeps no \<^verbatim>\<open>.partial\<close>
  and no transfer.  The file may have been resumed from a prefix left by an earlier attempt.
\<close>

theorem transfer_delivers:
  assumes "length i = 16" and "length name \<le> 255" and big: "length c < 2 ^ 64"
    and "no_faults (wfs w)" and "wf_fs (wfs w)" and "map_of (transfers sr) i = None"
    and "may_resume env sr i c w" and dir: "receivedDir sr \<noteq> []" and env: "friendly env"
    and ini: "HandleFrame env (init_frame i c name) sr w = (Some (encodeOffset streamKindInitAck i off), sv, sr1, w1)"
    and ps: "\<forall>e \<in> set ps. piece c e"
    and run: "handle_all env (map (chunk_frame i) ps) sr1 w1 = (as, svs, sr2, w2)"
    and full: "last (Some (encodeOffset streamKindAck i off) # as) =
      Some (encodeOffset streamKindAck i (word_of_nat (length c)))"
  shows "sv = [] \<and> svs = [] \<and>
    (let final = nameSuffix env (now w2) (wseq w2 + 1) (sanitizeBase name); path = filepath_Join [receivedDir sr, final]
     in case HandleFrame env (done_frame i) sr2 w2 of
          (a, sv3, sr3, w3) \<Rightarrow>
            a = Some (encodeComplete i True []) \<and> sv3 = [(final, path, length c)] \<and>
            map_option (\<lambda>ino. fdata (store (wfs w3) ! ino)) (lookup (wfs w3) path) = Some c \<and>
            map_of (transfers sr3) i = None \<and>
            map_option (\<lambda>t. lookup (wfs w3) (tpartial t)) (map_of (transfers sr2) i) = Some None)"
proof -
  obtain t where sv: "sv = []" and t: "sr1 = sr\<lparr>transfers := aput i t (transfers sr)\<rparr>" "synced c t w1" "tcursor t = unat off"
    "thash t = sha256 c" "tname t = sanitizeBase name" "(tpartial t, tprivate t) \<in> partial_names env (shared_partial sr i)"
    "lookup (wfs w1) (tpartial t) = Some (tfile t)" "no_faults (wfs w1)"
    using init_starts [OF assms(1-7) ini] by blast
  obtain t' where svs: "svs = []" and t': "map_of (transfers sr2) i = Some t'" "synced c t' w2" "static t' = static t"
    "wrote (tfile t) w1 w2" "receivedDir sr2 = receivedDir sr"
    "last (None # as) = (if ps = [] then None else Some (encodeOffset streamKindAck i (word_of_nat (tcursor t'))))"
    and as: "length as = length ps"
    using chunks_synced [OF assms(1) big _ t(2) t(8) ps run] t(1) by auto
  have enc: "encodeOffset streamKindAck i a = encodeOffset streamKindAck i b \<Longrightarrow> a = b" for a b
    using offset_body.enc_inject by (simp add: encodeOffset_def encodeStreamFrame_def mkFrame_def)
  have c: "tcursor t' = length c"
  proof (cases "ps = []")
    case True
    then have "t' = t" "off = word_of_nat (length c)" using run t'(1) t(1) full as enc by auto
    then show ?thesis using t(3) big by (simp add: unat_of_nat)
  next
    case False
    then have "encodeOffset streamKindAck i (word_of_nat (tcursor t')) = encodeOffset streamKindAck i (word_of_nat (length c))"
      using full as t'(6) by (cases as) auto
    then have "(word_of_nat (tcursor t') :: u64) = word_of_nat (length c)" by (rule enc)
    moreover have "tcursor t' \<le> length c" using t'(2) by (simp add: synced_def tinv_def)
    ultimately show ?thesis using big by (simp add: word_of_nat_eq_iff take_bit_nat_eq_self)
  qed
  have st: "tfile t' = tfile t" "tpartial t' = tpartial t" "tname t' = sanitizeBase name" "thash t' = sha256 c"
    using t'(3) t(4,5) by (simp_all add: static_def)
  have l: "lookup (wfs w2) (tpartial t') = Some (tfile t')" "no_faults (wfs w2)"
    using t(7,8) wrote_wf [OF t'(4)] by (simp_all add: st)
  have pn: "plain_name (final_name env t w2)"
    using env sanitize_no_slash [of name] t(5) by (simp add: friendly_def final_name_def)
  have fp: "final_path env sr2 t' w2 = filepath_Join [receivedDir sr, nameSuffix env (now w2) (wseq w2 + 1) (sanitizeBase name)]"
    "final_name env t' w2 = nameSuffix env (now w2) (wseq w2 + 1) (sanitizeBase name)"
    by (simp_all add: final_path_def final_name_def t'(5) st)
  have ne: "final_path env sr2 t' w2 \<noteq> tpartial t'"
    using final_not_partial [OF dir assms(1) t(6) pn] by (simp add: final_path_def final_name_def t'(5) st t(5))
  obtain w3 where "HandleFrame env (done_frame i) sr2 w2 =
      (Some (encodeComplete i True []), [(final_name env t' w2, final_path env sr2 t' w2, length c)],
       sr2\<lparr>transfers := adel i (transfers sr2)\<rparr>, w3)"
    "lookup (wfs w3) (final_path env sr2 t' w2) = Some (tfile t')" "lookup (wfs w3) (tpartial t') = None"
    "fdata (store (wfs w3) ! tfile t') = c"
    using done_delivers [OF assms(1) _ l(2) t'(1,2) c st(4) l(1) ne] env unfolding done_frame_def friendly_def by blast
  then show ?thesis using sv svs t'(1) by (simp add: Let_def fp st)
qed

text \<open>A receiver with an empty directory, without quota and with space to spare.\<close>

definition demo_world :: world where
  "demo_world = \<lparr>wfs = \<lparr>names = [], dirs = [], store = [], fclock = 0, ops = 0, opFault = (\<lambda>_ _. None), shortWrite = (\<lambda>_. 0)\<rparr>,
     claims = [], active = Map.empty, wseq = 0, handles = []\<rparr>"

definition demo_env :: srEnv where
  "demo_env = \<lparr>nameSuffix = (\<lambda>_ _ b. b @ ''-1''), onPrepare = None, onCommit = None, freeDiskBytes = (\<lambda>_ _. None),
     randSuffix = (\<lambda>_. Inr [0, 0, 0, 0])\<rparr>"

definition demo_sr :: streamReceiver where
  "demo_sr = newReceiver ''/r'' 0"

definition demo_id :: bytes where
  "demo_id = [0, 0, 0, 0, 0, 0, 0, 0, 0, 0, 0, 0, 0, 0, 0, 0]"

lemma demo_friendly: "friendly demo_env"
proof -
  have "plain_name (b @ ''-1'')" if "CHR ''/'' \<notin> set b" for b
    using that by (auto simp: plain_name_def append_eq_Cons_conv)
  then show ?thesis by (simp add: friendly_def accepts_def demo_env_def)
qed

definition demo_part :: string where
  "demo_part = shared_partial demo_sr demo_id"

definition demo_t :: recvTransfer where
  "demo_t = \<lparr>thandle = 0, tfile = 0, tpartial = demo_part, tprivate = False, tclaim = Some 0, tname = ''f'', tsize = 2,
     thash = sha256 [7, 8], tcursor = 0, tpending = [], tpendBytes = 0, tquotaBudget = -1\<rparr>"

definition demo_w1 :: world where
  "demo_w1 = demo_world\<lparr>wfs := (wfs demo_world)\<lparr>names := [(demo_part, 0)],
       dirs := [filepath_Clean (partialDir demo_sr)], store := [\<lparr>fdata = [], fmod = 0\<rparr>], ops := 4\<rparr>,
     claims := [0], active := [demo_part \<mapsto> 0], handles := [True]\<rparr>"

lemmas demo_init_simps = HandleFrame_def init_frame_def encodeInit_def decode_stream handleInit_def decodeInit_initBody
  demo_sr_def newReceiver_def demo_world_def os_MkdirAll_def sys_def initPrior_def selectPartial_def
  admitClaim_def admit_def quotaGate_def diskGate_def demo_env_def partialHeld_def claimPartial_def initOpen_def openFile_def
  os_OpenCreate_def lookup_def file_Stat_def resumeOffset_def file_Truncate_def file_Truncate0_def set_data_def
  fsize_def maxConcurrentTransfers_def aput_def shared_partial_def partialDir_def
  sanitizeBase_def filepath_Base_def Let_def

lemma demo_init:
  "HandleFrame demo_env (init_frame demo_id [7, 8] ''f'') demo_sr demo_world =
     (Some (encodeOffset streamKindInitAck demo_id 0), [], demo_sr\<lparr>transfers := [(demo_id, demo_t)]\<rparr>, demo_w1)"
  by (simp add: demo_init_simps demo_id_def demo_t_def demo_part_def demo_w1_def)

lemma demo_chunks:
  "\<exists>sr2 w2. handle_all demo_env (map (chunk_frame demo_id) [(1, [8]), (0, [7])])
     (demo_sr\<lparr>transfers := [(demo_id, demo_t)]\<rparr>) demo_w1 =
     ([Some (encodeOffset streamKindAck demo_id 0), Some (encodeOffset streamKindAck demo_id 2)], [], sr2, w2)"
  by (simp add: chunk_frame_def HandleFrame_chunk demo_id_def handleChunk_def decodeChunk_def chunkBody_def codec_simps Let_def
     demo_t_def placeChunk_def writeAt_def stillHolds_def demo_w1_def demo_world_def aput_def maxPendingBytes_def
     streamWindow_def StreamChunkSize_def file_WriteAt_def sys_def set_data_def overwrite_def drain.simps adel_def isOpen_def)

theorem transfer_delivers_witness:
  "\<exists>sr2 w2 sr3 w3. HandleFrame demo_env (done_frame demo_id) sr2 w2 =
     (Some (encodeComplete demo_id True []), [(''f-1'', ''/r/f-1'', 2)], sr3, w3) \<and>
     map_option (\<lambda>ino. fdata (store (wfs w3) ! ino)) (lookup (wfs w3) ''/r/f-1'') = Some [7, 8]"
proof -
  obtain sr2 w2 where run: "handle_all demo_env (map (chunk_frame demo_id) [(1, [8]), (0, [7])])
     (demo_sr\<lparr>transfers := [(demo_id, demo_t)]\<rparr>) demo_w1 =
     ([Some (encodeOffset streamKindAck demo_id 0), Some (encodeOffset streamKindAck demo_id 2)], [], sr2, w2)"
    using demo_chunks by blast
  have 1: "no_faults (wfs demo_world)" "wf_fs (wfs demo_world)" "map_of (transfers demo_sr) demo_id = None"
    "may_resume demo_env demo_sr demo_id [7, 8] demo_world" "receivedDir demo_sr \<noteq> []"
    by (simp_all add: no_faults_def wf_fs_def demo_world_def demo_sr_def newReceiver_def may_resume_def
       prefix_at_def lookup_def)
  have 2: "filepath_Join [receivedDir demo_sr, ''f-1''] = ''/r/f-1''"
    "nameSuffix demo_env n q (sanitizeBase ''f'') = ''f-1''" for n q
    by (simp_all add: demo_sr_def newReceiver_def demo_env_def sanitizeBase_def filepath_Base_def
      filepath_Join_def filepath_Clean_def clean_elems_def clean_step_def)
  obtain a sv3 sr3 w3 where d: "HandleFrame demo_env (done_frame demo_id) sr2 w2 = (a, sv3, sr3, w3)" by (metis surj_pair)
  have "a = Some (encodeComplete demo_id True []) \<and> sv3 = [(''f-1'', ''/r/f-1'', Suc (Suc 0))] \<and>
      map_option (\<lambda>ino. fdata (store (wfs w3) ! ino)) (lookup (wfs w3) ''/r/f-1'') = Some [7, 8]"
    using transfer_delivers [OF _ _ _ 1 demo_friendly demo_init _ run] d
    by (simp add: demo_id_def piece_def 2 Let_def)
  then show ?thesis using d by (metis numeral_2_eq_2)
qed
text \<open>
  C33. Bounds whatever a peer sends and whatever fails.  After any sequence of frames, with any
  outcome of every file operation, a receiver holds at most 64 transfers; each has written at
  most its declared size, and the chunks it holds back lie inside that size and take at most
  16 windows of 48 KiB, which is also the value of its byte counter.
\<close>

theorem stream_bounds:
  assumes "handle_all env fs (newReceiver dir q) w = (as, sv, sr, w')"
  shows "length (transfers sr) \<le> 64 \<and> distinct (map fst (transfers sr)) \<and>
    (\<forall>(i, t) \<in> set (transfers sr). tcursor t \<le> tsize t \<and>
       tpendBytes t = sum_list (map (length \<circ> snd) (tpending t)) \<and> tpendBytes t \<le> 16 * 48 * 1024 \<and>
       (\<forall>(off, d) \<in> set (tpending t). off + length d \<le> tsize t)) \<and>
    sum_list (map (tpendBytes \<circ> snd) (transfers sr)) \<le> 64 * (16 * 48 * 1024)"
proof -
  have "srinv (newReceiver dir q)" by (simp add: srinv_def newReceiver_def)
  then have inv: "srinv sr" using assms by (rule handle_all_srinv)
  have mp: "maxPendingBytes = 16 * 48 * 1024" by (simp add: maxPendingBytes_def streamWindow_def StreamChunkSize_def)
  have l: "length (transfers sr) \<le> 64" using inv by (simp add: srinv_def maxConcurrentTransfers_def)
  have "\<forall>x \<in> set (map (tpendBytes \<circ> snd) (transfers sr)). x \<le> 16 * 48 * 1024"
    using inv mp by (auto simp: srinv_def tinv_def)
  then have "sum_list (map (tpendBytes \<circ> snd) (transfers sr)) \<le> length (transfers sr) * (16 * 48 * 1024)"
    using sum_list_mono [of "transfers sr" "tpendBytes \<circ> snd" "\<lambda>_. 16 * 48 * 1024"]
    by (simp add: sum_list_triv comp_def)
  also have "\<dots> \<le> 64 * (16 * 48 * 1024)" using l by (rule mult_le_mono1)
  finally show ?thesis using inv l mp by (auto simp: srinv_def tinv_def)
qed

theorem stream_bounds_witness:
  "\<exists>sr w. handle_all demo_env [init_frame demo_id [7, 8] ''f''] demo_sr demo_world =
     ([Some (encodeOffset streamKindInitAck demo_id 0)], [], sr, w) \<and> transfers sr = [(demo_id, demo_t)] \<and>
     tcursor demo_t \<le> tsize demo_t"
proof -
  have h: "handle_all demo_env [init_frame demo_id [7, 8] ''f''] (newReceiver ''/r'' 0) demo_world =
      ([Some (encodeOffset streamKindInitAck demo_id 0)], [], demo_sr\<lparr>transfers := [(demo_id, demo_t)]\<rparr>, demo_w1)"
    using demo_init by (simp add: demo_sr_def)
  show ?thesis using h stream_bounds [OF h] by (simp add: demo_sr_def)
qed

end
