(* ===== verification/InboxProps.thy ===== *)
theory InboxProps
  imports InboxBudget
begin

text \<open>
  What the inbox accounting guarantees: the low-water mark is exact, admitted messages stay
  under the byte cap, eviction takes the oldest messages first and never one in flight.
\<close>

section \<open>Sorting\<close>

locale slice_sort =
  fixes srt :: sorter
  assumes perm: "mset (srt xs) = mset xs"
    and ordered: "sorted (map imod (srt xs))"
begin

lemma set_srt: "set (srt xs) = set xs"
  by (metis perm set_mset_mset)

lemma length_srt: "length (srt xs) = length xs"
  by (metis perm size_mset)

lemma sum_srt: "sum_list (map isize (srt xs)) = sum_list (map isize xs)"
  by (metis perm mset_map sum_mset_sum_list)

lemma distinct_srt: "distinct (map iname xs) \<Longrightarrow> distinct (map iname (srt xs))"
  by (metis perm mset_map mset_eq_imp_distinct_iff)

text \<open>Files without those of a sorted prefix, by a key that tells them apart.\<close>

lemma kept:
  assumes "distinct (map g xs)"
  shows "mset (filter (\<lambda>f. g f \<notin> g ` set (take k (srt xs))) xs) = mset (drop k (srt xs))"
proof -
  let ?P = "\<lambda>f. g f \<notin> g ` set (take k (srt xs))"
  have d: "distinct (map g (take k (srt xs) @ drop k (srt xs)))"
    using assms perm [of xs] by (metis append_take_drop_id mset_map mset_eq_imp_distinct_iff)
  have "mset (filter ?P xs) = mset (filter ?P (srt xs))"
    by (metis mset_filter perm)
  also have "filter ?P (srt xs) = filter ?P (take k (srt xs)) @ filter ?P (drop k (srt xs))"
    by (metis append_take_drop_id filter_append)
  also have "filter ?P (take k (srt xs)) = []" by (simp add: filter_empty_conv)
  also have "filter ?P (drop k (srt xs)) = drop k (srt xs)"
    using d by (intro filter_True) (auto simp del: append_take_drop_id)
  finally show ?thesis by simp
qed

text \<open>A prefix of the sorted files is at most as recent as the rest.\<close>

lemma prefix_oldest: "f \<in> set (take k (srt xs)) \<Longrightarrow> g \<in> set (drop k (srt xs)) \<Longrightarrow> imod f \<le> imod g"
  using ordered [of xs] sorted_append [of "map imod (take k (srt xs))" "map imod (drop k (srt xs))"]
  by (auto simp flip: map_append)

end

interpretation ks: slice_sort "sort_key imod"
  by unfold_locales simp_all

section \<open>The low-water mark\<close>

lemma lowWater_eq:
  assumes "0 \<le> m" and "m < 2 ^ 63"
  shows "inboxLowWater m = m * 90 div 100"
proof -
  have q: "m sdiv 100 = m div 100" and r: "m smod 100 = m mod 100"
    using assms by (simp_all add: signed_divide_int_def signed_modulo_int_def sgn_if minus_div_mult_eq_mod)
  have r': "(m mod 100 * 90) sdiv 100 = m mod 100 * 90 div 100"
    using assms by (simp add: signed_divide_int_def sgn_if)
  have b1: "0 \<le> m div 100 * 90" "m div 100 * 90 \<le> m * 90 div 100" "m * 90 div 100 \<le> m"
    using assms by auto
  have eq: "m div 100 * 90 + m mod 100 * 90 div 100 = m * 90 div 100"
  proof -
    have "m * 90 = m mod 100 * 90 + (m div 100 * 90) * 100"
      using div_mult_mod_eq [of m 100] by linarith
    then have "m * 90 div 100 = (m mod 100 * 90 + (m div 100 * 90) * 100) div 100" by simp
    also have "\<dots> = m div 100 * 90 + m mod 100 * 90 div 100" by (rule div_mult_self1) simp
    finally have "m * 90 div 100 = m div 100 * 90 + m mod 100 * 90 div 100" .
    then show ?thesis by simp
  qed
  have m3: "i64 (m div 100 * 90) = m div 100 * 90" "i64 (m mod 100 * 90) = m mod 100 * 90"
    using b1 assms pos_mod_bound [of 100 m] by (intro i64_id; simp)+
  show ?thesis
    unfolding inboxLowWater_def inboxLowWaterPercent_def q r m3 r' eq
    by (rule i64_id) (use b1 assms in linarith)+
qed

section \<open>Scans\<close>

definition file_info :: "fsys \<Rightarrow> string \<times> nat \<Rightarrow> inboxFile" where
  "file_info fs e = \<lparr>iname = filepath_Base (fst e), imod = fmod (store fs ! snd e), isize = fsize fs (snd e)\<rparr>"

definition esize :: "fsys \<Rightarrow> string \<times> nat \<Rightarrow> int" where
  "esize fs e = fsize fs (snd e)"

lemma esize_pair [simp]: "esize fs (p, i) = fsize fs i"
  by (simp add: esize_def)

lemma isize_info [simp]: "isize \<circ> file_info fs = esize fs"
  by (simp add: fun_eq_iff file_info_def esize_def)

definition dir_files :: "string \<Rightarrow> fsys \<Rightarrow> (string \<times> nat) list" where
  "dir_files dir fs = filter (\<lambda>e. entry_of dir (fst e)) (names fs)"

text \<open>The path of a listed file, as the code builds it.\<close>

definition ipath :: "string \<Rightarrow> inboxFile \<Rightarrow> string" where
  "ipath dir f = filepath_Join [dir, iname f]"

lemma ipath_info: "e \<in> set (dir_files dir fs) \<Longrightarrow> ipath dir (file_info fs' e) = fst e"
  by (auto simp: dir_files_def entry_of_def ipath_def file_info_def)

lemma Stat_no_faults:
  assumes "no_faults fs" and "lookup fs p = Some i"
  shows "os_Stat p fs = (Inr (fmod (store fs ! i), fsize fs i), fs\<lparr>ops := Suc (ops fs)\<rparr>)"
  using assms by (simp add: os_Stat_def sys_def no_faults_def lookup_def fsize_def)

lemma ops_sel [simp]:
  "no_faults (fs\<lparr>ops := n\<rparr>) = no_faults fs" "lookup (fs\<lparr>ops := n\<rparr>) = lookup fs"
  "fsize (fs\<lparr>ops := n\<rparr>) = fsize fs" "wf_fs (fs\<lparr>ops := n\<rparr>) = wf_fs fs"
  "dir_files d (fs\<lparr>ops := n\<rparr>) = dir_files d fs" "file_info (fs\<lparr>ops := n\<rparr>) = file_info fs"
  "esize (fs\<lparr>ops := n\<rparr>) = esize fs"
  by (simp_all add: esize_def no_faults_def lookup_def fsize_def wf_fs_def dir_files_def file_info_def fun_eq_iff)

lemma wf_lookup: "wf_fs fs \<Longrightarrow> (p, i) \<in> set (names fs) \<Longrightarrow> lookup fs p = Some i"
  by (simp add: wf_fs_def lookup_def)

lemma scan_dirs: "scan_entries dir (map (\<lambda>p. (filepath_Base p, True)) ps) fs = (([], 0), fs)"
  by (induction ps) simp_all

lemma scan_files:
  assumes "no_faults fs" and "wf_fs fs" and "set es \<subseteq> set (dir_files dir fs)"
  shows "\<exists>n. scan_entries dir (map (\<lambda>(p, i). (filepath_Base p, False)) es @
      map (\<lambda>p. (filepath_Base p, True)) ps) fs =
    ((map (file_info fs) es, sum_list (map (esize fs) es)), fs\<lparr>ops := n\<rparr>)"
  using assms
proof (induction es arbitrary: fs)
  case Nil
  show ?case by (rule exI [of _ "ops fs"]) (simp add: scan_dirs)
next
  case (Cons e es)
  obtain p i where e: "e = (p, i)" by (cases e)
  have pe: "filepath_Join [dir, filepath_Base p] = p" and l: "lookup fs p = Some i"
    using Cons.prems e wf_lookup [of fs p i] by (auto simp: dir_files_def entry_of_def)
  let ?fs = "fs\<lparr>ops := Suc (ops fs)\<rparr>"
  obtain n where "scan_entries dir (map (\<lambda>(p, i). (filepath_Base p, False)) es @
      map (\<lambda>p. (filepath_Base p, True)) ps) ?fs =
    ((map (file_info ?fs) es, sum_list (map (esize ?fs) es)), ?fs\<lparr>ops := n\<rparr>)"
    using Cons.IH [of ?fs] Cons.prems by auto
  then show ?case
    using Stat_no_faults [OF Cons.prems(1) l] pe
    by (auto simp: e file_info_def)
qed

lemma scanInbox_no_faults:
  assumes "no_faults fs" and "wf_fs fs"
  shows "\<exists>n. scanInbox dir fs =
    (Inr (map (file_info fs) (dir_files dir fs), sum_list (map (esize fs) (dir_files dir fs))),
     fs\<lparr>ops := n\<rparr>)"
proof -
  let ?fs = "fs\<lparr>ops := Suc (ops fs)\<rparr>"
  obtain n where n: "scan_entries dir (map (\<lambda>(p, i). (filepath_Base p, False)) (dir_files dir fs) @
      map (\<lambda>p. (filepath_Base p, True)) (filter (entry_of dir) (dirs fs))) ?fs =
    ((map (file_info ?fs) (dir_files dir fs), sum_list (map (esize ?fs) (dir_files dir fs))),
      ?fs\<lparr>ops := n\<rparr>)"
    using scan_files [of ?fs "dir_files dir fs" dir] assms by auto
  have "(\<lambda>(p, i). entry_of dir p) = (\<lambda>e :: string \<times> nat. entry_of dir (fst e))" by auto
  then have "os_ReadDir dir fs = (Inr (map (\<lambda>(p, i). (filepath_Base p, False)) (dir_files dir fs) @
      map (\<lambda>p. (filepath_Base p, True)) (filter (entry_of dir) (dirs fs))), ?fs)"
    using assms(1) by (simp add: os_ReadDir_def sys_def no_faults_def dir_files_def)
  with n show ?thesis by (auto simp: scanInbox_def)
qed

text \<open>The settled files of a directory: those no write in progress owns.\<close>

definition settled_files :: "string \<Rightarrow> inboxBudget \<Rightarrow> fsys \<Rightarrow> (string \<times> nat) list" where
  "settled_files dir b fs = filter (\<lambda>e. fst e \<notin> inflight b) (dir_files dir fs)"

definition settled :: "string \<Rightarrow> inboxBudget \<Rightarrow> fsys \<Rightarrow> int" where
  "settled dir b fs = sum_list (map (esize fs) (settled_files dir b fs))"

lemma sum_filter_split:
  "sum_list (map g xs) - sum_list (map g (filter P xs)) = (sum_list (map g (filter (\<lambda>x. \<not> P x) xs)) :: int)"
  by (induction xs) auto

lemma rescan_no_faults:
  assumes "no_faults fs" and "wf_fs fs"
  shows "\<exists>n. rescanLocked dir b fs =
    (Inr (map (file_info fs) (settled_files dir b fs)),
     b\<lparr>scans := Suc (scans b), bdir := dir, known := True, onDisk := settled dir b fs\<rparr>, fs\<lparr>ops := n\<rparr>)"
proof -
  obtain n where n: "scanInbox dir fs =
    (Inr (map (file_info fs) (dir_files dir fs), sum_list (map (esize fs) (dir_files dir fs))),
     fs\<lparr>ops := n\<rparr>)"
    using scanInbox_no_faults [OF assms] by blast
  let ?busy = "\<lambda>f. filepath_Join [dir, iname f] \<in> inflight b"
  have path: "filepath_Join [dir, iname (file_info fs e)] = fst e" if "e \<in> set (dir_files dir fs)" for e
    using ipath_info [OF that] by (simp add: ipath_def)
  have busy: "filter ?busy (map (file_info fs) (dir_files dir fs)) =
      map (file_info fs) (filter (\<lambda>e. fst e \<in> inflight b) (dir_files dir fs))"
    and free: "filter (\<lambda>f. \<not> ?busy f) (map (file_info fs) (dir_files dir fs)) =
      map (file_info fs) (settled_files dir b fs)"
    unfolding settled_files_def filter_map o_def
    by (auto simp: path split_beta intro!: arg_cong [where f = "map _"] filter_cong)
  have tot: "sum_list (map (esize fs) (dir_files dir fs)) -
      sum_list (map (esize fs) (filter (\<lambda>e. fst e \<in> inflight b) (dir_files dir fs))) =
      settled dir b fs"
    unfolding settled_def settled_files_def sum_filter_split ..
  have none: "inflight b = {} \<Longrightarrow> settled_files dir b fs = dir_files dir fs"
    by (simp add: settled_files_def)
  show ?thesis
    using n busy free tot none
    by (auto simp: rescanLocked_def Let_def settled_def)
qed

section \<open>Removals\<close>

definition without :: "string set \<Rightarrow> fsys \<Rightarrow> nat \<Rightarrow> fsys" where
  "without R fs n = fs\<lparr>names := filter (\<lambda>(q, i). q \<notin> R) (names fs), ops := n\<rparr>"

lemma without_sel [simp]:
  "names (without R fs n) = filter (\<lambda>(q, i). q \<notin> R) (names fs)" "store (without R fs n) = store fs"
  "opFault (without R fs n) = opFault fs" "ops (without R fs n) = n" "no_faults (without R fs n) = no_faults fs"
  "dirs (without R fs n) = dirs fs"
  by (simp_all add: without_def no_faults_def)

lemma without_without [simp]: "without R (without S fs m) n = without (S \<union> R) fs n"
  by (auto simp: without_def filter_filter intro!: fsys.unfold_congs filter_cong)

lemma without_empty: "without {} fs (ops fs) = fs"
  by (simp add: without_def)

lemma lookup_without: "lookup (without R fs n) p = (if p \<in> R then None else lookup fs p)"
proof -
  have "map_of (filter (\<lambda>(q, i). q \<notin> R) xs) p = (if p \<in> R then None else map_of xs p)" for xs :: "(string \<times> nat) list"
    by (induction xs) auto
  then show ?thesis by (simp add: lookup_def)
qed

lemma Remove_cases:
  "(\<exists>e. os_Remove p fs = (Some e, without {} fs (Suc (ops fs)))) \<or>
   lookup fs p \<noteq> None \<and> os_Remove p fs = (None, without {p} fs (Suc (ops fs)))"
  by (auto simp: os_Remove_def sys_def lookup_def without_def split: option.splits)

lemma Remove_no_faults:
  assumes "no_faults fs" and "lookup fs p \<noteq> None"
  shows "os_Remove p fs = (None, without {p} fs (Suc (ops fs)))"
  using assms by (auto simp: os_Remove_def sys_def lookup_def without_def no_faults_def)

lemma remove_while_removes:
  "\<exists>rem n. subseq rem files \<and>
     remove_while dir files tot limit ev fs =
       ((tot - sum_list (map isize rem), ev + length rem), without (ipath dir ` set rem) fs n)"
proof (induction files arbitrary: tot ev fs)
  case Nil
  show ?case by (rule exI [of _ "[]"], rule exI [of _ "ops fs"]) (simp add: without_empty)
next
  case (Cons f files)
  show ?case
  proof (cases "tot > limit")
    case False
    then show ?thesis by (intro exI [of _ "[]"] exI [of _ "ops fs"]) (simp add: without_empty)
  next
    case True
    from Remove_cases [of "ipath dir f" fs] show ?thesis
    proof
      assume r: "\<exists>e. os_Remove (ipath dir f) fs = (Some e, without {} fs (Suc (ops fs)))"
      obtain rem n where "subseq rem files" "remove_while dir files tot limit ev (without {} fs (Suc (ops fs))) =
        ((tot - sum_list (map isize rem), ev + length rem),
         without (ipath dir ` set rem) (without {} fs (Suc (ops fs))) n)"
        using Cons.IH by blast
      then show ?thesis
        using True r
        by (intro exI [of _ rem] exI [of _ n]) (auto simp: ipath_def)
    next
      assume r: "lookup fs (ipath dir f) \<noteq> None \<and>
        os_Remove (ipath dir f) fs = (None, without {ipath dir f} fs (Suc (ops fs)))"
      obtain rem n where "subseq rem files" "remove_while dir files (tot - isize f) limit (ev + 1)
          (without {ipath dir f} fs (Suc (ops fs))) =
        ((tot - isize f - sum_list (map isize rem), ev + 1 + length rem),
         without (ipath dir ` set rem) (without {ipath dir f} fs (Suc (ops fs))) n)"
        using Cons.IH by blast
      then show ?thesis
        using True r
        by (intro exI [of _ "f # rem"] exI [of _ n]) (simp add: ipath_def)
    qed
  qed
qed

text \<open>Without faults a loop removes a prefix, and stops as soon as the rest is under the limit.\<close>

definition cut :: "inboxFile list \<Rightarrow> int \<Rightarrow> int \<Rightarrow> nat \<Rightarrow> bool" where
  "cut files tot limit k \<longleftrightarrow> k \<le> length files \<and>
     (k = length files \<or> tot - sum_list (map isize (take k files)) \<le> limit) \<and>
     (\<forall>j < k. limit < tot - sum_list (map isize (take j files)))"

lemma remove_while_no_faults:
  assumes "no_faults fs" and "\<And>f. f \<in> set files \<Longrightarrow> lookup fs (ipath dir f) \<noteq> None"
    and "distinct (map (ipath dir) files)"
  shows "\<exists>k n. cut files tot limit k \<and>
    remove_while dir files tot limit ev fs =
      ((tot - sum_list (map isize (take k files)), ev + k), without (ipath dir ` set (take k files)) fs n)"
  using assms
proof (induction files arbitrary: tot ev fs)
  case Nil
  show ?case by (rule exI [of _ 0], rule exI [of _ "ops fs"]) (simp add: without_empty cut_def)
next
  case (Cons f files)
  show ?case
  proof (cases "tot > limit")
    case False
    then show ?thesis
      by (intro exI [of _ 0] exI [of _ "ops fs"]) (simp add: without_empty cut_def)
  next
    case True
    let ?fs = "without {ipath dir f} fs (Suc (ops fs))"
    have r: "os_Remove (ipath dir f) fs = (None, ?fs)"
      using Cons.prems by (intro Remove_no_faults) auto
    have "lookup ?fs (ipath dir g) \<noteq> None" if g: "g \<in> set files" for g
    proof -
      have "ipath dir f \<noteq> ipath dir g" using g Cons.prems(3) by auto
      then show ?thesis using g Cons.prems(2) [of g] by (simp add: lookup_without)
    qed
    then obtain k n where k: "cut files (tot - isize f) limit k" and w: "remove_while dir files (tot - isize f) limit (ev + 1) ?fs =
        ((tot - isize f - sum_list (map isize (take k files)), ev + 1 + k),
         without (ipath dir ` set (take k files)) ?fs n)"
      using Cons.IH [of ?fs "tot - isize f" "ev + 1"] Cons.prems by auto
    have "cut (f # files) tot limit (Suc k)"
      using k True by (auto simp: cut_def less_Suc_eq_0_disj algebra_simps)
    then show ?thesis
      using True r w by (intro exI [of _ "Suc k"] exI [of _ n]) (simp add: ipath_def)
  qed
qed

section \<open>Only settled files of the directory are ever removed\<close>

text \<open>
  \<open>evicts dir b fs fs'\<close>: \<open>fs'\<close> is \<open>fs\<close> without some files of \<open>dir\<close> that no write in progress owns.
\<close>

definition evicts :: "string \<Rightarrow> inboxBudget \<Rightarrow> fsys \<Rightarrow> fsys \<Rightarrow> bool" where
  "evicts dir b fs fs' \<longleftrightarrow>
     (\<exists>R n. R \<inter> inflight b = {} \<and> (\<forall>p \<in> R. \<exists>nm. p = filepath_Join [dir, nm]) \<and> fs' = without R fs n)"

lemma evicts_ops: "evicts dir b fs (without {} fs n)"
  by (auto simp: evicts_def)

lemma evicts_trans:
  assumes "evicts dir b fs fs1" and "evicts dir b fs1 fs2"
  shows "evicts dir b fs fs2"
proof -
  obtain R S m n where "R \<inter> inflight b = {}" "\<forall>p \<in> R. \<exists>nm. p = filepath_Join [dir, nm]" "fs1 = without R fs m"
    "S \<inter> inflight b = {}" "\<forall>p \<in> S. \<exists>nm. p = filepath_Join [dir, nm]" "fs2 = without S fs1 n"
    using assms by (auto simp: evicts_def)
  then show ?thesis
    unfolding evicts_def by (intro exI [of _ "R \<union> S"] exI [of _ n]) auto
qed

lemma Stat_ops: "\<exists>r n. os_Stat p fs = (r, without {} fs n)"
  by (auto simp: os_Stat_def sys_def without_def split: option.splits)

lemma scan_entries_ops: "\<exists>r n. scan_entries dir es fs = (r, without {} fs n)"
proof (induction es arbitrary: fs)
  case Nil
  show ?case by (metis scan_entries.simps(1) without_empty)
next
  case (Cons e es)
  obtain nm isdir where e: "e = (nm, isdir)" by (cases e)
  obtain r n where st: "os_Stat (filepath_Join [dir, nm]) fs = (r, without {} fs n)"
    using Stat_ops by blast
  obtain r' n' where "scan_entries dir es (without {} fs n) = (r', without {} (without {} fs n) n')"
    using Cons.IH by blast
  then show ?case
    using Cons.IH [of fs] st by (auto simp: e split: sum.splits prod.splits)
qed

lemma scanInbox_ops: "\<exists>r n. scanInbox dir fs = (r, without {} fs n)"
proof -
  have "\<exists>r n. os_ReadDir dir fs = (r, without {} fs n)"
    by (auto simp: os_ReadDir_def sys_def without_def split: option.splits)
  then obtain r n where rd: "os_ReadDir dir fs = (r, without {} fs n)" by blast
  then show ?thesis
    by (cases r; use scan_entries_ops [of dir "projr r" "without {} fs n"] in \<open>auto simp: scanInbox_def\<close>)
qed

text \<open>What a rescan returns, whatever faults happen.\<close>

lemma rescan_cases:
  obtains (failed) e n where "rescanLocked dir b fs = (Inl e, b\<lparr>scans := Suc (scans b)\<rparr>, without {} fs n)"
  | (ok) files d n where "rescanLocked dir b fs =
        (Inr files, b\<lparr>scans := Suc (scans b), bdir := dir, known := True, onDisk := d\<rparr>, without {} fs n)"
      and "\<And>f. f \<in> set files \<Longrightarrow> ipath dir f \<notin> inflight b"
proof -
  obtain r n where sc: "scanInbox dir fs = (r, without {} fs n)" using scanInbox_ops by blast
  show ?thesis
  proof (cases r)
    case (Inl e)
    then show ?thesis using sc by (intro failed) (simp add: rescanLocked_def Let_def)
  next
    case (Inr ft)
    then obtain files tot where ft: "r = Inr (files, tot)" by (cases ft) auto
    show ?thesis
    proof (cases "inflight b = {}")
      case True
      then show ?thesis using sc ft by (intro ok [of files tot n]) (auto simp: rescanLocked_def Let_def)
    next
      case False
      let ?busy = "\<lambda>f. filepath_Join [dir, iname f] \<in> inflight b"
      show ?thesis
        by (rule ok [of "filter (\<lambda>f. \<not> ?busy f) files" "tot - sum_list (map isize (filter ?busy files))" n])
          (use sc ft False in \<open>auto simp: rescanLocked_def Let_def ipath_def\<close>)
    qed
  qed
qed

lemma removeOldest_evicts:
  assumes srt: "slice_sort srt" and free: "\<And>f. f \<in> set files \<Longrightarrow> ipath dir f \<notin> inflight b"
  shows "\<exists>r. removeOldestInbox srt dir files tot limit fs = r \<and> evicts dir b fs (snd r) \<and>
    (\<exists>rem \<subseteq> set files. snd r = without (ipath dir ` rem) fs (ops (snd r)))"
proof (cases "tot \<le> limit")
  case True
  then show ?thesis
    by (auto simp: removeOldestInbox_def without_empty evicts_def
        intro!: exI [of _ "{} :: string set"] exI [of _ "ops fs"] exI [of _ "{} :: inboxFile set"])
next
  case False
  obtain rem n where rem: "subseq rem (srt files)" and w: "remove_while dir (srt files) tot limit 0 fs =
      ((tot - sum_list (map isize rem), 0 + length rem), without (ipath dir ` set rem) fs n)"
    using remove_while_removes by blast
  have sub: "set rem \<subseteq> set files"
    using rem slice_sort.set_srt [OF srt, of files] by (auto elim: list_emb_set)
  have "evicts dir b fs (without (ipath dir ` set rem) fs n)"
    unfolding evicts_def using sub free
    by (intro exI [of _ "ipath dir ` set rem"] exI [of _ n]) (auto simp: ipath_def)
  then show ?thesis using False w sub by (auto simp: removeOldestInbox_def)
qed

lemma makeRoom_evicts:
  assumes srt: "slice_sort srt" and m: "makeRoom srt dir path sz mx b fs = (r, b', fs')"
  shows "evicts dir b fs fs' \<and> (inflight b' = inflight b \<or> inflight b' = insert path (inflight b))"
proof (cases rule: rescan_cases [of dir b fs])
  case (failed e n)
  then show ?thesis using m by (auto simp: makeRoom_def admitLocked_def evicts_ops)
next
  case (ok files d n)
  let ?b = "b\<lparr>scans := Suc (scans b), bdir := dir, known := True, onDisk := d\<rparr>"
  let ?low = "inboxLowWater mx"
  let ?lim = "(if sz + pending b > ?low then mx else ?low) - sz - pending b"
  obtain tot ev fs2 where ro: "removeOldestInbox srt dir files d ?lim (without {} fs n) = ((tot, ev), fs2)"
    by (metis surj_pair)
  have "evicts dir b (without {} fs n) fs2"
    using removeOldest_evicts [OF srt, of files dir b d ?lim "without {} fs n"] ok(2) ro by auto
  then have "evicts dir b fs fs2" using evicts_trans [OF evicts_ops] by blast
  then show ?thesis
    using m ok(1) ro evicts_ops [of dir b fs n]
    by (auto simp: makeRoom_def Let_def admitLocked_def split: if_splits)
qed

lemma reserve_evicts:
  assumes srt: "slice_sort srt" and m: "reserveInbox srt dir path sz mx b fs = (r, b', fs')"
  shows "evicts dir b fs fs' \<and> (inflight b' = inflight b \<or> inflight b' = insert path (inflight b))"
proof -
  have same: "evicts dir b fs fs" by (metis evicts_ops without_empty)
  consider (no) "sz > mx \<or> sz + pending b > mx"
    | (old) "\<not> (sz > mx \<or> sz + pending b > mx)" "known b" "bdir b = dir"
    | (seed) "\<not> (sz > mx \<or> sz + pending b > mx)" "\<not> known b \<or> bdir b \<noteq> dir" by blast
  then show ?thesis
  proof cases
    case no
    then show ?thesis using m same by (auto simp: reserveInbox_def split: if_splits)
  next
    case old
    then show ?thesis
      using m same makeRoom_evicts [OF srt]
      by (auto simp: reserveInbox_def Let_def admitLocked_def split: if_splits)
  next
    case seed
    show ?thesis
    proof (cases rule: rescan_cases [of dir b fs])
      case (failed e n)
      then show ?thesis using m seed evicts_ops by (auto simp: reserveInbox_def Let_def admitLocked_def)
    next
      case (ok files d n)
      let ?b = "b\<lparr>scans := Suc (scans b), bdir := dir, known := True, onDisk := d\<rparr>"
      show ?thesis
      proof (cases "d + pending b + sz > mx")
        case False
        then show ?thesis using m seed ok evicts_ops by (auto simp: reserveInbox_def Let_def admitLocked_def)
      next
        case True
        then have "makeRoom srt dir path sz mx ?b (without {} fs n) = (r, b', fs')"
          using m seed ok by (auto simp: reserveInbox_def Let_def)
        from makeRoom_evicts [OF srt this] show ?thesis
          using evicts_trans [OF evicts_ops, of dir b fs n fs'] by (simp add: evicts_def)
      qed
    qed
  qed
qed

section \<open>Admission without faults\<close>

text \<open>The settled messages of an inbox, as a scan describes them.\<close>

definition inbox :: "string \<Rightarrow> inboxBudget \<Rightarrow> fsys \<Rightarrow> inboxFile list" where
  "inbox dir b fs = map (file_info fs) (settled_files dir b fs)"

lemma settled_inbox: "settled dir b fs = sum_list (map isize (inbox dir b fs))"
  by (simp add: settled_def inbox_def)

lemma settled_ops [simp]:
  "settled dir b (fs\<lparr>ops := m\<rparr>) = settled dir b fs" "inbox dir b (fs\<lparr>ops := m\<rparr>) = inbox dir b fs"
  by (simp_all add: settled_def inbox_def settled_files_def)

lemma inbox_cong: "inflight b' = inflight b \<Longrightarrow> inbox dir b' fs = inbox dir b fs"
  by (simp add: inbox_def settled_files_def)

lemma inbox_path:
  assumes "f \<in> set (inbox dir b fs)" and "wf_fs fs"
  shows "lookup fs (ipath dir f) \<noteq> None \<and> ipath dir f \<notin> inflight b"
proof -
  obtain e where e: "e \<in> set (settled_files dir b fs)" "f = file_info fs e"
    using assms(1) by (auto simp: inbox_def)
  then have d: "e \<in> set (dir_files dir fs)" and n: "fst e \<notin> inflight b" by (auto simp: settled_files_def)
  have "(fst e, snd e) \<in> set (names fs)" using d by (auto simp: dir_files_def)
  from wf_lookup [OF assms(2) this] show ?thesis using ipath_info [OF d] n e(2) by simp
qed

lemma inbox_distinct: "wf_fs fs \<Longrightarrow> distinct (map (ipath dir) (inbox dir b fs))"
proof -
  assume wf: "wf_fs fs"
  have "map (ipath dir) (inbox dir b fs) = map fst (settled_files dir b fs)"
    by (auto simp: inbox_def settled_files_def ipath_info)
  moreover have "distinct (map fst (settled_files dir b fs))"
    using wf by (simp add: wf_fs_def settled_files_def dir_files_def distinct_map_filter)
  ultimately show ?thesis by simp
qed

lemma inbox_without: "inbox dir b (without R fs n) = filter (\<lambda>f. ipath dir f \<notin> R) (inbox dir b fs)"
proof -
  have "settled_files dir b (without R fs n) = filter (\<lambda>e. fst e \<notin> R) (settled_files dir b fs)"
    by (auto simp: settled_files_def dir_files_def intro!: filter_cong)
  moreover have "file_info (without R fs n) = file_info fs"
    by (auto simp: file_info_def fsize_def)
  moreover have "filter (\<lambda>e. fst e \<notin> R) (settled_files dir b fs) =
      filter (\<lambda>e. ipath dir (file_info fs e) \<notin> R) (settled_files dir b fs)"
    by (rule filter_cong) (auto simp: settled_files_def ipath_info)
  ultimately show ?thesis by (simp add: inbox_def filter_map o_def)
qed

lemma wf_without [simp]: "wf_fs fs \<Longrightarrow> wf_fs (without R fs n)"
  by (auto simp: wf_fs_def distinct_map_filter)

text \<open>
  An eviction down to a limit takes the oldest messages, and no more than needed; \<open>k\<close> is how
  many.
\<close>

lemma removeOldest_no_faults:
  assumes srt: "slice_sort srt" and nf: "no_faults fs" and wf: "wf_fs fs"
    and files: "mset files = mset (inbox dir b fs)"
    and lim: "0 \<le> limit" and over: "limit < settled dir b fs"
  shows "\<exists>k ev fs'. removeOldestInbox srt dir files (settled dir b fs) limit fs =
      ((settled dir b fs', ev), fs') \<and> settled dir b fs' \<le> limit \<and> no_faults fs' \<and> wf_fs fs' \<and>
    cut (srt files) (settled dir b fs) limit k \<and>
    mset (inbox dir b fs') = mset (drop k (srt files))"
proof -
  let ?xs = "srt files" and ?t = "settled dir b fs"
  have set_files: "set files = set (inbox dir b fs)" by (metis files set_mset_mset)
  have df: "distinct (map (ipath dir) files)"
    using inbox_distinct [OF wf] files by (metis mset_map mset_eq_imp_distinct_iff)
  have "lookup fs (ipath dir f) \<noteq> None" if "f \<in> set ?xs" for f
    using that inbox_path [OF _ wf, of f dir b] slice_sort.set_srt [OF srt] set_files by simp
  moreover have "distinct (map (ipath dir) ?xs)"
    using df slice_sort.perm [OF srt] by (metis mset_map mset_eq_imp_distinct_iff)
  ultimately obtain k n where k: "cut ?xs ?t limit k" and w: "remove_while dir ?xs ?t limit 0 fs =
      ((?t - sum_list (map isize (take k ?xs)), 0 + k), without (ipath dir ` set (take k ?xs)) fs n)"
    using remove_while_no_faults [OF nf] by blast
  let ?fs = "without (ipath dir ` set (take k ?xs)) fs n"
  have "mset (inbox dir b ?fs) = mset (filter (\<lambda>f. ipath dir f \<notin> ipath dir ` set (take k ?xs)) files)"
    unfolding inbox_without using files by (metis mset_filter)
  then have kept: "mset (inbox dir b ?fs) = mset (drop k ?xs)"
    using slice_sort.kept [OF srt df] by simp
  have "?t = sum_list (map isize ?xs)"
    unfolding settled_inbox slice_sort.sum_srt [OF srt] by (metis files mset_map sum_mset_sum_list)
  then have all: "?t = sum_list (map isize (take k ?xs)) + sum_list (map isize (drop k ?xs))"
    by (metis append_take_drop_id map_append sum_list_append)
  have s': "settled dir b ?fs = sum_list (map isize (drop k ?xs))"
    unfolding settled_inbox by (metis kept mset_map sum_mset_sum_list)
  have "?t - sum_list (map isize (take k ?xs)) \<le> limit"
    using k lim all by (auto simp: cut_def)
  then show ?thesis
    using over w s' all kept k nf wf
    by (intro exI [of _ k] exI [of _ k] exI [of _ ?fs]) (simp add: removeOldestInbox_def)
qed

definition evict_target :: "int \<Rightarrow> int \<Rightarrow> int" where
  "evict_target mx need = (if need > inboxLowWater mx then mx else inboxLowWater mx)"

lemma evict_target:
  assumes "0 \<le> mx" and "mx < 2 ^ 63" and "need \<le> mx"
  shows "need \<le> evict_target mx need" and "evict_target mx need \<le> mx"
  using assms lowWater_eq [OF assms(1,2)] by (auto simp: evict_target_def)

lemma makeRoom_no_faults:
  assumes srt: "slice_sort srt" and nf: "no_faults fs" and wf: "wf_fs fs"
    and mx: "0 \<le> mx" "mx < 2 ^ 63" and room: "sz + pending b \<le> mx"
  shows "\<exists>k b' fs'. makeRoom srt dir path sz mx b fs = (None, b', fs') \<and>
    pending b' = pending b + sz \<and> inflight b' = insert path (inflight b) \<and> known b' \<and> bdir b' = dir \<and>
    settled dir b fs' \<le> onDisk b' \<and> onDisk b' + pending b' \<le> mx \<and>
    mset (inbox dir b fs') = mset (drop k (srt (inbox dir b fs))) \<and>
    (k = 0 \<or> mx < settled dir b fs + pending b + sz \<and>
      cut (srt (inbox dir b fs)) (settled dir b fs) (evict_target mx (sz + pending b) - sz - pending b) k)"
proof -
  obtain n where n: "rescanLocked dir b fs = (Inr (inbox dir b fs),
      b\<lparr>scans := Suc (scans b), bdir := dir, known := True, onDisk := settled dir b fs\<rparr>, fs\<lparr>ops := n\<rparr>)"
    using rescan_no_faults [OF nf wf] by (auto simp: inbox_def)
  let ?b = "b\<lparr>scans := Suc (scans b), bdir := dir, known := True, onDisk := settled dir b fs\<rparr>"
  show ?thesis
  proof (cases "settled dir b fs + pending b + sz > mx")
    case False
    then show ?thesis
      using n slice_sort.perm [OF srt]
      by (intro exI [of _ "0 :: nat"]) (auto simp: makeRoom_def admitLocked_def)
  next
    case True
    let ?lim = "evict_target mx (sz + pending b) - sz - pending b"
    have lim: "0 \<le> ?lim" "?lim < settled dir b fs" "?lim + pending b + sz \<le> mx"
      using evict_target [OF mx room] True by linarith+
    obtain k ev fs' where ro: "removeOldestInbox srt dir (inbox dir b fs) (settled dir b fs) ?lim (fs\<lparr>ops := n\<rparr>) =
        ((settled dir b fs', ev), fs')" "settled dir b fs' \<le> ?lim"
      "cut (srt (inbox dir b fs)) (settled dir b fs) ?lim k"
      "mset (inbox dir b fs') = mset (drop k (srt (inbox dir b fs)))"
      using removeOldest_no_faults [OF srt, of "fs\<lparr>ops := n\<rparr>" "inbox dir b fs" dir b ?lim] nf wf lim
      by auto
    show ?thesis
      using n ro lim True
      by (intro exI [of _ k]) (auto simp: makeRoom_def admitLocked_def Let_def evict_target_def)
  qed
qed

lemma settled_mono:
  assumes "inflight b \<subseteq> inflight b'"
  shows "settled dir b' fs \<le> settled dir b fs"
proof -
  have "sum_list (map (esize fs) (filter (\<lambda>e. fst e \<notin> inflight b') xs)) \<le>
      sum_list (map (esize fs) (filter (\<lambda>e. fst e \<notin> inflight b) xs))" for xs
    using assms by (induction xs) (auto simp: esize_def fsize_def)
  then show ?thesis by (simp add: settled_def settled_files_def)
qed

definition accounted :: "string \<Rightarrow> inboxBudget \<Rightarrow> fsys \<Rightarrow> bool" where
  "accounted dir b fs \<longleftrightarrow> known b \<and> bdir b = dir \<longrightarrow> settled dir b fs \<le> onDisk b"

lemma reserve_no_faults:
  assumes srt: "slice_sort srt" and nf: "no_faults fs" and wf: "wf_fs fs"
    and mx: "0 \<le> mx" "mx < 2 ^ 63" and p: "0 \<le> pending b" and room: "sz + pending b \<le> mx"
    and acct: "accounted dir b fs"
  shows "\<exists>k b' fs'. reserveInbox srt dir path sz mx b fs = (None, b', fs') \<and>
    pending b' = pending b + sz \<and> inflight b' = insert path (inflight b) \<and> known b' \<and> bdir b' = dir \<and>
    settled dir b fs' \<le> onDisk b' \<and> onDisk b' + pending b' \<le> mx \<and>
    mset (inbox dir b fs') = mset (drop k (srt (inbox dir b fs))) \<and>
    (k = 0 \<or> mx < settled dir b fs + pending b + sz \<and>
      cut (srt (inbox dir b fs)) (settled dir b fs) (evict_target mx (sz + pending b) - sz - pending b) k)"
proof -
  have ok: "\<not> sz > mx" "\<not> sz + pending b > mx" using room p by auto
  let ?Q = "\<lambda>fs0 k b' fs'. pending b' = pending b + sz \<and> inflight b' = insert path (inflight b) \<and> known b' \<and>
    bdir b' = dir \<and> settled dir b fs' \<le> onDisk b' \<and> onDisk b' + pending b' \<le> mx \<and>
    mset (inbox dir b fs') = mset (drop k (srt (inbox dir b fs0))) \<and>
    (k = 0 \<or> mx < settled dir b fs0 + pending b + sz \<and>
      cut (srt (inbox dir b fs0)) (settled dir b fs0) (evict_target mx (sz + pending b) - sz - pending b) k)"
  have rest: "\<exists>k b' fs'. (if onDisk b1 + pending b1 + sz > mx then makeRoom srt dir path sz mx b1 fs1
        else (None, admitLocked path sz b1, fs1)) = (None, b', fs') \<and> ?Q fs1 k b' fs'"
    if b1: "pending b1 = pending b" "inflight b1 = inflight b" "known b1" "bdir b1 = dir"
      and f1: "no_faults fs1" "wf_fs fs1" and a1: "settled dir b fs1 \<le> onDisk b1" for b1 fs1
  proof (cases "onDisk b1 + pending b1 + sz > mx")
    case False
    then show ?thesis
      using b1 a1 slice_sort.perm [OF srt]
      by (intro exI [of _ "0 :: nat"]) (auto simp: admitLocked_def)
  next
    case True
    have room1: "sz + pending b1 \<le> mx" using room b1(1) by simp
    have eqv: "settled dir b1 g = settled dir b g" "inbox dir b1 g = inbox dir b g" for g
      by (simp_all add: settled_inbox inbox_cong [OF b1(2)])
    obtain k b' fs' where m: "makeRoom srt dir path sz mx b1 fs1 = (None, b', fs')" and q: "?Q fs1 k b' fs'"
      using makeRoom_no_faults [OF srt f1 mx room1, of dir path] unfolding eqv b1(1,2) by blast
    show ?thesis using True m q by (intro exI [of _ k] exI [of _ b'] exI [of _ fs']) simp
  qed
  show ?thesis
  proof (cases "known b \<and> bdir b = dir")
    case True
    then show ?thesis
      using rest [of b fs] nf wf acct ok by (simp add: reserveInbox_def accounted_def)
  next
    case False
    obtain n where n: "rescanLocked dir b fs = (Inr (inbox dir b fs),
        b\<lparr>scans := Suc (scans b), bdir := dir, known := True, onDisk := settled dir b fs\<rparr>, fs\<lparr>ops := n\<rparr>)"
      using rescan_no_faults [OF nf wf] by (auto simp: inbox_def)
    let ?b = "b\<lparr>scans := Suc (scans b), bdir := dir, known := True, onDisk := settled dir b fs\<rparr>"
    have "reserveInbox srt dir path sz mx b fs =
        (if onDisk ?b + pending ?b + sz > mx then makeRoom srt dir path sz mx ?b (fs\<lparr>ops := n\<rparr>)
         else (None, admitLocked path sz ?b, fs\<lparr>ops := n\<rparr>))"
      using False ok n by (auto simp: reserveInbox_def)
    then show ?thesis using rest [of ?b "fs\<lparr>ops := n\<rparr>"] nf wf by simp
  qed
qed

section \<open>The periodic eviction\<close>

lemma remove_files_removes:
  "\<exists>rem n. subseq rem files \<and>
     remove_files dir files tot fs = (tot - sum_list (map isize rem), without (ipath dir ` set rem) fs n)"
proof (induction files arbitrary: tot fs)
  case Nil
  show ?case by (rule exI [of _ "[]"], rule exI [of _ "ops fs"]) (simp add: without_empty)
next
  case (Cons f files)
  from Remove_cases [of "ipath dir f" fs] show ?case
  proof
    assume r: "\<exists>e. os_Remove (ipath dir f) fs = (Some e, without {} fs (Suc (ops fs)))"
    obtain rem n where "subseq rem files" "remove_files dir files tot (without {} fs (Suc (ops fs))) =
      (tot - sum_list (map isize rem), without (ipath dir ` set rem) (without {} fs (Suc (ops fs))) n)"
      using Cons.IH by blast
    then show ?thesis using r by (intro exI [of _ rem] exI [of _ n]) (auto simp: ipath_def)
  next
    assume r: "lookup fs (ipath dir f) \<noteq> None \<and>
      os_Remove (ipath dir f) fs = (None, without {ipath dir f} fs (Suc (ops fs)))"
    obtain rem n where "subseq rem files" "remove_files dir files (tot - isize f)
        (without {ipath dir f} fs (Suc (ops fs))) =
      (tot - isize f - sum_list (map isize rem),
       without (ipath dir ` set rem) (without {ipath dir f} fs (Suc (ops fs))) n)"
      using Cons.IH by blast
    then show ?thesis using r by (intro exI [of _ "f # rem"] exI [of _ n]) (simp add: ipath_def)
  qed
qed

lemma remove_files_no_faults:
  assumes "no_faults fs" and "\<And>f. f \<in> set files \<Longrightarrow> lookup fs (ipath dir f) \<noteq> None"
    and "distinct (map (ipath dir) files)"
  shows "\<exists>n. remove_files dir files tot fs =
    (tot - sum_list (map isize files), without (ipath dir ` set files) fs n)"
  using assms
proof (induction files arbitrary: tot fs)
  case Nil
  show ?case by (rule exI [of _ "ops fs"]) (simp add: without_empty)
next
  case (Cons f files)
  let ?fs = "without {ipath dir f} fs (Suc (ops fs))"
  have r: "os_Remove (ipath dir f) fs = (None, ?fs)"
    using Cons.prems by (intro Remove_no_faults) auto
  have "lookup ?fs (ipath dir g) \<noteq> None" if g: "g \<in> set files" for g
  proof -
    have "ipath dir f \<noteq> ipath dir g" using g Cons.prems(3) by auto
    then show ?thesis using g Cons.prems(2) [of g] by (simp add: lookup_without)
  qed
  then obtain n where "remove_files dir files (tot - isize f) ?fs =
      (tot - isize f - sum_list (map isize files), without (ipath dir ` set files) ?fs n)"
    using Cons.IH [of ?fs "tot - isize f"] Cons.prems by auto
  then show ?case using r by (intro exI [of _ n]) (simp add: ipath_def)
qed

text \<open>The eviction by file count, as a function of what a rescan returned.\<close>

definition count_stage ::
  "sorter \<Rightarrow> int \<Rightarrow> string \<Rightarrow> inboxFile list \<Rightarrow> inboxBudget \<Rightarrow> fsys \<Rightarrow> inboxFile list \<times> inboxBudget \<times> fsys" where
  "count_stage srt maxFiles dir files b fs =
     (if int (length files) > maxFiles then
        let sorted_files = srt files; toEvict = nat (int (length files) - maxFiles)
        in case remove_files dir (take toEvict sorted_files) (onDisk b) fs of
             (tot, fs2) \<Rightarrow> (drop toEvict sorted_files, b\<lparr>onDisk := tot\<rparr>, fs2)
      else (files, b, fs))"

definition byte_stage ::
  "sorter \<Rightarrow> int \<Rightarrow> string \<Rightarrow> inboxFile list \<times> inboxBudget \<times> fsys \<Rightarrow> inboxBudget \<times> fsys" where
  "byte_stage srt mx dir s =
     (case s of (files, b, fs) \<Rightarrow>
        if mx > 0 \<and> onDisk b + pending b > mx then
          case removeOldestInbox srt dir files (onDisk b) (evict_target mx (pending b) - pending b) fs of
            ((tot, _), fs3) \<Rightarrow> (b\<lparr>onDisk := tot\<rparr>, fs3)
        else (b, fs))"

definition max_files :: "int \<Rightarrow> int" where
  "max_files cfg = (if cfg \<le> 0 then defaultInboxMaxFiles else cfg)"

lemma evict_stages:
  "evictInboxOverflow srt cfg mx dir b fs =
     (case rescanLocked dir b fs of
        (Inl _, b1, fs1) \<Rightarrow> (b1, fs1)
      | (Inr files, b1, fs1) \<Rightarrow> byte_stage srt mx dir (count_stage srt (max_files cfg) dir files b1 fs1))"
  by (simp add: evictInboxOverflow_def byte_stage_def count_stage_def max_files_def evict_target_def Let_def
      split: prod.splits sum.splits)

lemma count_stage_evicts:
  assumes srt: "slice_sort srt" and free: "\<And>f. f \<in> set files \<Longrightarrow> ipath dir f \<notin> inflight b"
    and c: "count_stage srt mf dir files b fs = (files2, b2, fs2)"
  shows "evicts dir b fs fs2 \<and> inflight b2 = inflight b \<and> pending b2 = pending b \<and> set files2 \<subseteq> set files"
proof (cases "int (length files) > mf")
  case False
  then show ?thesis using c evicts_ops [of dir b fs "ops fs"] by (auto simp: count_stage_def without_empty)
next
  case True
  let ?k = "nat (int (length files) - mf)"
  obtain rem n where rem: "subseq rem (take ?k (srt files))" and
    r: "remove_files dir (take ?k (srt files)) (onDisk b) fs =
      (onDisk b - sum_list (map isize rem), without (ipath dir ` set rem) fs n)"
    using remove_files_removes by blast
  have "set rem \<subseteq> set files"
    using rem slice_sort.set_srt [OF srt, of files] by (auto elim!: list_emb_set dest: in_set_takeD)
  then have "evicts dir b fs (without (ipath dir ` set rem) fs n)"
    unfolding evicts_def using free
    by (intro exI [of _ "ipath dir ` set rem"] exI [of _ n]) (auto simp: ipath_def)
  then show ?thesis
    using True c r slice_sort.set_srt [OF srt, of files]
    by (auto simp: count_stage_def Let_def dest: in_set_dropD)
qed

lemma byte_stage_evicts:
  assumes srt: "slice_sort srt" and free: "\<And>f. f \<in> set files \<Longrightarrow> ipath dir f \<notin> inflight b"
    and c: "byte_stage srt mx dir (files, b, fs) = (b', fs')"
  shows "evicts dir b fs fs' \<and> inflight b' = inflight b \<and> pending b' = pending b"
proof (cases "mx > 0 \<and> onDisk b + pending b > mx")
  case False
  then show ?thesis using c evicts_ops [of dir b fs "ops fs"] by (auto simp: byte_stage_def without_empty)
next
  case True
  let ?lim = "evict_target mx (pending b) - pending b"
  obtain tot ev fs2 where ro: "removeOldestInbox srt dir files (onDisk b) ?lim fs = ((tot, ev), fs2)"
    by (metis surj_pair)
  have "evicts dir b fs fs2"
    using removeOldest_evicts [OF srt, of files dir b "onDisk b" ?lim fs] free ro by auto
  then show ?thesis using True c ro by (auto simp: byte_stage_def)
qed

lemma evict_evicts:
  assumes srt: "slice_sort srt" and m: "evictInboxOverflow srt cfg mx dir b fs = (b', fs')"
  shows "evicts dir b fs fs' \<and> inflight b' = inflight b \<and> pending b' = pending b"
proof (cases rule: rescan_cases [of dir b fs])
  case (failed e n)
  then show ?thesis using m evicts_ops by (auto simp: evict_stages)
next
  case (ok files d n)
  let ?b = "b\<lparr>scans := Suc (scans b), bdir := dir, known := True, onDisk := d\<rparr>"
  obtain files2 b2 fs2 where c: "count_stage srt (max_files cfg) dir files ?b (without {} fs n) = (files2, b2, fs2)"
    by (metis surj_pair)
  have 1: "evicts dir ?b (without {} fs n) fs2" "inflight b2 = inflight ?b" "pending b2 = pending ?b"
    "set files2 \<subseteq> set files"
    using count_stage_evicts [OF srt _ c] ok(2) by auto
  have 2: "evicts dir b2 fs2 fs' \<and> inflight b' = inflight b2 \<and> pending b' = pending b2"
    using m ok c 1 by (intro byte_stage_evicts [OF srt, where files = files2 and mx = mx]) (auto simp: evict_stages)
  have "evicts dir b fs fs2" "evicts dir b fs2 fs'"
    using 1(1,2) 2 evicts_trans [OF evicts_ops, of dir b fs n fs2] by (simp_all add: evicts_def)
  then show ?thesis using evicts_trans 1 2 by simp
qed

text \<open>Each stage, without faults: what is left, and that nothing older than what was removed is.\<close>

definition older_gone :: "inboxFile list \<Rightarrow> inboxFile list \<Rightarrow> bool" where
  "older_gone before after \<longleftrightarrow>
     (\<exists>gone. mset before = mset gone + mset after \<and> (\<forall>f \<in> set gone. \<forall>g \<in> set after. imod f \<le> imod g))"

lemma older_gone_sorted:
  assumes "slice_sort srt" and "mset after = mset (drop k (srt before))"
  shows "older_gone before after"
  unfolding older_gone_def
proof (intro exI [of _ "take k (srt before)"] conjI ballI)
  show "mset before = mset (take k (srt before)) + mset after"
    using slice_sort.perm [OF assms(1), of before] assms(2) by (metis append_take_drop_id mset_append)
  fix f g assume "f \<in> set (take k (srt before))" "g \<in> set after"
  then show "imod f \<le> imod g"
    using slice_sort.prefix_oldest [OF assms(1)] assms(2) by (metis set_mset_mset)
qed

lemma older_gone_trans:
  assumes "older_gone a b" and "older_gone b c"
  shows "older_gone a c"
proof -
  obtain g1 g2 where g: "mset a = mset g1 + mset b" "\<forall>f \<in> set g1. \<forall>g \<in> set b. imod f \<le> imod g"
    "mset b = mset g2 + mset c" "\<forall>f \<in> set g2. \<forall>g \<in> set c. imod f \<le> imod g"
    using assms by (auto simp: older_gone_def)
  have "set c \<subseteq> set b" by (metis g(3) set_mset_mset set_mset_union Un_upper2)
  then show ?thesis
    unfolding older_gone_def using g by (intro exI [of _ "g1 @ g2"]) auto
qed

lemma count_stage_no_faults:
  assumes srt: "slice_sort srt" and nf: "no_faults fs" and wf: "wf_fs fs" and mf: "0 \<le> mf"
    and od: "onDisk b = settled dir b fs"
    and c: "count_stage srt mf dir (inbox dir b fs) b fs = (files2, b2, fs2)"
  shows "mset files2 = mset (inbox dir b fs2) \<and> int (length files2) \<le> mf \<and> no_faults fs2 \<and> wf_fs fs2 \<and>
    b2 = b\<lparr>onDisk := settled dir b fs2\<rparr> \<and> older_gone (inbox dir b fs) files2"
proof (cases "int (length (inbox dir b fs)) > mf")
  case False
  then show ?thesis using c od nf wf
    by (auto simp: count_stage_def older_gone_def intro!: exI [of _ "[]"])
next
  case True
  let ?xs = "srt (inbox dir b fs)"
  let ?k = "nat (int (length (inbox dir b fs)) - mf)"
  have dx: "distinct (map (ipath dir) ?xs)"
    using inbox_distinct [OF wf] slice_sort.perm [OF srt] by (metis mset_map mset_eq_imp_distinct_iff)
  have lx: "lookup fs (ipath dir f) \<noteq> None" if "f \<in> set (take ?k ?xs)" for f
    using that inbox_path [OF _ wf, of f dir b] slice_sort.set_srt [OF srt, of "inbox dir b fs"]
    by (auto dest: in_set_takeD)
  have dt: "distinct (map (ipath dir) (take ?k ?xs))" using dx by (simp add: distinct_take flip: take_map)
  obtain n where r: "remove_files dir (take ?k ?xs) (onDisk b) fs =
      (onDisk b - sum_list (map isize (take ?k ?xs)), without (ipath dir ` set (take ?k ?xs)) fs n)"
    using remove_files_no_faults [OF nf lx dt] by blast
  let ?fs = "without (ipath dir ` set (take ?k ?xs)) fs n"
  have res: "files2 = drop ?k ?xs" "b2 = b\<lparr>onDisk := onDisk b - sum_list (map isize (take ?k ?xs))\<rparr>" "fs2 = ?fs"
    using c True r by (auto simp: count_stage_def Let_def)
  have kept: "mset (inbox dir b ?fs) = mset (drop ?k ?xs)"
    unfolding inbox_without by (rule slice_sort.kept [OF srt inbox_distinct [OF wf]])
  have "settled dir b fs = sum_list (map isize (take ?k ?xs)) + sum_list (map isize (drop ?k ?xs))"
    unfolding settled_inbox using slice_sort.sum_srt [OF srt, of "inbox dir b fs"]
    by (metis append_take_drop_id map_append sum_list_append)
  moreover have "settled dir b ?fs = sum_list (map isize (drop ?k ?xs))"
    unfolding settled_inbox by (metis kept mset_map sum_mset_sum_list)
  ultimately show ?thesis
    using res kept nf wf mf True od slice_sort.length_srt [OF srt, of "inbox dir b fs"]
      older_gone_sorted [OF srt, of files2 ?k "inbox dir b fs"]
    by auto
qed

lemma byte_stage_no_faults:
  assumes srt: "slice_sort srt" and nf: "no_faults fs" and wf: "wf_fs fs" and mx: "mx < 2 ^ 63"
    and pend: "0 < mx \<longrightarrow> pending b \<le> mx" and od: "onDisk b = settled dir b fs"
    and files: "mset files = mset (inbox dir b fs)"
    and c: "byte_stage srt mx dir (files, b, fs) = (b', fs')"
  shows "b' = b\<lparr>onDisk := settled dir b fs'\<rparr> \<and> (0 < mx \<longrightarrow> settled dir b fs' + pending b \<le> mx) \<and>
    older_gone files (inbox dir b fs')"
proof (cases "0 < mx \<and> settled dir b fs + pending b > mx")
  case False
  then show ?thesis using c od files by (auto simp: byte_stage_def older_gone_def intro!: exI [of _ "[]"])
next
  case True
  let ?lim = "evict_target mx (pending b) - pending b"
  have lim: "0 \<le> ?lim" "?lim < settled dir b fs" "?lim + pending b \<le> mx"
    using evict_target [of mx "pending b"] True mx pend by linarith+
  obtain k ev f' where ro: "removeOldestInbox srt dir files (settled dir b fs) ?lim fs =
      ((settled dir b f', ev), f')" "settled dir b f' \<le> ?lim" "mset (inbox dir b f') = mset (drop k (srt files))"
    using removeOldest_no_faults [OF srt nf wf files lim(1,2)] by blast
  then show ?thesis
    using c True od lim older_gone_sorted [OF srt ro(3)] by (auto simp: byte_stage_def)
qed

lemma evict_overflow_caps:
  assumes "slice_sort srt" and "no_faults fs" and "wf_fs fs" and "mx < 2 ^ 63"
    and "0 < mx \<longrightarrow> pending b \<le> mx"
    and "evictInboxOverflow srt cfg mx dir b fs = (b', fs')"
  shows "int (length (inbox dir b fs')) \<le> (if cfg \<le> 0 then defaultInboxMaxFiles else cfg) \<and>
    (0 < mx \<longrightarrow> settled dir b fs' + pending b \<le> mx) \<and>
    known b' \<and> bdir b' = dir \<and> onDisk b' = settled dir b fs' \<and>
    (\<exists>gone. mset (inbox dir b fs) = mset gone + mset (inbox dir b fs') \<and>
      (\<forall>f \<in> set gone. \<forall>g \<in> set (inbox dir b fs'). imod f \<le> imod g))"
proof -
  note srt = assms(1) and nf = assms(2) and wf = assms(3)
  obtain n where n: "rescanLocked dir b fs = (Inr (inbox dir b fs),
      b\<lparr>scans := Suc (scans b), bdir := dir, known := True, onDisk := settled dir b fs\<rparr>, fs\<lparr>ops := n\<rparr>)"
    using rescan_no_faults [OF nf wf] by (auto simp: inbox_def)
  let ?b = "b\<lparr>scans := Suc (scans b), bdir := dir, known := True, onDisk := settled dir b fs\<rparr>"
  have eqv: "inbox dir ?b g = inbox dir b g" "settled dir ?b g = settled dir b g" for g
    by (simp_all add: settled_def inbox_def settled_files_def)
  obtain files2 b2 fs2 where c: "count_stage srt (max_files cfg) dir (inbox dir b fs) ?b (fs\<lparr>ops := n\<rparr>) =
      (files2, b2, fs2)" by (metis surj_pair)
  have mf: "0 \<le> max_files cfg" by (simp add: max_files_def)
  have 1: "mset files2 = mset (inbox dir b fs2)" "int (length files2) \<le> max_files cfg" "no_faults fs2" "wf_fs fs2"
    "b2 = ?b\<lparr>onDisk := settled dir b fs2\<rparr>" "older_gone (inbox dir b fs) files2"
    using count_stage_no_faults [OF srt _ _ mf, of "fs\<lparr>ops := n\<rparr>" ?b dir files2 b2 fs2] nf wf c
    unfolding eqv by auto
  have eq2: "inbox dir b2 g = inbox dir b g" "settled dir b2 g = settled dir b g" for g
    using 1(5) by (simp_all add: settled_def inbox_def settled_files_def)
  have c2: "byte_stage srt mx dir (files2, b2, fs2) = (b', fs')"
    using assms(6) n c by (simp add: evict_stages)
  have 2: "b' = b2\<lparr>onDisk := settled dir b fs'\<rparr>" "0 < mx \<longrightarrow> settled dir b fs' + pending b \<le> mx"
    "older_gone files2 (inbox dir b fs')"
    using byte_stage_no_faults [OF srt 1(3,4) assms(4) _ _ _ c2] 1 assms(5) unfolding eq2 by auto
  have og: "older_gone (inbox dir b fs) (inbox dir b fs')" using older_gone_trans 1(6) 2(3) by blast
  have "length (inbox dir b fs') \<le> length files2"
    using 2(3) unfolding older_gone_def by (metis le_add2 size_mset size_union)
  then show ?thesis
    using 1(2,5) 2(1,2) og by (auto simp: max_files_def older_gone_def)
qed

section \<open>Properties\<close>

definition demo_fs :: fsys where
  "demo_fs = \<lparr>names = [(''/in/a'', 0), (''/in/b'', 1)], dirs = [''/in''],
     store = [\<lparr>fdata = [1, 2, 3, 4], fmod = 1\<rparr>, \<lparr>fdata = [1, 2, 3, 4, 5], fmod = 2\<rparr>],
     fclock = 3, ops = 0, opFault = (\<lambda>_ _. None), shortWrite = (\<lambda>_. 0)\<rparr>"

definition demo_budget :: inboxBudget where
  "demo_budget = \<lparr>bdir = [], known = False, onDisk = 0, pending = 0, inflight = {}, scans = 0\<rparr>"

lemma demo_fs_ok: "no_faults demo_fs" "wf_fs demo_fs"
  by (simp_all add: demo_fs_def no_faults_def wf_fs_def)


text \<open>
  The low-water mark is exactly ninety percent of the cap, rounded down, for every cap a
  64-bit integer can hold: no step of the computation overflows.
\<close>

lemma low_water:
  assumes "0 \<le> m" and "m < 2 ^ 63"
  shows "inboxLowWater m = 90 * m div 100 \<and> 0 \<le> inboxLowWater m \<and> inboxLowWater m \<le> m"
proof -
  have "m * 90 div 100 \<le> m" "0 \<le> m * 90 div 100" using assms(1) by auto
  then show ?thesis using lowWater_eq [OF assms] by (simp add: mult.commute)
qed

lemma low_water_witness: "inboxLowWater (2 ^ 63 - 1) = 90 * (2 ^ 63 - 1) div 100"
  using low_water [of "2 ^ 63 - 1"] by simp

text \<open>
  C29. Admission to the inbox.  When the accounting covers what is on disk and no file operation
  fails, a message is admitted exactly when it fits next to the writes in progress; then the
  settled messages together with all admitted bytes are within the cap.  Settled messages are
  removed only when the message would have exceeded the cap; then the oldest go first, one by one,
  until what is stored and admitted is at or below the low-water mark of 90 % of the cap (the cap
  itself when the admitted bytes alone are above that mark), and none after that.  A message that does not
  fit is refused without touching the disk or the accounting.
\<close>

theorem inbox_reserve:
  assumes "slice_sort srt" and "no_faults fs" and "wf_fs fs" and "0 \<le> mx" and "mx < 2 ^ 63"
    and "0 \<le> pending b" and "accounted dir b fs"
  shows "(sz + pending b \<le> mx \<longrightarrow>
      (\<exists>k b' fs'. reserveInbox srt dir path sz mx b fs = (None, b', fs') \<and>
        inflight b' = insert path (inflight b) \<and> pending b' = pending b + sz \<and>
        settled dir b fs' + pending b' \<le> mx \<and> accounted dir b' fs' \<and>
        mset (inbox dir b fs') = mset (drop k (srt (inbox dir b fs))) \<and>
        (k = 0 \<or> mx < settled dir b fs + pending b + sz \<and>
          cut (srt (inbox dir b fs)) (settled dir b fs)
            (evict_target mx (sz + pending b) - sz - pending b) k))) \<and>
    (mx < sz + pending b \<longrightarrow> (\<exists>e. reserveInbox srt dir path sz mx b fs = (Some e, b, fs)))"
proof (intro conjI impI)
  assume room: "sz + pending b \<le> mx"
  obtain k b' fs' where r: "reserveInbox srt dir path sz mx b fs = (None, b', fs')"
    "pending b' = pending b + sz" "inflight b' = insert path (inflight b)"
    "settled dir b fs' \<le> onDisk b'" "onDisk b' + pending b' \<le> mx"
    "mset (inbox dir b fs') = mset (drop k (srt (inbox dir b fs)))"
    "k = 0 \<or> mx < settled dir b fs + pending b + sz \<and>
      cut (srt (inbox dir b fs)) (settled dir b fs) (evict_target mx (sz + pending b) - sz - pending b) k"
    using reserve_no_faults [OF assms(1-6) room assms(7), of path] by blast
  have "settled dir b' fs' \<le> settled dir b fs'" using r(3) by (intro settled_mono) auto
  then have "accounted dir b' fs'" using r(4) by (simp add: accounted_def)
  then show "\<exists>k b' fs'. reserveInbox srt dir path sz mx b fs = (None, b', fs') \<and>
      inflight b' = insert path (inflight b) \<and> pending b' = pending b + sz \<and>
      settled dir b fs' + pending b' \<le> mx \<and> accounted dir b' fs' \<and>
      mset (inbox dir b fs') = mset (drop k (srt (inbox dir b fs))) \<and>
      (k = 0 \<or> mx < settled dir b fs + pending b + sz \<and>
        cut (srt (inbox dir b fs)) (settled dir b fs) (evict_target mx (sz + pending b) - sz - pending b) k)"
    using r by (intro exI [of _ k] exI [of _ b'] exI [of _ fs']) simp
next
  assume "mx < sz + pending b"
  then show "\<exists>e. reserveInbox srt dir path sz mx b fs = (Some e, b, fs)"
    by (simp add: reserveInbox_def)
qed

theorem inbox_reserve_witness:
  "\<exists>b' fs'. reserveInbox (sort_key imod) ''/in'' ''/in/c'' 3 10 demo_budget demo_fs = (None, b', fs') \<and>
     settled ''/in'' demo_budget fs' + 3 \<le> 10 \<and> inflight b' = {''/in/c''}"
proof -
  have "0 \<le> pending demo_budget" "accounted ''/in'' demo_budget demo_fs" "3 + pending demo_budget \<le> 10"
    by (simp_all add: demo_budget_def accounted_def)
  then obtain b' fs' where
    "reserveInbox (sort_key imod) ''/in'' ''/in/c'' 3 10 demo_budget demo_fs = (None, b', fs')"
    "inflight b' = insert ''/in/c'' (inflight demo_budget)" "pending b' = pending demo_budget + 3"
    "settled ''/in'' demo_budget fs' + pending b' \<le> 10"
    using inbox_reserve [OF ks.slice_sort_axioms demo_fs_ok, of 10 demo_budget "''/in''" 3 "''/in/c''"] by auto
  then show ?thesis by (simp add: demo_budget_def)
qed

text \<open>
  C30. Whatever file operations fail, neither a reservation nor the periodic eviction touches a
  file that a write in progress owns, or a file outside the inbox directory, and neither
  changes the contents of any file.
\<close>

theorem inflight_kept:
  assumes "slice_sort srt"
    and "reserveInbox srt dir path sz mx b fs = (r, b', fs') \<or>
      evictInboxOverflow srt cfg mx dir b fs = (b', fs')"
  shows "store fs' = store fs \<and>
    (\<forall>p. p \<in> inflight b \<or> (\<forall>nm. p \<noteq> filepath_Join [dir, nm]) \<longrightarrow> lookup fs' p = lookup fs p)"
proof -
  have "evicts dir b fs fs'" using assms reserve_evicts evict_evicts by blast
  then show ?thesis by (auto simp: evicts_def lookup_without)
qed

theorem inflight_kept_witness:
  "\<exists>b' fs'. reserveInbox (sort_key imod) ''/in'' ''/in/c'' 3 6
      (demo_budget\<lparr>inflight := {''/in/a''}\<rparr>) demo_fs = (None, b', fs') \<and>
     lookup fs' ''/in/a'' = Some 0"
proof -
  let ?b = "demo_budget\<lparr>inflight := {''/in/a''}\<rparr>"
  obtain b' fs' where r: "reserveInbox (sort_key imod) ''/in'' ''/in/c'' 3 6 ?b demo_fs = (None, b', fs')"
    using reserve_no_faults [OF ks.slice_sort_axioms demo_fs_ok, of 6 ?b 3 "''/in''" "''/in/c''"]
    by (auto simp: demo_budget_def accounted_def)
  have "lookup fs' ''/in/a'' = lookup demo_fs ''/in/a''"
    using inflight_kept [OF ks.slice_sort_axioms disjI1, OF r] by (simp add: demo_budget_def)
  then show ?thesis using r by (simp add: demo_fs_def lookup_def)
qed

text \<open>
  C31. The periodic eviction: if no file operation fails, at most the configured number of
  settled messages is left, they fit under the byte cap next to the writes in progress, the
  running total is exact again, and every message removed is at most as recent as every
  message kept.
\<close>

theorem evict_overflow:
  assumes "slice_sort srt" and "no_faults fs" and "wf_fs fs" and "mx < 2 ^ 63"
    and "0 < mx \<longrightarrow> pending b \<le> mx"
    and "evictInboxOverflow srt cfg mx dir b fs = (b', fs')"
  shows "int (length (inbox dir b fs')) \<le> (if cfg \<le> 0 then defaultInboxMaxFiles else cfg) \<and>
    (0 < mx \<longrightarrow> settled dir b fs' + pending b \<le> mx) \<and>
    known b' \<and> bdir b' = dir \<and> onDisk b' = settled dir b fs' \<and>
    (\<exists>gone. mset (inbox dir b fs) = mset gone + mset (inbox dir b fs') \<and>
      (\<forall>f \<in> set gone. \<forall>g \<in> set (inbox dir b fs'). imod f \<le> imod g))"
  using assms by (rule evict_overflow_caps)

theorem evict_overflow_witness:
  "\<exists>b' fs'. evictInboxOverflow (sort_key imod) 1 100 ''/in'' demo_budget demo_fs = (b', fs') \<and>
     length (inbox ''/in'' demo_budget fs') \<le> 1"
proof -
  obtain b' fs' where r: "evictInboxOverflow (sort_key imod) 1 100 ''/in'' demo_budget demo_fs = (b', fs')"
    by (metis surj_pair)
  show ?thesis
    using evict_overflow [OF ks.slice_sort_axioms demo_fs_ok _ _ r] r by (auto simp: demo_budget_def)
qed

end
