(* ===== verification/InboxRuns.thy ===== *)
theory InboxRuns
  imports InboxProps
begin

text \<open>
  The inbox under concurrent use: connections that reserve, write and settle messages, the
  periodic eviction, and other processes that delete files, interleaved in any order.
\<close>

section \<open>The system\<close>

text \<open>A write in progress; \<open>wres\<close> is the outcome of the file write once it was attempted.\<close>

record iwrite =
  wpath :: string
  wsize :: int
  wres :: "bool option"

record isys =
  ibud :: inboxBudget
  ifs :: fsys
  iwrites :: "iwrite list"

inductive istep :: "sorter \<Rightarrow> string \<Rightarrow> int \<Rightarrow> int \<Rightarrow> isys \<Rightarrow> isys \<Rightarrow> bool"
  for srt :: sorter and dir :: string and mx :: int and cfg :: int where
  admit: "entry_of dir p \<Longrightarrow> lookup (ifs s) p = None \<Longrightarrow> p \<notin> wpath ` set (iwrites s) \<Longrightarrow> 0 \<le> sz \<Longrightarrow>
    reserveInbox srt dir p sz mx (ibud s) (ifs s) = (None, b, fs) \<Longrightarrow>
    istep srt dir mx cfg s
      (s\<lparr>ibud := b, ifs := fs, iwrites := \<lparr>wpath = p, wsize = sz, wres = None\<rparr> # iwrites s\<rparr>)"
| refuse: "reserveInbox srt dir p sz mx (ibud s) (ifs s) = (Some e, b, fs) \<Longrightarrow>
    istep srt dir mx cfg s (s\<lparr>ibud := b, ifs := fs\<rparr>)"
| wrote: "iwrites s = xs @ w # ys \<Longrightarrow> wres w = None \<Longrightarrow> int (length data) = wsize w \<Longrightarrow>
    os_WriteFile (wpath w) data (ifs s) = (r, fs) \<Longrightarrow>
    istep srt dir mx cfg s (s\<lparr>ifs := fs, iwrites := xs @ w\<lparr>wres := Some (r = None)\<rparr> # ys\<rparr>)"
| settle: "iwrites s = xs @ w # ys \<Longrightarrow> wres w = Some ok \<Longrightarrow>
    istep srt dir mx cfg s
      (s\<lparr>ibud := inboxWriteDone (wpath w) (wsize w) ok (ibud s), iwrites := xs @ ys\<rparr>)"
| sweep: "evictInboxOverflow srt cfg mx dir (ibud s) (ifs s) = (b, fs) \<Longrightarrow>
    istep srt dir mx cfg s (s\<lparr>ibud := b, ifs := fs\<rparr>)"
| deleted: "istep srt dir mx cfg s (s\<lparr>ifs := without R (ifs s) (ops (ifs s))\<rparr>)"
| clock: "fclock (ifs s) \<le> t \<Longrightarrow> istep srt dir mx cfg s (s\<lparr>ifs := (ifs s)\<lparr>fclock := t\<rparr>\<rparr>)"

definition isys_init :: "fsys \<Rightarrow> isys" where
  "isys_init fs =
     \<lparr>ibud = \<lparr>bdir = [], known = False, onDisk = 0, pending = 0, inflight = {}, scans = 0\<rparr>,
      ifs = fs, iwrites = []\<rparr>"

definition ireach :: "sorter \<Rightarrow> string \<Rightarrow> int \<Rightarrow> int \<Rightarrow> fsys \<Rightarrow> isys \<Rightarrow> bool" where
  "ireach srt dir mx cfg fs s \<longleftrightarrow> (istep srt dir mx cfg)\<^sup>*\<^sup>* (isys_init fs) s"

text \<open>All the bytes of the inbox directory.\<close>

definition dir_bytes :: "string \<Rightarrow> fsys \<Rightarrow> int" where
  "dir_bytes dir fs = sum_list (map (esize fs) (dir_files dir fs))"

section \<open>Files and their sizes\<close>

definition one_name :: "fsys \<Rightarrow> bool" where
  "one_name fs \<longleftrightarrow> distinct (map snd (names fs))"

lemma sum_pos: "0 \<le> sum_list (map (esize fs) xs)"
  by (induction xs) (simp_all add: esize_def fsize_def)

lemma sum_one:
  assumes "distinct (map fst xs)"
  shows "sum_list (map (esize fs) (filter (\<lambda>e. fst e = p) xs)) =
    (case map_of xs p of None \<Rightarrow> 0 | Some i \<Rightarrow> fsize fs i)"
  using assms
proof (induction xs)
  case (Cons e xs)
  obtain q i where e: "e = (q, i)" by (cases e)
  have "p \<notin> fst ` set xs \<Longrightarrow> filter (\<lambda>e. fst e = p) xs = []" by (auto simp: filter_empty_conv)
  then show ?case using Cons by (auto simp: e)
qed simp

lemma sum_drop:
  "p \<in> A \<Longrightarrow> sum_list (map (esize fs) (filter (\<lambda>e. fst e \<notin> A - {p}) xs)) =
    sum_list (map (esize fs) (filter (\<lambda>e. fst e \<notin> A) xs)) +
    sum_list (map (esize fs) (filter (\<lambda>e. fst e = p) xs))"
  by (induction xs) auto

lemma dir_files_fst: "wf_fs fs \<Longrightarrow> distinct (map fst (dir_files dir fs))"
  by (simp add: wf_fs_def dir_files_def distinct_map_filter)

lemma map_of_dir: "map_of (dir_files dir fs) p = (if entry_of dir p then lookup fs p else None)"
proof -
  have "map_of (filter (\<lambda>e. entry_of dir (fst e)) xs) p = (if entry_of dir p then map_of xs p else None)"
    for xs :: "(string \<times> nat) list"
    by (induction xs) auto
  then show ?thesis by (simp add: dir_files_def lookup_def)
qed

definition psize :: "fsys \<Rightarrow> string \<Rightarrow> int" where
  "psize fs p = (case lookup fs p of None \<Rightarrow> 0 | Some i \<Rightarrow> fsize fs i)"

lemma settled_release:
  assumes "wf_fs fs" and "p \<in> inflight b" and "inflight b' = inflight b - {p}" and "entry_of dir p"
  shows "settled dir b' fs = settled dir b fs + psize fs p"
  using assms sum_drop [OF assms(2), of fs "dir_files dir fs"] sum_one [OF dir_files_fst [OF assms(1)]]
  by (simp add: settled_def settled_files_def map_of_dir psize_def)

lemma sum_insert:
  "p \<notin> A \<Longrightarrow> sum_list (map (esize fs) (filter (\<lambda>e. fst e \<in> insert p A) xs)) =
    sum_list (map (esize fs) (filter (\<lambda>e. fst e = p) xs)) + sum_list (map (esize fs) (filter (\<lambda>e. fst e \<in> A) xs))"
  by (induction xs) auto

text \<open>The bytes of files in flight are bounded by the sizes reserved for them.\<close>

lemma inflight_bytes:
  assumes "distinct (map fst xs)" and "distinct (map wpath ws)"
    and "\<And>w. w \<in> set ws \<Longrightarrow> (case map_of xs (wpath w) of None \<Rightarrow> 0 | Some i \<Rightarrow> fsize fs i) \<le> wsize w"
  shows "sum_list (map (esize fs) (filter (\<lambda>e. fst e \<in> wpath ` set ws) xs)) \<le> sum_list (map wsize ws)"
  using assms(2,3)
proof (induction ws)
  case (Cons w ws)
  have "sum_list (map (esize fs) (filter (\<lambda>e. fst e \<in> wpath ` set (w # ws)) xs)) =
      sum_list (map (esize fs) (filter (\<lambda>e. fst e = wpath w) xs)) +
      sum_list (map (esize fs) (filter (\<lambda>e. fst e \<in> wpath ` set ws) xs))"
    using sum_insert [of "wpath w" "wpath ` set ws" fs xs] Cons.prems(1) by auto
  moreover have "sum_list (map (esize fs) (filter (\<lambda>e. fst e = wpath w) xs)) \<le> wsize w"
    using Cons.prems(2) [of w] sum_one [OF assms(1)] by simp
  moreover have "sum_list (map (esize fs) (filter (\<lambda>e. fst e \<in> wpath ` set ws) xs)) \<le> sum_list (map wsize ws)"
    by (rule Cons.IH) (use Cons.prems(1) in simp, rule Cons.prems(2), simp)
  ultimately show ?case by simp
qed simp

lemma dir_bytes_split:
  "dir_bytes dir fs = settled dir b fs + sum_list (map (esize fs) (filter (\<lambda>e. fst e \<in> inflight b) (dir_files dir fs)))"
  using sum_filter_split [of "esize fs" "dir_files dir fs" "\<lambda>e. fst e \<in> inflight b"]
  by (simp add: dir_bytes_def settled_def settled_files_def)

section \<open>Writes without faults\<close>

lemma WriteFile_no_faults:
  assumes nf: "no_faults fs" and wf: "wf_fs fs" and on: "one_name fs" and w: "os_WriteFile p bs fs = (r, fs')"
  shows "r = None \<and> wf_fs fs' \<and> one_name fs' \<and> no_faults fs' \<and> psize fs' p = int (length bs) \<and>
    (\<forall>q. q \<noteq> p \<longrightarrow> psize fs' q = psize fs q) \<and>
    (p \<in> inflight b \<longrightarrow> settled dir b fs' = settled dir b fs)"
proof (cases "lookup fs p")
  case None
  let ?i = "length (store fs)"
  have names: "names fs' = (p, ?i) # names fs" and store: "store fs' = store fs @ [\<lparr>fdata = bs, fmod = fclock fs\<rparr>]"
    and r: "r = None" and nf': "no_faults fs'"
    using w nf None
    by (auto simp: os_WriteFile_def os_OpenCreate_def file_WriteAt_def file_Truncate0_def set_data_def sys_def
        no_faults_def lookup_def overwrite_def nth_append split: option.splits)
  have fresh: "p \<notin> fst ` set (names fs)" using None by (simp add: lookup_def map_of_eq_None_iff)
  have lt: "\<And>q j. (q, j) \<in> set (names fs) \<Longrightarrow> j < ?i" using wf by (auto simp: wf_fs_def)
  have wf': "wf_fs fs'" using wf fresh lt by (auto simp: wf_fs_def names store intro: less_SucI)
  have on': "one_name fs'" using on lt by (force simp: one_name_def names)
  have old: "fsize fs' j = fsize fs j" if "j < ?i" for j
    using that by (simp add: fsize_def store nth_append)
  have ps: "psize fs' q = (if q = p then int (length bs) else psize fs q)" for q
    using lt old by (auto simp: psize_def lookup_def names store fsize_def split: option.splits dest!: map_of_SomeD)
  have "settled dir b fs' = settled dir b fs" if p: "p \<in> inflight b"
  proof -
    have "settled_files dir b fs' = settled_files dir b fs"
      using p by (simp add: settled_files_def dir_files_def names)
    moreover have "esize fs' e = esize fs e" if "e \<in> set (settled_files dir b fs)" for e
    proof -
      have "(fst e, snd e) \<in> set (names fs)" using that by (simp add: settled_files_def dir_files_def)
      then have "snd e < ?i" by (rule lt)
      then show ?thesis using old by (simp add: esize_def)
    qed
    ultimately show ?thesis by (simp add: settled_def cong: map_cong)
  qed
  then show ?thesis using r wf' on' nf' ps by simp
next
  case (Some i)
  have names: "names fs' = names fs" and store: "store fs' = (store fs)[i := \<lparr>fdata = bs, fmod = fclock fs\<rparr>]"
    and r: "r = None" and nf': "no_faults fs'"
    using w nf Some wf wf_fs_def
    by (auto simp: os_WriteFile_def os_OpenCreate_def file_WriteAt_def file_Truncate0_def set_data_def sys_def
        no_faults_def lookup_def overwrite_def nth_list_update dest!: map_of_SomeD split: option.splits)
  have i: "i < length (store fs)" "(p, i) \<in> set (names fs)"
    using Some wf by (auto simp: wf_fs_def lookup_def dest: map_of_SomeD)
  have uniq: "q = p" if "(q, i) \<in> set (names fs)" for q
    using on i(2) that unfolding one_name_def by (metis distinct_map inj_on_def prod.inject snd_conv)
  have old: "fsize fs' j = fsize fs j" if "j \<noteq> i" for j
    using that by (simp add: fsize_def store)
  have wf': "wf_fs fs'" "one_name fs'" using wf on by (simp_all add: wf_fs_def one_name_def names store)
  have ps: "psize fs' q = (if q = p then int (length bs) else psize fs q)" for q
    using Some uniq old i(1)
    by (auto simp: psize_def lookup_def names store fsize_def nth_list_update split: option.splits dest!: map_of_SomeD)
  have "settled dir b fs' = settled dir b fs" if p: "p \<in> inflight b"
  proof -
    have "settled_files dir b fs' = settled_files dir b fs"
      by (simp add: settled_files_def dir_files_def names)
    moreover have "esize fs' e = esize fs e" if "e \<in> set (settled_files dir b fs)" for e
    proof -
      have e: "(fst e, snd e) \<in> set (names fs)" "fst e \<noteq> p"
        using that p by (auto simp: settled_files_def dir_files_def)
      then have "snd e \<noteq> i" using uniq by auto
      then show ?thesis using old by (simp add: esize_def)
    qed
    ultimately show ?thesis by (simp add: settled_def cong: map_cong)
  qed
  then show ?thesis using r wf' nf' ps by simp
qed

section \<open>The invariant\<close>

definition iinv :: "string \<Rightarrow> int \<Rightarrow> isys \<Rightarrow> bool" where
  "iinv dir mx s \<longleftrightarrow>
     no_faults (ifs s) \<and> wf_fs (ifs s) \<and> one_name (ifs s) \<and>
     distinct (map wpath (iwrites s)) \<and> inflight (ibud s) = wpath ` set (iwrites s) \<and>
     pending (ibud s) = sum_list (map wsize (iwrites s)) \<and> pending (ibud s) \<le> mx \<and>
     (\<forall>w \<in> set (iwrites s). entry_of dir (wpath w) \<and> 0 \<le> wsize w \<and> psize (ifs s) (wpath w) \<le> wsize w \<and>
        wres w \<noteq> Some False) \<and>
     (known (ibud s) \<and> bdir (ibud s) = dir \<longrightarrow>
        settled dir (ibud s) (ifs s) \<le> onDisk (ibud s) \<and> onDisk (ibud s) + pending (ibud s) \<le> mx)"

lemma iinvD:
  assumes "iinv dir mx s"
  shows i_nf: "no_faults (ifs s)" and i_wf: "wf_fs (ifs s)" and i_one: "one_name (ifs s)"
    and i_dist: "distinct (map wpath (iwrites s))"
    and i_infl: "inflight (ibud s) = wpath ` set (iwrites s)"
    and i_pend: "pending (ibud s) = sum_list (map wsize (iwrites s))" and i_cap: "pending (ibud s) \<le> mx"
    and i_write: "w \<in> set (iwrites s) \<Longrightarrow> entry_of dir (wpath w) \<and> 0 \<le> wsize w \<and>
        psize (ifs s) (wpath w) \<le> wsize w \<and> wres w \<noteq> Some False"
    and i_known: "known (ibud s) \<Longrightarrow> bdir (ibud s) = dir \<Longrightarrow>
        settled dir (ibud s) (ifs s) \<le> onDisk (ibud s) \<and> onDisk (ibud s) + pending (ibud s) \<le> mx"
  using assms unfolding iinv_def by blast+

lemma pending_pos:
  assumes "iinv dir mx s"
  shows "0 \<le> pending (ibud s)"
  unfolding i_pend [OF assms] by (rule sum_list_nonneg) (use i_write [OF assms] in auto)

lemma i_accounted: "iinv dir mx s \<Longrightarrow> accounted dir (ibud s) (ifs s)"
  using i_known by (auto simp: accounted_def)

lemma dir_bytes_cap:
  assumes inv: "iinv dir mx s" and k: "known (ibud s)" "bdir (ibud s) = dir"
  shows "dir_bytes dir (ifs s) \<le> mx"
proof -
  note wf = i_wf [OF inv]
  have "sum_list (map (esize (ifs s)) (filter (\<lambda>e. fst e \<in> inflight (ibud s)) (dir_files dir (ifs s)))) \<le>
      sum_list (map wsize (iwrites s))"
    unfolding i_infl [OF inv]
    by (rule inflight_bytes [OF dir_files_fst [OF wf] i_dist [OF inv]])
      (use i_write [OF inv] in \<open>auto simp: map_of_dir psize_def\<close>)
  then show ?thesis
    using dir_bytes_split [of dir "ifs s" "ibud s"] i_known [OF inv k] i_pend [OF inv] by linarith
qed

text \<open>Removing files keeps everything but the sizes, which can only shrink.\<close>

lemma psize_without: "psize (without R fs n) p = (if p \<in> R then 0 else psize fs p)"
  by (simp add: psize_def lookup_without fsize_def split: option.split)

lemma one_name_without: "one_name fs \<Longrightarrow> one_name (without R fs n)"
  by (simp add: one_name_def distinct_map_filter)

lemma settled_without_le: "settled dir b (without R fs n) \<le> settled dir b fs"
proof -
  have "sum_list (map isize (filter P xs)) \<le> sum_list (map isize xs)"
    if "\<And>f. f \<in> set xs \<Longrightarrow> 0 \<le> isize f" for P xs
    using that by (induction xs) (auto simp: add_increasing)
  moreover have "0 \<le> isize f" if "f \<in> set (inbox dir b fs)" for f
    using that by (auto simp: inbox_def file_info_def fsize_def)
  ultimately show ?thesis unfolding settled_inbox inbox_without by blast
qed

lemma removed_iinv:
  assumes inv: "iinv dir mx s"
    and b: "inflight b = inflight (ibud s)" "pending b = pending (ibud s)"
      "known b \<and> bdir b = dir \<Longrightarrow> settled dir b (without R (ifs s) n) \<le> onDisk b \<and> onDisk b + pending b \<le> mx"
  shows "iinv dir mx (s\<lparr>ibud := b, ifs := without R (ifs s) n\<rparr>)"
proof -
  have "psize (without R (ifs s) n) (wpath w) \<le> wsize w" if "w \<in> set (iwrites s)" for w
    using i_write [OF inv that] by (simp add: psize_without)
  then show ?thesis
    using iinvD(1-7) [OF inv] i_write [OF inv] b one_name_without unfolding iinv_def by simp
qed

lemma admit_iinv:
  assumes srt: "slice_sort srt" and mx: "0 \<le> mx" "mx < 2 ^ 63" and inv: "iinv dir mx s"
    and p: "entry_of dir p" "lookup (ifs s) p = None" "p \<notin> wpath ` set (iwrites s)" "0 \<le> sz"
    and r: "reserveInbox srt dir p sz mx (ibud s) (ifs s) = (None, b, fs)"
  shows "iinv dir mx (s\<lparr>ibud := b, ifs := fs, iwrites := \<lparr>wpath = p, wsize = sz, wres = None\<rparr> # iwrites s\<rparr>)"
proof -
  note nf = i_nf [OF inv] and wf = i_wf [OF inv]
  have room: "sz + pending (ibud s) \<le> mx" using r by (auto simp: reserveInbox_def split: if_splits)
  have q: "pending b = pending (ibud s) + sz" "inflight b = insert p (inflight (ibud s))"
    "settled dir (ibud s) fs \<le> onDisk b" "onDisk b + pending b \<le> mx"
    using reserve_no_faults [OF srt nf wf mx pending_pos [OF inv] room i_accounted [OF inv], of p] r by auto
  obtain R n where fs: "fs = without R (ifs s) n"
    using reserve_evicts [OF srt r] by (auto simp: evicts_def)
  have "settled dir b fs \<le> settled dir (ibud s) fs" using q(2) by (intro settled_mono) auto
  moreover have "psize fs (wpath w) \<le> wsize w" if "w \<in> set (iwrites s)" for w
    using i_write [OF inv that] by (simp add: fs psize_without)
  moreover have "psize fs p = 0" using p(2) unfolding fs psize_without by (simp add: psize_def)
  ultimately show ?thesis
    using iinvD(1-7) [OF inv] i_write [OF inv] p q room one_name_without unfolding iinv_def
    by (auto simp: fs)
qed

lemma settle_iinv:
  assumes inv: "iinv dir mx s" and w: "iwrites s = xs @ w # ys" and ok: "wres w = Some ok"
  shows "iinv dir mx (s\<lparr>ibud := inboxWriteDone (wpath w) (wsize w) ok (ibud s), iwrites := xs @ ys\<rparr>)"
proof -
  let ?b = "inboxWriteDone (wpath w) (wsize w) ok (ibud s)"
  have wi: "w \<in> set (iwrites s)" using w by simp
  have t: "ok" using i_write [OF inv wi] ok by simp
  have d: "wpath w \<notin> wpath ` set (xs @ ys)" "distinct (map wpath (xs @ ys))" using i_dist [OF inv] w by auto
  have infl: "inflight ?b = wpath ` set (xs @ ys)" "inflight ?b = inflight (ibud s) - {wpath w}"
    using i_infl [OF inv] d w by (auto simp: inboxWriteDone_def Let_def)
  have "0 \<le> sum_list (map wsize (xs @ ys))"
    by (rule sum_list_nonneg) (use i_write [OF inv] w in auto)
  then have pend: "pending ?b = sum_list (map wsize (xs @ ys))"
    using i_pend [OF inv] w by (simp add: inboxWriteDone_def Let_def)
  have od: "onDisk ?b = onDisk (ibud s) + wsize w" "known ?b = known (ibud s)" "bdir ?b = bdir (ibud s)"
    using t by (simp_all add: inboxWriteDone_def Let_def)
  have p: "wpath w \<in> inflight (ibud s)" using i_infl [OF inv] wi by simp
  have st: "settled dir ?b (ifs s) = settled dir (ibud s) (ifs s) + psize (ifs s) (wpath w)"
    using settled_release [OF i_wf [OF inv] p infl(2)] i_write [OF inv wi] by simp
  have tot: "pending (ibud s) = pending ?b + wsize w" using i_pend [OF inv] pend w by simp
  have kn: "settled dir ?b (ifs s) \<le> onDisk ?b \<and> onDisk ?b + pending ?b \<le> mx"
    if "known ?b" "bdir ?b = dir"
    using i_known [OF inv] i_write [OF inv wi] that st tot od by auto
  have "pending ?b \<le> mx" using tot i_cap [OF inv] i_write [OF inv wi] by linarith
  then show ?thesis
    using iinvD(1-4) [OF inv] i_write [OF inv] infl(1) d pend kn w unfolding iinv_def by auto
qed

lemma write_iinv:
  assumes inv: "iinv dir mx s" and w: "iwrites s = xs @ w # ys" and n: "int (length data) = wsize w"
    and r: "os_WriteFile (wpath w) data (ifs s) = (r, fs)"
  shows "iinv dir mx (s\<lparr>ifs := fs, iwrites := xs @ w\<lparr>wres := Some (r = None)\<rparr> # ys\<rparr>)"
proof -
  have wi: "w \<in> set (iwrites s)" using w by simp
  have p: "wpath w \<in> inflight (ibud s)" using i_infl [OF inv] wi by simp
  note q = WriteFile_no_faults [OF i_nf [OF inv] i_wf [OF inv] i_one [OF inv] r, of "ibud s" dir]
  have ne: "wpath v \<noteq> wpath w" if "v \<in> set (xs @ ys)" for v
    using i_dist [OF inv] w that by (auto simp: image_iff)
  have "psize fs (wpath v) \<le> wsize v" if "v \<in> set (xs @ w # ys)" for v
    using that q n i_write [OF inv, of v] ne [of v] w by (cases "v = w") auto
  then show ?thesis
    using iinvD(4-7) [OF inv] i_write [OF inv] i_known [OF inv] q p w n unfolding iinv_def
    by (auto simp: image_Un)
qed

lemma clock_sel [simp]:
  "no_faults (fs\<lparr>fclock := t\<rparr>) = no_faults fs" "wf_fs (fs\<lparr>fclock := t\<rparr>) = wf_fs fs"
  "one_name (fs\<lparr>fclock := t\<rparr>) = one_name fs" "psize (fs\<lparr>fclock := t\<rparr>) = psize fs"
  "settled dir b (fs\<lparr>fclock := t\<rparr>) = settled dir b fs"
proof -
  have z: "fsize (fs\<lparr>fclock := t\<rparr>) = fsize fs" by (simp add: fsize_def fun_eq_iff)
  then have "esize (fs\<lparr>fclock := t\<rparr>) = esize fs" by (simp add: esize_def fun_eq_iff)
  then show "settled dir b (fs\<lparr>fclock := t\<rparr>) = settled dir b fs"
    by (simp add: settled_def settled_files_def dir_files_def)
  show "psize (fs\<lparr>fclock := t\<rparr>) = psize fs" by (simp add: psize_def lookup_def z fun_eq_iff split: option.split)
qed (simp_all add: no_faults_def wf_fs_def one_name_def)

lemma sweep_iinv:
  assumes srt: "slice_sort srt" and mx: "0 < mx" "mx < 2 ^ 63" and inv: "iinv dir mx s"
    and r: "evictInboxOverflow srt cfg mx dir (ibud s) (ifs s) = (b, fs)"
  shows "iinv dir mx (s\<lparr>ibud := b, ifs := fs\<rparr>)"
proof -
  obtain R n where fs: "fs = without R (ifs s) n" and b: "inflight b = inflight (ibud s)" "pending b = pending (ibud s)"
    using evict_evicts [OF srt r] by (auto simp: evicts_def)
  have "settled dir (ibud s) fs + pending (ibud s) \<le> mx \<and> onDisk b = settled dir (ibud s) fs"
    using evict_overflow_caps [OF srt i_nf [OF inv] i_wf [OF inv] mx(2) _ r] mx(1) i_cap [OF inv] by simp
  moreover have "settled dir b fs = settled dir (ibud s) fs"
    using inbox_cong [OF b(1)] by (simp add: settled_inbox)
  ultimately show ?thesis
    unfolding fs by (intro removed_iinv [OF inv b]) (simp add: b(2) fs)
qed

lemma istep_iinv:
  assumes srt: "slice_sort srt" and mx: "0 < mx" "mx < 2 ^ 63"
  shows "istep srt dir mx cfg s s' \<Longrightarrow> iinv dir mx s \<Longrightarrow> iinv dir mx s'"
proof (induction rule: istep.induct)
  case (refuse p sz s e b fs)
  have nr: "\<not> (sz + pending (ibud s) \<le> mx)"
    using reserve_no_faults [OF srt i_nf [OF refuse.prems] i_wf [OF refuse.prems] _ mx(2)
        pending_pos [OF refuse.prems] _ i_accounted [OF refuse.prems], of sz p] refuse.hyps mx(1)
    by auto
  then have "b = ibud s" "fs = ifs s" using refuse.hyps by (auto simp: reserveInbox_def split: if_splits)
  then show ?case using refuse.prems by simp
next
  case (deleted s R)
  have "iinv dir mx (s\<lparr>ibud := ibud s, ifs := without R (ifs s) (ops (ifs s))\<rparr>)"
    by (rule removed_iinv [OF deleted.prems])
      (use i_known [OF deleted.prems] settled_without_le [of dir "ibud s" R "ifs s" "ops (ifs s)"] in auto)
  then show ?case by simp
next
  case (clock s t)
  then show ?case by (auto simp: iinv_def)
qed (use mx in \<open>auto intro: admit_iinv [OF srt] write_iinv settle_iinv sweep_iinv [OF srt]\<close>)

lemma init_iinv:
  "no_faults fs \<Longrightarrow> wf_fs fs \<Longrightarrow> one_name fs \<Longrightarrow> 0 < mx \<Longrightarrow> iinv dir mx (isys_init fs)"
  by (simp add: iinv_def isys_init_def)

lemma reach_iinv:
  assumes "slice_sort srt" and "0 < mx" and "mx < 2 ^ 63" and "no_faults fs" and "wf_fs fs" and "one_name fs"
    and "ireach srt dir mx cfg fs s"
  shows "iinv dir mx s"
  using assms(7) unfolding ireach_def
  by (induction rule: rtranclp_induct) (simp_all add: init_iinv assms istep_iinv [OF assms(1-3)])

section \<open>Properties\<close>

text \<open>
  C6. The byte cap of the inbox holds on disk, at every moment of every interleaving: as soon
  as the directory has been scanned once, the bytes of all files in it, those of writes in
  progress included, are at most the cap.  (No file operation fails; other processes may delete
  files at any time.)
\<close>

theorem inbox_cap:
  assumes "slice_sort srt" and "0 < mx" and "mx < 2 ^ 63"
    and "no_faults fs" and "wf_fs fs" and "one_name fs"
    and "ireach srt dir mx cfg fs s" and "known (ibud s)" and "bdir (ibud s) = dir"
  shows "dir_bytes dir (ifs s) \<le> mx \<and>
    settled dir (ibud s) (ifs s) \<le> onDisk (ibud s) \<and>
    pending (ibud s) = sum_list (map wsize (iwrites s))"
  using dir_bytes_cap [OF reach_iinv [OF assms(1-7)] assms(8,9)] i_known [OF reach_iinv [OF assms(1-7)] assms(8,9)]
    i_pend [OF reach_iinv [OF assms(1-7)]]
  by simp

lemma demo_entry: "entry_of ''/in'' ''/in/c''" "entry_of ''/in'' ''/in/a''" "entry_of ''/in'' ''/in/b''"
  by (simp_all add: entry_of_def filepath_Base_def filepath_Join_def filepath_Clean_def clean_elems_def
      clean_step_def Let_def)

lemma demo_one_name: "one_name demo_fs"
  by (simp add: one_name_def demo_fs_def)

theorem inbox_cap_witness:
  "\<exists>s. ireach (sort_key imod) ''/in'' 10 100 demo_fs s \<and> iwrites s \<noteq> [] \<and> dir_bytes ''/in'' (ifs s) \<le> 10"
proof -
  let ?s = "isys_init demo_fs"
  have b: "ibud ?s = demo_budget" "ifs ?s = demo_fs" "iwrites ?s = []"
    by (simp_all add: isys_init_def demo_budget_def)
  have pre: "0 \<le> pending demo_budget" "3 + pending demo_budget \<le> 10" "accounted ''/in'' demo_budget demo_fs"
    by (simp_all add: demo_budget_def accounted_def)
  obtain b' fs' where r: "reserveInbox (sort_key imod) ''/in'' ''/in/c'' 3 10 demo_budget demo_fs = (None, b', fs')"
    and k: "known b'" "bdir b' = ''/in''"
    using reserve_no_faults [OF ks.slice_sort_axioms demo_fs_ok _ _ pre, of "''/in/c''"] by auto
  let ?t = "?s\<lparr>ibud := b', ifs := fs', iwrites := \<lparr>wpath = ''/in/c'', wsize = 3, wres = None\<rparr> # iwrites ?s\<rparr>"
  have "lookup demo_fs ''/in/c'' = None" by (simp add: lookup_def demo_fs_def)
  then have "istep (sort_key imod) ''/in'' 10 100 ?s ?t"
    using istep.admit [of "''/in''" "''/in/c''" ?s 3 "sort_key imod" 10 b' fs' 100] demo_entry(1) r b by simp
  then have reach: "ireach (sort_key imod) ''/in'' 10 100 demo_fs ?t"
    unfolding ireach_def by (rule r_into_rtranclp)
  show ?thesis
    using inbox_cap [OF ks.slice_sort_axioms _ _ demo_fs_ok demo_one_name reach] k reach by (intro exI [of _ ?t]) simp
qed

text \<open>
  The comment that the running total \<^emph>\<open>can only drift upward\<close> does not cover a failed write:
  when \<^verbatim>\<open>os.WriteFile\<close> fails after some bytes, they stay on disk, and settling the reservation
  as not written leaves a running total below the bytes of the settled files.
\<close>

theorem failed_write_uncounted:
  "\<exists>b fs fs' e. known b \<and> bdir b = ''/in'' \<and> inflight b = {''/in/c''} \<and> pending b = 3 \<and>
     onDisk b = settled ''/in'' b fs \<and> os_WriteFile ''/in/c'' [1, 2, 3] fs = (Some e, fs') \<and>
     onDisk (inboxWriteDone ''/in/c'' 3 False b) <
       settled ''/in'' (inboxWriteDone ''/in/c'' 3 False b) fs'"
proof -
  let ?fs = "demo_fs\<lparr>opFault := (\<lambda>n p. if n = 1 then Some (OsErr ENOSPC ''no space left'') else None),
    shortWrite := (\<lambda>_. 2)\<rparr>"
  let ?b = "\<lparr>bdir = ''/in'', known = True, onDisk = 9, pending = 3, inflight = {''/in/c''}, scans = 1\<rparr>"
  let ?fs' = "?fs\<lparr>names := (''/in/c'', 2) # names demo_fs,
    store := store demo_fs @ [\<lparr>fdata = [1, 2], fmod = 3\<rparr>], ops := 2\<rparr>"
  have w: "os_WriteFile ''/in/c'' [1, 2, 3] ?fs = (Some (OsErr ENOSPC ''no space left''), ?fs')"
    by (simp add: os_WriteFile_def os_OpenCreate_def file_WriteAt_def file_Truncate0_def set_data_def sys_def
        lookup_def overwrite_def demo_fs_def)
  have s: "settled ''/in'' ?b ?fs = 9"
    by (simp add: settled_def settled_files_def dir_files_def demo_fs_def demo_entry fsize_def)
  have s': "settled ''/in'' (inboxWriteDone ''/in/c'' 3 False ?b) ?fs' = 11"
    by (simp add: settled_def settled_files_def dir_files_def demo_fs_def demo_entry fsize_def inboxWriteDone_def)
  have "onDisk (inboxWriteDone ''/in/c'' 3 False ?b) = 9" by (simp add: inboxWriteDone_def)
  with w s s' show ?thesis by (intro exI [of _ ?b] exI [of _ ?fs] exI [of _ ?fs'] exI) auto
qed

end
