(* ===== verification/Dedupe_Protocol.thy ===== *)
theory Dedupe_Protocol
  imports Dedupe
begin

text \<open>
  Connections that share one cache: the steps they take on it, a log of the stored deliveries,
  and the invariant from which the guarantees of duplicate suppression follow.
\<close>

section \<open>The system\<close>

record logent =
  lkey :: dedupeKey
  lentry :: eptr
  ltime :: int
  lack :: string

record dsys =
  scache :: deliveryDedupe
  sclock :: int
  sthreads :: "nat \<Rightarrow> claim_state"
  slog :: "logent list"

definition dsys_init :: "int \<Rightarrow> int \<Rightarrow> int \<Rightarrow> dsys" where
  "dsys_init w mx t =
     \<lparr>scache = newDeliveryDedupe w mx, sclock = t, sthreads = (\<lambda>_. Idle), slog = []\<rparr>"

inductive dstep :: "dsys \<Rightarrow> dsys \<Rightarrow> bool" where
  tick: "sclock s \<le> t \<Longrightarrow> dstep s (s\<lparr>sclock := t\<rparr>)"
| request: "sthreads s i \<in> {Idle, Cancelled} \<or> (\<exists>k' a. sthreads s i = Duplicated k' a) \<Longrightarrow>
    dstep s (s\<lparr>sthreads := (sthreads s)(i := Trying k)\<rparr>)"
| begin_claim: "sthreads s i = Trying k \<Longrightarrow> claim_begin (sclock s) (scache s) k = Some (st, c) \<Longrightarrow>
    dstep s (s\<lparr>scache := c, sthreads := (sthreads s)(i := st)\<rparr>)"
| recheck: "sthreads s i = Waiting k e \<Longrightarrow> edone (dheap (scache s) ! e) \<Longrightarrow>
    dstep s (s\<lparr>sthreads := (sthreads s)(i := claim_recheck (scache s) k e)\<rparr>)"
| cancel: "sthreads s i = Waiting k e \<Longrightarrow> dstep s (s\<lparr>sthreads := (sthreads s)(i := Cancelled)\<rparr>)"
| finish_stored: "sthreads s i = Holding k e \<Longrightarrow>
    claim_finish (sclock s) (scache s) (Some (k, e)) True a = Some (None, c) \<Longrightarrow>
    dstep s (s\<lparr>scache := c, sthreads := (sthreads s)(i := Idle),
      slog := slog s @ [\<lparr>lkey = k, lentry = e, ltime = sclock s, lack = a\<rparr>]\<rparr>)"
| finish_failed: "sthreads s i = Holding k e \<Longrightarrow>
    claim_finish (sclock s) (scache s) (Some (k, e)) False a = Some (None, c) \<Longrightarrow>
    dstep s (s\<lparr>scache := c, sthreads := (sthreads s)(i := Idle)\<rparr>)"

inductive_cases dstepE: "dstep s s'"

definition dreach :: "int \<Rightarrow> int \<Rightarrow> dsys \<Rightarrow> bool" where
  "dreach w mx s \<longleftrightarrow> (\<exists>t. dstep\<^sup>*\<^sup>* (dsys_init w mx t) s)"

section \<open>Operations on a cache that satisfies the invariant\<close>

lemma begin_delivery_cases:
  assumes inv: "dinv d"
  obtains d1 where "dq.dropped (length (takeWhile (expired now d) (stored d))) d d1"
    and "begin_delivery now d k =
      (case dentries d1 k of
         Some e \<Rightarrow> Some ((e, False), d1)
       | None \<Rightarrow> Some ((length (dheap d), True),
           d1\<lparr>dheap := dheap d @ [\<lparr>edone = False, eack = [], eexpires = 0\<rparr>],
              dentries := (dentries d1)(k \<mapsto> length (dheap d))\<rparr>))"
proof -
  obtain d1 where d1: "expireLocked now d = Some d1"
    "dq.dropped (length (takeWhile (expired now d) (stored d))) d d1"
    using expireLocked_dropped [OF inv] by blast
  moreover have "dheap d1 = dheap d" using d1(2) by (simp add: dq.dropped_def cache_rest_def)
  ultimately show ?thesis
    by (intro that [OF d1(2)]) (simp add: begin_delivery_def Let_def split: option.split)
qed

text \<open>What the log says about the cache.\<close>

definition forgotten :: "deliveryDedupe \<Rightarrow> logent list \<Rightarrow> nat" where
  "forgotten c log = length log - length (stored c)"

definition loginv :: "deliveryDedupe \<Rightarrow> int \<Rightarrow> logent list \<Rightarrow> bool" where
  "loginv c t log \<longleftrightarrow> dinv c \<and> 0 \<le> dmax c \<and> length (stored c) \<le> length log \<and>
     map (\<lambda>x. (okey x, oentry x)) (stored c) =
       map (\<lambda>l. (lkey l, Some (lentry l))) (drop (forgotten c log) log) \<and>
     (\<forall>l \<in> set (drop (forgotten c log) log).
        eack (dheap c ! lentry l) = lack l \<and> eexpires (dheap c ! lentry l) = ltime l + dwindow c) \<and>
     (\<forall>i < forgotten c log. ltime (log ! i) + dwindow c \<le> t \<or> i + nat (dmax c) < length log) \<and>
     (\<forall>j < length log. \<forall>i < j. lkey (log ! i) = lkey (log ! j) \<longrightarrow>
        ltime (log ! i) + dwindow c \<le> ltime (log ! j) \<or> i + nat (dmax c) < j)"

text \<open>What the connections know about the cache.\<close>

definition thrinv :: "deliveryDedupe \<Rightarrow> (nat \<Rightarrow> claim_state) \<Rightarrow> bool" where
  "thrinv c thr \<longleftrightarrow>
     (\<forall>x \<in> set (stored c). edone (dheap c ! the (oentry x))) \<and>
     (\<forall>i k e. thr i = Holding k e \<longrightarrow> dentries c k = Some e \<and> \<not> edone (dheap c ! e)) \<and>
     (\<forall>i j k e e'. thr i = Holding k e \<longrightarrow> thr j = Holding k e' \<longrightarrow> i = j) \<and>
     (\<forall>k e. dentries c k = Some e \<longrightarrow>
        (\<exists>x \<in> set (stored c). okey x = k \<and> oentry x = Some e) \<or> (\<exists>i. thr i = Holding k e)) \<and>
     (\<forall>i k e. thr i = Waiting k e \<longrightarrow>
        e < length (dheap c) \<and> (edone (dheap c ! e) \<or> (\<exists>j. thr j = Holding k e)))"

lemma thrinvD:
  assumes "thrinv c thr"
  shows stored_done: "x \<in> set (stored c) \<Longrightarrow> edone (dheap c ! the (oentry x))"
    and holding_entry: "thr i = Holding k e \<Longrightarrow> dentries c k = Some e"
    and holding_open: "thr i = Holding k e \<Longrightarrow> \<not> edone (dheap c ! e)"
    and holding_unique: "thr i = Holding k e \<Longrightarrow> thr j = Holding k e' \<Longrightarrow> i = j"
    and entry_origin: "dentries c k = Some e \<Longrightarrow>
        (\<exists>x \<in> set (stored c). okey x = k \<and> oentry x = Some e) \<or> (\<exists>i. thr i = Holding k e)"
    and waiting_entry: "thr i = Waiting k e \<Longrightarrow> e < length (dheap c)"
    and waiting_holder: "thr i = Waiting k e \<Longrightarrow> edone (dheap c ! e) \<or> (\<exists>j. thr j = Holding k e)"
  using assms unfolding thrinv_def by blast+

lemma dinvD:
  assumes "dinv d"
  shows stored_entry: "x \<in> set (stored d) \<Longrightarrow> \<exists>e. oentry x = Some e \<and> dentries d (okey x) = Some e"
    and entry_bound: "dentries d k = Some e \<Longrightarrow> e < length (dheap d)"
    and entry_inj: "dentries d k = Some e \<Longrightarrow> dentries d k' = Some e \<Longrightarrow> k = k'"
    and stored_distinct: "distinct (map okey (stored d))"
  using assms by (auto simp: dinv_def ran_def inj_on_def dom_def)

lemma held_not_stored:
  assumes "thrinv c thr" and "dinv c" and "thr i = Holding k e" and "x \<in> set (stored c)"
  shows "okey x \<noteq> k"
  using stored_done [OF assms(1,4)] holding_entry [OF assms(1,3)] holding_open [OF assms(1,3)]
    stored_entry [OF assms(2,4)] by auto

lemma loginvD:
  assumes "loginv c t log"
  shows log_dinv: "dinv c"
    and log_max: "0 \<le> dmax c"
    and log_length: "length (stored c) \<le> length log"
    and log_stored: "map (\<lambda>x. (okey x, oentry x)) (stored c) =
        map (\<lambda>l. (lkey l, Some (lentry l))) (drop (forgotten c log) log)"
    and log_entry: "l \<in> set (drop (forgotten c log) log) \<Longrightarrow>
        eack (dheap c ! lentry l) = lack l \<and> eexpires (dheap c ! lentry l) = ltime l + dwindow c"
    and log_forgotten: "i < forgotten c log \<Longrightarrow>
        ltime (log ! i) + dwindow c \<le> t \<or> i + nat (dmax c) < length log"
    and log_apart: "i < j \<Longrightarrow> j < length log \<Longrightarrow> lkey (log ! i) = lkey (log ! j) \<Longrightarrow>
        ltime (log ! i) + dwindow c \<le> ltime (log ! j) \<or> i + nat (dmax c) < j"
  using assms unfolding loginv_def by blast+

lemma log_live:
  assumes "loginv c t log" and "l \<in> set (drop (forgotten c log) log)"
  shows "\<exists>x \<in> set (stored c). okey x = lkey l \<and> oentry x = Some (lentry l)"
proof -
  have "(lkey l, Some (lentry l)) \<in> set (map (\<lambda>x. (okey x, oentry x)) (stored c))"
    using assms(2) unfolding log_stored [OF assms(1)] by auto
  then show ?thesis by auto
qed

lemmas dropped_simps = dq.dropped_def cache_rest_def

lemma dropped_keeps:
  assumes "dq.dropped n c c'"
  shows "dheap c' = dheap c" "dwindow c' = dwindow c" "dmax c' = dmax c" "dinv c'"
    "stored c' = drop n (stored c)"
  using assms by (simp_all add: dropped_simps)

lemma dropped_loginv:
  assumes inv: "loginv c t log" and dr: "dq.dropped n c c'" and n: "n \<le> length (stored c)"
    and why: "\<And>i. forgotten c log \<le> i \<Longrightarrow> i < forgotten c log + n \<Longrightarrow>
      ltime (log ! i) + dwindow c \<le> t \<or> i + nat (dmax c) < length log"
  shows "loginv c' t log"
proof -
  note keep = dropped_keeps [OF dr]
  have fg: "forgotten c' log = forgotten c log + n"
    using inv n keep(5) by (auto simp: forgotten_def loginv_def)
  have "map (\<lambda>x. (okey x, oentry x)) (drop n (stored c)) =
      map (\<lambda>l. (lkey l, Some (lentry l))) (drop n (drop (forgotten c log) log))"
    using inv by (simp add: loginv_def flip: drop_map)
  moreover have "ltime (log ! i) + dwindow c \<le> t \<or> i + nat (dmax c) < length log"
    if "i < forgotten c log + n" for i
    using that inv why [of i] by (cases "i < forgotten c log") (auto simp: loginv_def)
  moreover have "set (drop (forgotten c log + n) log) \<subseteq> set (drop (forgotten c log) log)"
    by (simp add: set_drop_subset_set_drop)
  ultimately show ?thesis
    using inv keep unfolding loginv_def fg by (auto simp: add.commute)
qed

text \<open>A step back in time never happens: expired entries stay expired.\<close>

lemma loginv_later: "loginv c t log \<Longrightarrow> t \<le> t' \<Longrightarrow> loginv c t' log"
  by (fastforce simp: loginv_def)

text \<open>A stored entry and the log entry it stands for.\<close>

lemma stored_log:
  assumes inv: "loginv c t log" and j: "j < length (stored c)"
  shows "okey (stored c ! j) = lkey (log ! (forgotten c log + j))"
    "oentry (stored c ! j) = Some (lentry (log ! (forgotten c log + j)))"
    "log ! (forgotten c log + j) \<in> set (drop (forgotten c log) log)"
proof -
  have len: "forgotten c log + j < length log"
    using inv j by (auto simp: forgotten_def loginv_def)
  have "map (\<lambda>x. (okey x, oentry x)) (stored c) ! j =
      map (\<lambda>l. (lkey l, Some (lentry l))) (drop (forgotten c log) log) ! j"
    using inv by (simp add: loginv_def)
  then show "okey (stored c ! j) = lkey (log ! (forgotten c log + j))"
    "oentry (stored c ! j) = Some (lentry (log ! (forgotten c log + j)))"
    using j len by (simp_all add: nth_append)
  show "log ! (forgotten c log + j) \<in> set (drop (forgotten c log) log)"
    using len by (metis (no_types, lifting) add_leD1 in_set_conv_nth length_drop less_diff_conv2
        less_or_eq_imp_le nth_drop add.commute add_less_cancel_left le_add_diff_inverse)
qed

lemma expire_loginv:
  assumes inv: "loginv c t log"
    and dr: "dq.dropped (length (takeWhile (expired t c) (stored c))) c c'"
  shows "loginv c' t log"
proof (rule dropped_loginv [OF inv dr])
  show "length (takeWhile (expired t c) (stored c)) \<le> length (stored c)"
    by (rule length_takeWhile_le)
  fix i
  assume i: "forgotten c log \<le> i" "i < forgotten c log + length (takeWhile (expired t c) (stored c))"
  let ?j = "i - forgotten c log"
  have j: "?j < length (takeWhile (expired t c) (stored c))" "?j < length (stored c)"
    using i length_takeWhile_le [of "expired t c" "stored c"] by linarith+
  then have "expired t c (stored c ! ?j)"
    by (metis nth_mem set_takeWhileD takeWhile_nth)
  moreover have e: "forgotten c log + ?j = i" using i by simp
  have "eexpires (dheap c ! lentry (log ! i)) = ltime (log ! i) + dwindow c"
    using stored_log(3) [OF inv j(2), unfolded e] inv unfolding loginv_def by blast
  ultimately show "ltime (log ! i) + dwindow c \<le> t \<or> i + nat (dmax c) < length log"
    using stored_log(2) [OF inv j(2), unfolded e] by (simp add: expired_def)
qed

text \<open>No key of a dropped entry is held, so holders keep their entry.\<close>

lemma dropped_thrinv:
  assumes thr: "thrinv c thr" and inv: "dinv c" and dr: "dq.dropped n c c'"
  shows "thrinv c' thr"
proof -
  note keep = dropped_keeps [OF dr]
  have ents: "dentries c' = dentries c |` (- set (map okey (take n (stored c))))"
    using dr by (simp add: dropped_simps)
  note key = held_not_stored [OF thr inv]
  have gone: "x \<in> set (drop n (stored c)) \<or> x \<in> set (take n (stored c))" if "x \<in> set (stored c)" for x
    using that by (metis Un_iff append_take_drop_id set_append)
  show ?thesis
    unfolding thrinv_def
  proof (intro conjI allI impI ballI)
    fix x assume "x \<in> set (stored c')"
    then show "edone (dheap c' ! the (oentry x))"
      using stored_done [OF thr] keep by (auto dest: in_set_dropD)
  next
    fix i k e assume h: "thr i = Holding k e"
    then show "dentries c' k = Some e"
      using holding_entry [OF thr h] key [OF h] ents
      by (auto simp: restrict_map_def dest: in_set_takeD)
    show "\<not> edone (dheap c' ! e)" using holding_open [OF thr h] keep by simp
  next
    fix i j k e e' assume "thr i = Holding k e" "thr j = Holding k e'"
    then show "i = j" using holding_unique [OF thr] by blast
  next
    fix k e assume k: "dentries c' k = Some e"
    then have c: "dentries c k = Some e" and nk: "k \<notin> okey ` set (take n (stored c))"
      using ents by (auto simp: restrict_map_def split: if_splits)
    show "(\<exists>x \<in> set (stored c'). okey x = k \<and> oentry x = Some e) \<or> (\<exists>i. thr i = Holding k e)"
      using entry_origin [OF thr c] nk gone keep(5) by auto
  next
    fix i k e assume w: "thr i = Waiting k e"
    show "e < length (dheap c')" "edone (dheap c' ! e) \<or> (\<exists>j. thr j = Holding k e)"
      using waiting_entry [OF thr w] waiting_holder [OF thr w] keep by auto
  qed
qed

section \<open>Preservation\<close>

lemma thrinv_quiet:
  assumes thr: "thrinv c thr" and inv: "dinv c" and old: "\<And>k e. thr i \<noteq> Holding k e"
    and new: "\<And>k e. st \<noteq> Holding k e" "\<And>k e. st = Waiting k e \<Longrightarrow> dentries c k = Some e"
  shows "thrinv c (thr(i := st))"
proof -
  have hold: "(thr(i := st)) j = Holding k e \<longleftrightarrow> thr j = Holding k e" for j k e
    using old new(1) by auto
  have wait: "e < length (dheap c) \<and> (edone (dheap c ! e) \<or> (\<exists>j. thr j = Holding k e))"
    if w: "(thr(i := st)) j = Waiting k e" for j k e
  proof (cases "j = i")
    case False
    then show ?thesis using w waiting_entry [OF thr] waiting_holder [OF thr] by auto
  next
    case True
    then have c: "dentries c k = Some e" using w new(2) by simp
    have "edone (dheap c ! e) \<or> (\<exists>j. thr j = Holding k e)"
      using entry_origin [OF thr c] stored_done [OF thr] by force
    then show ?thesis using entry_bound [OF inv c] by blast
  qed
  show ?thesis
    using thr wait unfolding thrinv_def hold by blast
qed

definition fresh_entry :: "deliveryDedupe \<Rightarrow> dedupeKey \<Rightarrow> deliveryDedupe" where
  "fresh_entry d k =
     d\<lparr>dheap := dheap d @ [\<lparr>edone = False, eack = [], eexpires = 0\<rparr>],
       dentries := (dentries d)(k \<mapsto> length (dheap d))\<rparr>"

lemma fresh_sel [simp]:
  "stored (fresh_entry d k) = stored d" "dwindow (fresh_entry d k) = dwindow d"
  "dmax (fresh_entry d k) = dmax d" "forgotten (fresh_entry d k) log = forgotten d log"
  "dentries (fresh_entry d k) = (dentries d)(k \<mapsto> length (dheap d))"
  "dheap (fresh_entry d k) = dheap d @ [\<lparr>edone = False, eack = [], eexpires = 0\<rparr>]"
  by (simp_all add: fresh_entry_def stored_def forgotten_def)

lemma fresh_dinv:
  assumes inv: "dinv d" and k: "dentries d k = None"
  shows "dinv (fresh_entry d k)"
proof -
  have lt: "\<And>k' e. dentries d k' = Some e \<Longrightarrow> e < length (dheap d)" by (rule entry_bound [OF inv])
  have ne: "\<And>x. x \<in> set (stored d) \<Longrightarrow> okey x \<noteq> k"
    using stored_entry [OF inv] k by fastforce
  have 1: "\<forall>x \<in> set (stored d). \<exists>e. oentry x = Some e \<and>
      ((dentries d)(k \<mapsto> length (dheap d))) (okey x) = Some e"
    using stored_entry [OF inv] ne by auto
  have 2: "\<forall>e \<in> ran ((dentries d)(k \<mapsto> length (dheap d))). e < length (dheap d) + 1"
    using lt by (auto simp: ran_def less_SucI)
  have 3: "inj_on ((dentries d)(k \<mapsto> length (dheap d))) (dom ((dentries d)(k \<mapsto> length (dheap d))))"
  proof (rule inj_onI)
    have nk: "dentries d a \<noteq> Some (length (dheap d))" for a using lt [of a] by blast
    fix a b
    let ?m = "(dentries d)(k \<mapsto> length (dheap d))"
    assume "a \<in> dom ?m" and eq: "?m a = ?m b"
    then obtain e where "?m a = Some e" "?m b = Some e" by (metis domD)
    then show "a = b"
      using entry_inj [OF inv, of a e b] nk by (cases "a = k"; cases "b = k") auto
  qed
  show ?thesis using inv 1 2 3 unfolding dinv_def fresh_sel
    by (simp add: fresh_entry_def)
qed

lemma fresh_loginv:
  assumes inv: "loginv c t log" and k: "dentries c k = None"
  shows "loginv (fresh_entry c k) t log"
proof -
  have d: "dinv c" using inv by (simp add: loginv_def)
  have "lentry l < length (dheap c)" if l: "l \<in> set (drop (forgotten c log) log)" for l
  proof -
    obtain x where x: "x \<in> set (stored c)" "oentry x = Some (lentry l)"
      using log_live [OF inv l] by blast
    then show ?thesis
      using stored_entry [OF d x(1)] entry_bound [OF d, of "okey x" "lentry l"] by auto
  qed
  then show ?thesis
    using inv fresh_dinv [OF d k] unfolding loginv_def fresh_sel by (auto simp: nth_append)
qed

lemma fresh_thrinv:
  assumes thr: "thrinv c thr" and inv: "dinv c" and k: "dentries c k = None" and i: "thr i = Trying k'"
  shows "thrinv (fresh_entry c k) (thr(i := Holding k (length (dheap c))))"
proof -
  let ?e = "length (dheap c)"
  let ?t = "thr(i := Holding k ?e)"
  have old: "?t j = Holding k1 e1 \<longleftrightarrow> thr j = Holding k1 e1 \<or> j = i \<and> k1 = k \<and> e1 = ?e" for j k1 e1
    using i by auto
  have no: "thr j \<noteq> Holding k e1" for j e1
    using holding_entry [OF thr, of j k e1] k by auto
  have lt: "dentries c k1 = Some e1 \<Longrightarrow> e1 < ?e" for k1 e1 by (rule entry_bound [OF inv])
  show ?thesis
    unfolding thrinv_def old fresh_sel
  proof (intro conjI allI impI ballI)
    fix x assume x: "x \<in> set (stored c)"
    then have "the (oentry x) < ?e" using stored_entry [OF inv x] lt by force
    then show "edone ((dheap c @ [\<lparr>edone = False, eack = [], eexpires = 0\<rparr>]) ! the (oentry x))"
      using stored_done [OF thr x] by (simp add: nth_append)
  next
    fix j k1 e1 assume h: "thr j = Holding k1 e1 \<or> j = i \<and> k1 = k \<and> e1 = ?e"
    show "((dentries c)(k \<mapsto> ?e)) k1 = Some e1"
      using h holding_entry [OF thr] no by fastforce
    show "\<not> edone ((dheap c @ [\<lparr>edone = False, eack = [], eexpires = 0\<rparr>]) ! e1)"
      using h holding_entry [OF thr] holding_open [OF thr] lt by (fastforce simp: nth_append)
  next
    fix j j' k1 e1 e2
    assume "thr j = Holding k1 e1 \<or> j = i \<and> k1 = k \<and> e1 = ?e"
      "thr j' = Holding k1 e2 \<or> j' = i \<and> k1 = k \<and> e2 = ?e"
    then show "j = j'" using holding_unique [OF thr] no by blast
  next
    fix k1 e1 assume "((dentries c)(k \<mapsto> ?e)) k1 = Some e1"
    then show "(\<exists>x \<in> set (stored c). okey x = k1 \<and> oentry x = Some e1) \<or>
        (\<exists>j. thr j = Holding k1 e1 \<or> j = i \<and> k1 = k \<and> e1 = ?e)"
      using entry_origin [OF thr] by (auto split: if_splits)
  next
    fix j k1 e1 assume "?t j = Waiting k1 e1"
    then have w: "thr j = Waiting k1 e1" by (auto split: if_splits)
    show "e1 < length (dheap c @ [\<lparr>edone = False, eack = [], eexpires = 0\<rparr>])"
      using waiting_entry [OF thr w] by simp
    show "edone ((dheap c @ [\<lparr>edone = False, eack = [], eexpires = 0\<rparr>]) ! e1) \<or>
        (\<exists>j. thr j = Holding k1 e1 \<or> j = i \<and> k1 = k \<and> e1 = ?e)"
      using waiting_entry [OF thr w] waiting_holder [OF thr w] by (auto simp: nth_append)
  qed
qed

text \<open>The two halves of a \<open>finish\<close>: an entry recorded as stored, and its channel closed.\<close>

definition record_entry :: "int \<Rightarrow> deliveryDedupe \<Rightarrow> dedupeKey \<Rightarrow> eptr \<Rightarrow> string \<Rightarrow> deliveryDedupe" where
  "record_entry now d key e a =
     d\<lparr>dheap := (dheap d)[e := (dheap d ! e)\<lparr>eack := a, eexpires := now + dwindow d\<rparr>],
       dorder := dorder d @ [\<lparr>okey = key, oentry = Some e\<rparr>]\<rparr>"

definition close_entry :: "deliveryDedupe \<Rightarrow> eptr \<Rightarrow> deliveryDedupe" where
  "close_entry d e = d\<lparr>dheap := (dheap d)[e := (dheap d ! e)\<lparr>edone := True\<rparr>]\<rparr>"

lemma record_sel:
  "dinv d \<Longrightarrow> stored (record_entry now d k e a) = stored d @ [\<lparr>okey = k, oentry = Some e\<rparr>]"
  "dentries (record_entry now d k e a) = dentries d"
  "dwindow (record_entry now d k e a) = dwindow d" "dmax (record_entry now d k e a) = dmax d"
  "dheap (record_entry now d k e a) = (dheap d)[e := (dheap d ! e)\<lparr>eack := a, eexpires := now + dwindow d\<rparr>]"
  by (simp_all add: record_entry_def stored_def dinv_def)

lemma close_sel [simp]:
  "stored (close_entry d e) = stored d" "dentries (close_entry d e) = dentries d"
  "dwindow (close_entry d e) = dwindow d" "dmax (close_entry d e) = dmax d"
  "forgotten (close_entry d e) log = forgotten d log"
  "dheap (close_entry d e) = (dheap d)[e := (dheap d ! e)\<lparr>edone := True\<rparr>]"
  by (simp_all add: close_entry_def stored_def forgotten_def)

lemma close_dinv: "dinv d \<Longrightarrow> dinv (close_entry d e)"
  unfolding dinv_def close_sel by (simp add: close_entry_def)

lemma record_dinv:
  assumes inv: "dinv d" and k: "dentries d k = Some e" and new: "\<And>x. x \<in> set (stored d) \<Longrightarrow> okey x \<noteq> k"
  shows "dinv (record_entry now d k e a)"
proof -
  have "distinct (map okey (stored d @ [\<lparr>okey = k, oentry = Some e\<rparr>]))"
    using stored_distinct [OF inv] new by auto
  moreover have "\<forall>x \<in> set (stored d @ [\<lparr>okey = k, oentry = Some e\<rparr>]).
      \<exists>e. oentry x = Some e \<and> dentries d (okey x) = Some e"
    using stored_entry [OF inv] k by auto
  ultimately show ?thesis
    using inv unfolding dinv_def record_sel(1) [OF inv] record_sel(2-)
    by (auto simp: record_entry_def)
qed

lemma finish_stored_cases:
  assumes inv: "dinv d" and mx: "0 \<le> dmax d" and k: "dentries d k = Some e"
    and op: "\<not> edone (dheap d ! e)" and new: "\<And>x. x \<in> set (stored d) \<Longrightarrow> okey x \<noteq> k"
  obtains d2 where "dq.dropped (Suc (length (stored d)) - nat (dmax d)) (record_entry now d k e a) d2"
    and "finish now d k e True a = Some (close_entry d2 e)"
proof -
  let ?d1 = "record_entry now d k e a"
  obtain d2 where d2: "popOverflow ?d1 = Some d2" "dq.dropped (length (stored ?d1) - nat (dmax ?d1)) ?d1 d2"
    using popOverflow_dropped [OF record_dinv [OF inv k new]] mx by (auto simp: record_sel)
  have "e < length (dheap d)" by (rule entry_bound [OF inv k])
  then have "\<not> edone (dheap d2 ! e)"
    using op dropped_keeps(1) [OF d2(2)] by (simp add: record_sel)
  then show ?thesis
    using d2 by (intro that [of d2])
      (simp_all add: finish_def Let_def record_sel inv close_entry_def flip: record_entry_def)
qed

lemma finish_failed_cases:
  assumes k: "dentries d k = Some e" and op: "\<not> edone (dheap d ! e)"
  shows "finish now d k e False a =
    Some (close_entry (d\<lparr>dentries := (dentries d)(k := None)\<rparr>) e)"
  using assms by (simp add: finish_def Let_def close_entry_def)

lemma close_loginv: "loginv c t log \<Longrightarrow> loginv (close_entry c e) t log"
  unfolding loginv_def close_sel
  by (cases "e < length (dheap c)") (auto simp: close_dinv nth_list_update list_update_beyond)

lemma record_loginv:
  assumes inv: "loginv c t log" and k: "dentries c k = Some e"
    and new: "\<And>x. x \<in> set (stored c) \<Longrightarrow> okey x \<noteq> k"
  shows "loginv (record_entry t c k e a) t (log @ [\<lparr>lkey = k, lentry = e, ltime = t, lack = a\<rparr>])"
proof -
  let ?c = "record_entry t c k e a"
  let ?l = "\<lparr>lkey = k, lentry = e, ltime = t, lack = a\<rparr>"
  note d = log_dinv [OF inv]
  have fg: "forgotten ?c (log @ [?l]) = forgotten c log"
    by (simp add: forgotten_def record_sel d)
  have live: "drop (forgotten c log) (log @ [?l]) = drop (forgotten c log) log @ [?l]"
    by (simp add: forgotten_def)
  have other: "lentry l \<noteq> e" "lkey l \<noteq> k" if l: "l \<in> set (drop (forgotten c log) log)" for l
  proof -
    obtain x where x: "x \<in> set (stored c)" "okey x = lkey l" "oentry x = Some (lentry l)"
      using log_live [OF inv l] by blast
    then show "lkey l \<noteq> k" using new by blast
    with x show "lentry l \<noteq> e"
      using stored_entry [OF d x(1)] entry_inj [OF d k, of "okey x"] by auto
  qed
  have apart: "ltime (log ! i) + dwindow c \<le> t \<or> i + nat (dmax c) < length log"
    if i: "i < length log" "lkey (log ! i) = k" for i
  proof (cases "i < forgotten c log")
    case False
    then have "log ! i \<in> set (drop (forgotten c log) log)"
      using i(1) by (auto simp: in_set_conv_nth intro!: exI [of _ "i - forgotten c log"])
    with other(2) i(2) show ?thesis by blast
  qed (rule log_forgotten [OF inv])
  have e: "e < length (dheap c)" by (rule entry_bound [OF d k])
  show ?thesis
    unfolding loginv_def fg live
  proof (intro conjI ballI allI impI)
    show "dinv ?c" by (rule record_dinv [OF d k new])
    show "0 \<le> dmax ?c" using log_max [OF inv] by (simp add: record_sel)
    show "length (stored ?c) \<le> length (log @ [?l])" using log_length [OF inv] by (simp add: record_sel d)
    show "map (\<lambda>x. (okey x, oentry x)) (stored ?c) =
        map (\<lambda>l. (lkey l, Some (lentry l))) (drop (forgotten c log) log @ [?l])"
      using log_stored [OF inv] by (simp add: record_sel d)
  next
    fix l assume "l \<in> set (drop (forgotten c log) log @ [?l])"
    then show "eack (dheap ?c ! lentry l) = lack l" "eexpires (dheap ?c ! lentry l) = ltime l + dwindow ?c"
      using log_entry [OF inv] other(1) e by (auto simp: record_sel nth_list_update)
  next
    fix i assume i: "i < forgotten c log"
    then have "i < length log" by (simp add: forgotten_def)
    then show "ltime ((log @ [?l]) ! i) + dwindow ?c \<le> t \<or> i + nat (dmax ?c) < length (log @ [?l])"
      using log_forgotten [OF inv i] by (auto simp: record_sel nth_append)
  next
    fix j i assume j: "j < length (log @ [?l])" "i < j" "lkey ((log @ [?l]) ! i) = lkey ((log @ [?l]) ! j)"
    then show "ltime ((log @ [?l]) ! i) + dwindow ?c \<le> ltime ((log @ [?l]) ! j) \<or> i + nat (dmax ?c) < j"
      using log_apart [OF inv, of i j] apart [of i]
      by (cases "j = length log") (auto simp: record_sel nth_append)
  qed
qed

lemma finish_thrinv:
  assumes thr: "thrinv c thr" and inv: "dinv c" and i: "thr i = Holding k e"
  shows "thrinv (close_entry (record_entry t c k e a) e) (thr(i := Idle))"
proof -
  let ?c = "close_entry (record_entry t c k e a) e"
  have k: "dentries c k = Some e" and e: "e < length (dheap c)"
    using holding_entry [OF thr i] entry_bound [OF inv] by blast+
  have st: "stored ?c = stored c @ [\<lparr>okey = k, oentry = Some e\<rparr>]" by (simp add: record_sel inv)
  have dn: "edone (dheap ?c ! e') \<longleftrightarrow> edone (dheap c ! e') \<or> e' = e" for e'
    using e by (auto simp: record_sel nth_list_update)
  have hold: "(thr(i := Idle)) j = Holding k1 e1 \<longleftrightarrow> thr j = Holding k1 e1 \<and> j \<noteq> i" for j k1 e1
    by auto
  have mine: "k1 = k" if "thr j = Holding k1 e" for j k1
    using entry_inj [OF inv k] holding_entry [OF thr that] by blast
  show ?thesis
    unfolding thrinv_def hold dn
  proof (intro conjI allI impI ballI)
    fix x assume "x \<in> set (stored ?c)"
    then show "edone (dheap c ! the (oentry x)) \<or> the (oentry x) = e"
      using stored_done [OF thr] unfolding st by auto
  next
    fix j k1 e1 assume h: "thr j = Holding k1 e1 \<and> j \<noteq> i"
    then show "dentries ?c k1 = Some e1"
      using holding_entry [OF thr, of j k1 e1] by (simp add: record_sel)
    show "\<not> (edone (dheap c ! e1) \<or> e1 = e)"
      using h holding_open [OF thr] holding_unique [OF thr i] mine by blast
  next
    fix j j' k1 e1 e2 assume "thr j = Holding k1 e1 \<and> j \<noteq> i" "thr j' = Holding k1 e2 \<and> j' \<noteq> i"
    then show "j = j'" using holding_unique [OF thr] by blast
  next
    fix k1 e1 assume "dentries ?c k1 = Some e1"
    then have k1: "dentries c k1 = Some e1" by (simp add: record_sel)
    show "(\<exists>x \<in> set (stored ?c). okey x = k1 \<and> oentry x = Some e1) \<or> (\<exists>j. thr j = Holding k1 e1 \<and> j \<noteq> i)"
      using entry_origin [OF thr k1] i unfolding st by auto
  next
    fix j k1 e1 assume "(thr(i := Idle)) j = Waiting k1 e1"
    then have w: "thr j = Waiting k1 e1" by (auto split: if_splits)
    show "e1 < length (dheap ?c)" using waiting_entry [OF thr w] by (simp add: record_sel)
    show "(edone (dheap c ! e1) \<or> e1 = e) \<or> (\<exists>j. thr j = Holding k1 e1 \<and> j \<noteq> i)"
      using waiting_holder [OF thr w] i by auto
  qed
qed

lemma close_dropped:
  assumes "dq.dropped n d d2"
  shows "dq.dropped n (close_entry d e) (close_entry d2 e)"
  using assms close_dinv by (auto simp: dropped_simps)

text \<open>An entry taken out of the index, when its delivery failed.\<close>

definition drop_key :: "deliveryDedupe \<Rightarrow> dedupeKey \<Rightarrow> deliveryDedupe" where
  "drop_key d k = d\<lparr>dentries := (dentries d)(k := None)\<rparr>"

lemma drop_key_sel [simp]:
  "stored (drop_key d k) = stored d" "dheap (drop_key d k) = dheap d"
  "dwindow (drop_key d k) = dwindow d" "dmax (drop_key d k) = dmax d"
  "forgotten (drop_key d k) log = forgotten d log"
  "dentries (drop_key d k) = (dentries d)(k := None)"
  by (simp_all add: drop_key_def stored_def forgotten_def)

lemma drop_key_dinv:
  assumes inv: "dinv d" and new: "\<And>x. x \<in> set (stored d) \<Longrightarrow> okey x \<noteq> k"
  shows "dinv (drop_key d k)"
proof -
  have "inj_on ((dentries d)(k := None)) (dom ((dentries d)(k := None)))"
    using inv by (auto simp: dinv_def inj_on_def dom_def)
  moreover have "ran ((dentries d)(k := None)) \<subseteq> ran (dentries d)"
    by (auto simp: ran_def split: if_splits)
  moreover have "\<forall>x \<in> set (stored d). \<exists>e. oentry x = Some e \<and> ((dentries d)(k := None)) (okey x) = Some e"
    using stored_entry [OF inv] new by auto
  ultimately show ?thesis
    using inv unfolding dinv_def drop_key_sel by (auto simp: drop_key_def)
qed

lemma drop_key_loginv:
  assumes "loginv c t log" and "\<And>x. x \<in> set (stored c) \<Longrightarrow> okey x \<noteq> k"
  shows "loginv (drop_key c k) t log"
  using assms drop_key_dinv [OF log_dinv [OF assms(1)] assms(2)] unfolding loginv_def drop_key_sel
  by blast

lemma failed_thrinv:
  assumes thr: "thrinv c thr" and inv: "dinv c" and i: "thr i = Holding k e"
  shows "thrinv (close_entry (drop_key c k) e) (thr(i := Idle))"
proof -
  let ?c = "close_entry (drop_key c k) e"
  have k: "dentries c k = Some e" and e: "e < length (dheap c)"
    using holding_entry [OF thr i] entry_bound [OF inv] by blast+
  have dn: "edone (dheap ?c ! e') \<longleftrightarrow> edone (dheap c ! e') \<or> e' = e" for e'
    using e by (auto simp: nth_list_update)
  have hold: "(thr(i := Idle)) j = Holding k1 e1 \<longleftrightarrow> thr j = Holding k1 e1 \<and> j \<noteq> i" for j k1 e1
    by auto
  have mine: "k1 = k" if "thr j = Holding k1 e" for j k1
    using entry_inj [OF inv k] holding_entry [OF thr that] by blast
  show ?thesis
    unfolding thrinv_def hold dn
  proof (intro conjI allI impI ballI)
    fix x assume "x \<in> set (stored ?c)"
    then show "edone (dheap c ! the (oentry x)) \<or> the (oentry x) = e"
      using stored_done [OF thr] by simp
  next
    fix j k1 e1 assume h: "thr j = Holding k1 e1 \<and> j \<noteq> i"
    then have "k1 \<noteq> k" using holding_unique [OF thr i] by blast
    then show "dentries ?c k1 = Some e1" using h holding_entry [OF thr, of j k1 e1] by simp
    show "\<not> (edone (dheap c ! e1) \<or> e1 = e)"
      using h holding_open [OF thr] holding_unique [OF thr i] mine by blast
  next
    fix j j' k1 e1 e2 assume "thr j = Holding k1 e1 \<and> j \<noteq> i" "thr j' = Holding k1 e2 \<and> j' \<noteq> i"
    then show "j = j'" using holding_unique [OF thr] by blast
  next
    fix k1 e1 assume k1: "dentries ?c k1 = Some e1"
    then have "dentries c k1 = Some e1" "k1 \<noteq> k" by (auto split: if_splits)
    then show "(\<exists>x \<in> set (stored ?c). okey x = k1 \<and> oentry x = Some e1) \<or> (\<exists>j. thr j = Holding k1 e1 \<and> j \<noteq> i)"
      using entry_origin [OF thr, of k1 e1] i by auto
  next
    fix j k1 e1 assume "(thr(i := Idle)) j = Waiting k1 e1"
    then have w: "thr j = Waiting k1 e1" by (auto split: if_splits)
    show "e1 < length (dheap ?c)" using waiting_entry [OF thr w] by simp
    show "(edone (dheap c ! e1) \<or> e1 = e) \<or> (\<exists>j. thr j = Holding k1 e1 \<and> j \<noteq> i)"
      using waiting_holder [OF thr w] i by auto
  qed
qed

section \<open>The invariant of the system\<close>

definition sinv :: "dsys \<Rightarrow> bool" where
  "sinv s \<longleftrightarrow> loginv (scache s) (sclock s) (slog s) \<and>
     length (stored (scache s)) \<le> nat (dmax (scache s)) \<and>
     thrinv (scache s) (sthreads s) \<and>
     (\<forall>i k a. sthreads s i = Duplicated k a \<longrightarrow> (\<exists>l \<in> set (slog s). lkey l = k \<and> lack l = a))"

lemma sinvD:
  assumes "sinv s"
  shows sinv_log: "loginv (scache s) (sclock s) (slog s)"
    and sinv_bound: "length (stored (scache s)) \<le> nat (dmax (scache s))"
    and sinv_thr: "thrinv (scache s) (sthreads s)"
    and sinv_dup: "sthreads s i = Duplicated k a \<Longrightarrow> \<exists>l \<in> set (slog s). lkey l = k \<and> lack l = a"
    and sinv_dinv: "dinv (scache s)"
  using assms unfolding sinv_def loginv_def by blast+

lemma init_sinv: "0 \<le> mx \<Longrightarrow> sinv (dsys_init w mx t)"
  by (simp add: sinv_def dsys_init_def newDeliveryDedupe_def loginv_def thrinv_def dinv_def stored_def
      forgotten_def)

text \<open>The result of \<open>claim_begin\<close>, with what it does to the cache.\<close>

lemma claim_begin_cases:
  assumes inv: "dinv c" and b: "claim_begin t c k = Some (st, c')"
  obtains (fresh) c1 where "dq.dropped (length (takeWhile (expired t c) (stored c))) c c1"
      and "dentries c1 k = None" and "st = Holding k (length (dheap c1))" and "c' = fresh_entry c1 k"
  | (dup) e where "dq.dropped (length (takeWhile (expired t c) (stored c))) c c'"
      and "dentries c' k = Some e" and "st = Waiting k e"
proof -
  obtain c1 where c1: "dq.dropped (length (takeWhile (expired t c) (stored c))) c c1"
    and bd: "begin_delivery t c k =
      (case dentries c1 k of
         Some e \<Rightarrow> Some ((e, False), c1)
       | None \<Rightarrow> Some ((length (dheap c), True),
           c1\<lparr>dheap := dheap c @ [\<lparr>edone = False, eack = [], eexpires = 0\<rparr>],
              dentries := (dentries c1)(k \<mapsto> length (dheap c))\<rparr>))"
    by (rule begin_delivery_cases [OF inv])
  show ?thesis
  proof (cases "dentries c1 k")
    case None
    then show ?thesis
      using b bd dropped_keeps(1) [OF c1]
      by (intro fresh [OF c1]) (auto simp: claim_begin_def fresh_entry_def)
  next
    case (Some e)
    then have "st = Waiting k e" "c' = c1" using b bd by (auto simp: claim_begin_def)
    then show ?thesis using dup [of e] c1 Some by simp
  qed
qed

lemma dup_keep:
  assumes "sinv s" and "\<And>k a. st \<noteq> Duplicated k a" and "set (slog s) \<subseteq> L"
    and "((sthreads s)(i := st)) j = Duplicated k a"
  shows "\<exists>l \<in> L. lkey l = k \<and> lack l = a"
  using sinv_dup [OF assms(1), of j k a] assms(2-) by (auto split: if_splits)

lemma begin_sinv:
  assumes inv: "sinv s" and i: "sthreads s i = Trying k"
    and b: "claim_begin (sclock s) (scache s) k = Some (st, c)"
  shows "sinv (s\<lparr>scache := c, sthreads := (sthreads s)(i := st)\<rparr>)"
proof -
  note d = sinv_dinv [OF inv] and l = sinv_log [OF inv] and t = sinv_thr [OF inv]
  from d b show ?thesis
  proof (cases rule: claim_begin_cases)
    case (fresh c1)
    note keep = dropped_keeps [OF fresh(1)]
    have "loginv c (sclock s) (slog s)"
      using fresh_loginv [OF expire_loginv [OF l fresh(1)] fresh(2)] fresh(4) by simp
    moreover have "thrinv c ((sthreads s)(i := st))"
      using fresh_thrinv [OF dropped_thrinv [OF t d fresh(1)] keep(4) fresh(2) i] fresh(3,4) by simp
    moreover have "length (stored c) \<le> nat (dmax c)"
      using sinv_bound [OF inv] fresh(4) keep by simp
    ultimately show ?thesis
      using dup_keep [OF inv _ order.refl, of st i] fresh(3) by (auto simp: sinv_def)
  next
    case (dup e)
    note keep = dropped_keeps [OF dup(1)]
    have "thrinv c ((sthreads s)(i := st))"
      using dropped_thrinv [OF t d dup(1)] keep(4) by (rule thrinv_quiet) (use i dup in auto)
    moreover have "length (stored c) \<le> nat (dmax c)"
      using sinv_bound [OF inv] keep by simp
    ultimately show ?thesis
      using expire_loginv [OF l dup(1)] dup_keep [OF inv _ order.refl, of st i] dup(3)
      by (auto simp: sinv_def)
  qed
qed

lemma finish_stored_sinv:
  assumes inv: "sinv s" and i: "sthreads s i = Holding k e"
    and f: "finish (sclock s) (scache s) k e True a = Some c"
  shows "sinv (s\<lparr>scache := c, sthreads := (sthreads s)(i := Idle),
    slog := slog s @ [\<lparr>lkey = k, lentry = e, ltime = sclock s, lack = a\<rparr>]\<rparr>)"
proof -
  note d = sinv_dinv [OF inv] and l = sinv_log [OF inv] and t = sinv_thr [OF inv]
  note k = holding_entry [OF t i] and op = holding_open [OF t i] and new = held_not_stored [OF t d i]
  let ?d = "scache s" and ?log = "slog s @ [\<lparr>lkey = k, lentry = e, ltime = sclock s, lack = a\<rparr>]"
  let ?r = "record_entry (sclock s) ?d k e a" and ?n = "Suc (length (stored ?d)) - nat (dmax ?d)"
  obtain d2 where d2: "dq.dropped ?n ?r d2" and c: "c = close_entry d2 e"
    by (rule finish_stored_cases [OF d log_max [OF l] k op new, where now = "sclock s" and a = a])
      (use f in auto)
  have rl: "loginv ?r (sclock s) ?log" by (rule record_loginv [OF l k new])
  note keep = dropped_keeps [OF d2]
  have "loginv d2 (sclock s) ?log"
  proof (rule dropped_loginv [OF rl d2])
    show n: "?n \<le> length (stored ?r)" by (simp add: record_sel d)
    have fg: "forgotten ?r ?log = forgotten ?d (slog s)"
      by (simp add: forgotten_def record_sel d)
    fix j assume "forgotten ?r ?log \<le> j" "j < forgotten ?r ?log + ?n"
    then have "j + nat (dmax ?d) < length ?log"
      using sinv_bound [OF inv] log_length [OF l] unfolding fg by (auto simp: forgotten_def)
    then show "ltime (?log ! j) + dwindow ?r \<le> sclock s \<or> j + nat (dmax ?r) < length ?log"
      by (simp add: record_sel)
  qed
  then have "loginv c (sclock s) ?log" unfolding c by (rule close_loginv)
  moreover have "thrinv c ((sthreads s)(i := Idle))"
    unfolding c
    using finish_thrinv [OF t d i] close_dinv [OF record_dinv [OF d k new]] close_dropped [OF d2]
    by (rule dropped_thrinv)
  moreover have "length (stored c) \<le> nat (dmax c)"
    unfolding c using keep by (simp add: record_sel d)
  moreover have "\<exists>l \<in> set ?log. lkey l = k' \<and> lack l = a'"
    if "((sthreads s)(i := Idle)) j = Duplicated k' a'" for j k' a'
    using inv _ _ that by (rule dup_keep) auto
  ultimately show ?thesis by (simp add: sinv_def)
qed

lemma finish_failed_sinv:
  assumes inv: "sinv s" and i: "sthreads s i = Holding k e"
    and f: "finish (sclock s) (scache s) k e False a = Some c"
  shows "sinv (s\<lparr>scache := c, sthreads := (sthreads s)(i := Idle)\<rparr>)"
proof -
  note d = sinv_dinv [OF inv] and l = sinv_log [OF inv] and t = sinv_thr [OF inv]
  note k = holding_entry [OF t i] and op = holding_open [OF t i] and new = held_not_stored [OF t d i]
  have c: "c = close_entry (drop_key (scache s) k) e"
    using f unfolding finish_failed_cases [OF k op] by (simp add: drop_key_def)
  have "loginv c (sclock s) (slog s)"
    unfolding c by (rule close_loginv [OF drop_key_loginv [OF l new]])
  moreover have "thrinv c ((sthreads s)(i := Idle))"
    unfolding c by (rule failed_thrinv [OF t d i])
  moreover have "length (stored c) \<le> nat (dmax c)" unfolding c using sinv_bound [OF inv] by simp
  moreover have "\<exists>l \<in> set (slog s). lkey l = k' \<and> lack l = a'"
    if "((sthreads s)(i := Idle)) j = Duplicated k' a'" for j k' a'
    using inv _ order.refl that by (rule dup_keep) auto
  ultimately show ?thesis by (simp add: sinv_def)
qed

lemma recheck_sinv:
  assumes inv: "sinv s" and i: "sthreads s i = Waiting k e" and dn: "edone (dheap (scache s) ! e)"
  shows "sinv (s\<lparr>sthreads := (sthreads s)(i := claim_recheck (scache s) k e)\<rparr>)"
proof -
  note d = sinv_dinv [OF inv] and l = sinv_log [OF inv] and t = sinv_thr [OF inv]
  let ?st = "claim_recheck (scache s) k e"
  have "thrinv (scache s) ((sthreads s)(i := ?st))"
    using t d by (rule thrinv_quiet) (use i in \<open>auto simp: claim_recheck_def split: if_splits\<close>)
  moreover have "\<exists>l \<in> set (slog s). lkey l = k' \<and> lack l = a'"
    if "((sthreads s)(i := ?st)) j = Duplicated k' a'" for j k' a'
  proof (cases "j = i")
    case False
    then show ?thesis using that sinv_dup [OF inv] by simp
  next
    case True
    then have c: "dentries (scache s) k = Some e" "k' = k" "a' = eack (dheap (scache s) ! e)"
      using that by (auto simp: claim_recheck_def split: if_splits)
    then obtain x where x: "x \<in> set (stored (scache s))" "okey x = k" "oentry x = Some e"
      using entry_origin [OF t c(1)] holding_open [OF t] dn by blast
    then obtain m where m: "m < length (stored (scache s))" "x = stored (scache s) ! m"
      by (auto simp: in_set_conv_nth)
    note sl = stored_log [OF l m(1)]
    have "slog s ! (forgotten (scache s) (slog s) + m) \<in> set (slog s)"
      using sl(3) by (rule in_set_dropD)
    then show ?thesis
      using sl log_entry [OF l sl(3)] x m(2) c by (metis option.inject)
  qed
  ultimately show ?thesis using l sinv_bound [OF inv] by (simp add: sinv_def)
qed

lemma quiet_sinv:
  assumes inv: "sinv s" and old: "\<And>k e. sthreads s i \<noteq> Holding k e"
    and st: "st = Trying k \<or> st = Cancelled"
  shows "sinv (s\<lparr>sthreads := (sthreads s)(i := st)\<rparr>)"
proof -
  have "thrinv (scache s) ((sthreads s)(i := st))"
    using sinv_thr [OF inv] sinv_dinv [OF inv] by (rule thrinv_quiet) (use old st in auto)
  moreover have "\<exists>l \<in> set (slog s). lkey l = k' \<and> lack l = a'"
    if "((sthreads s)(i := st)) j = Duplicated k' a'" for j k' a'
    using inv _ order.refl that by (rule dup_keep) (use st in auto)
  ultimately show ?thesis
    using sinv_log [OF inv] sinv_bound [OF inv] by (simp add: sinv_def)
qed

lemma dstep_sinv: "dstep s s' \<Longrightarrow> sinv s \<Longrightarrow> sinv s'"
proof (induction rule: dstep.induct)
  case (tick s t)
  then show ?case using loginv_later by (auto simp: sinv_def)
next
  case (request s i k)
  then show ?case by (intro quiet_sinv [where k = k]) auto
next
  case (cancel s i k e)
  then show ?case by (intro quiet_sinv) auto
qed (auto intro: begin_sinv recheck_sinv finish_stored_sinv finish_failed_sinv simp: claim_finish_def)

lemma reach_sinv:
  assumes "dreach w mx s" and "0 \<le> mx"
  shows "sinv s"
proof -
  obtain t where "dstep\<^sup>*\<^sup>* (dsys_init w mx t) s" using assms(1) by (auto simp: dreach_def)
  then show ?thesis
    by (induction rule: rtranclp_induct) (simp_all add: init_sinv assms(2) dstep_sinv)
qed

lemma dstep_config:
  "dstep s s' \<Longrightarrow> sinv s \<Longrightarrow> dwindow (scache s') = dwindow (scache s) \<and> dmax (scache s') = dmax (scache s)"
proof (induction rule: dstep.induct)
  case (begin_claim s i k st c)
  then show ?case
    by (cases rule: claim_begin_cases [OF sinv_dinv [OF begin_claim.prems]])
      (auto dest: dropped_keeps(2,3))
next
  case (finish_stored s i k e a c)
  note t = sinv_thr [OF finish_stored.prems] and d = sinv_dinv [OF finish_stored.prems]
  note h = finish_stored.hyps(1)
  obtain d2 where "dq.dropped (Suc (length (stored (scache s))) - nat (dmax (scache s)))
      (record_entry (sclock s) (scache s) k e a) d2" "c = close_entry d2 e"
    by (rule finish_stored_cases [OF d log_max [OF sinv_log [OF finish_stored.prems]]
          holding_entry [OF t h] holding_open [OF t h] held_not_stored [OF t d h],
          where now = "sclock s" and a = a])
      (use finish_stored.hyps(2) in \<open>auto simp: claim_finish_def\<close>)
  then show ?case using dropped_keeps(2,3) by (simp add: record_sel)
next
  case (finish_failed s i k e a c)
  note t = sinv_thr [OF finish_failed.prems] and h = finish_failed.hyps(1)
  show ?case
    using finish_failed.hyps(2) finish_failed_cases [OF holding_entry [OF t h] holding_open [OF t h]]
    by (auto simp: claim_finish_def)
qed simp_all

lemma reach_config:
  assumes r: "dreach w mx s" and mx: "0 \<le> mx"
  shows "dwindow (scache s) = w \<and> dmax (scache s) = mx"
proof -
  obtain t where "dstep\<^sup>*\<^sup>* (dsys_init w mx t) s" using r by (auto simp: dreach_def)
  then have "sinv s \<and> dwindow (scache s) = w \<and> dmax (scache s) = mx"
  proof (induction rule: rtranclp_induct)
    case base
    then show ?case using init_sinv [OF mx] by (simp add: dsys_init_def newDeliveryDedupe_def)
  next
    case (step y z)
    then show ?case using dstep_sinv dstep_config by metis
  qed
  then show ?thesis by blast
qed

section \<open>Runs\<close>

text \<open>An executable form of the steps, and the run of a list of actions.\<close>

datatype daction =
    Tick int
  | Request nat dedupeKey
  | Begin nat
  | Recheck nat
  | Cancel nat
  | Finish nat bool string

fun dexec :: "daction \<Rightarrow> dsys \<Rightarrow> dsys option" where
  "dexec (Tick t) s = (if sclock s \<le> t then Some (s\<lparr>sclock := t\<rparr>) else None)"
| "dexec (Request i k) s =
     (case sthreads s i of
        Idle \<Rightarrow> Some (s\<lparr>sthreads := (sthreads s)(i := Trying k)\<rparr>)
      | Cancelled \<Rightarrow> Some (s\<lparr>sthreads := (sthreads s)(i := Trying k)\<rparr>)
      | Duplicated _ _ \<Rightarrow> Some (s\<lparr>sthreads := (sthreads s)(i := Trying k)\<rparr>)
      | _ \<Rightarrow> None)"
| "dexec (Begin i) s =
     (case sthreads s i of
        Trying k \<Rightarrow>
          map_option (\<lambda>(st, c). s\<lparr>scache := c, sthreads := (sthreads s)(i := st)\<rparr>)
            (claim_begin (sclock s) (scache s) k)
      | _ \<Rightarrow> None)"
| "dexec (Recheck i) s =
     (case sthreads s i of
        Waiting k e \<Rightarrow>
          if edone (dheap (scache s) ! e)
          then Some (s\<lparr>sthreads := (sthreads s)(i := claim_recheck (scache s) k e)\<rparr>) else None
      | _ \<Rightarrow> None)"
| "dexec (Cancel i) s =
     (case sthreads s i of
        Waiting k e \<Rightarrow> Some (s\<lparr>sthreads := (sthreads s)(i := Cancelled)\<rparr>) | _ \<Rightarrow> None)"
| "dexec (Finish i st a) s =
     (case sthreads s i of
        Holding k e \<Rightarrow>
          map_option (\<lambda>(_, c). s\<lparr>scache := c, sthreads := (sthreads s)(i := Idle),
              slog := slog s @ (if st then [\<lparr>lkey = k, lentry = e, ltime = sclock s, lack = a\<rparr>] else [])\<rparr>)
            (claim_finish (sclock s) (scache s) (Some (k, e)) st a)
      | _ \<Rightarrow> None)"

fun drun :: "daction list \<Rightarrow> dsys \<Rightarrow> dsys option" where
  "drun [] s = Some s"
| "drun (a # as) s = Option.bind (dexec a s) (drun as)"

lemma dexec_dstep: "dexec a s = Some s' \<Longrightarrow> dstep s s'"
proof (induction a s rule: dexec.induct)
  case (6 i st a s)
  then obtain k e c where h: "sthreads s i = Holding k e"
    and f: "claim_finish (sclock s) (scache s) (Some (k, e)) st a = Some (None, c)"
    and s': "s' = s\<lparr>scache := c, sthreads := (sthreads s)(i := Idle),
      slog := slog s @ (if st then [\<lparr>lkey = k, lentry = e, ltime = sclock s, lack = a\<rparr>] else [])\<rparr>"
    by (auto simp: claim_finish_def split: claim_state.splits)
  then show ?case
    using dstep.finish_stored [OF h, of a c] dstep.finish_failed [OF h, of a c] by (cases st) simp_all
qed (auto split: if_splits claim_state.splits intro: dstep.intros)

lemma drun_reach:
  assumes "drun as (dsys_init w mx t) = Some s"
  shows "dreach w mx s"
proof -
  have "drun as s0 = Some s \<Longrightarrow> dstep\<^sup>*\<^sup>* s0 s" for s0
    by (induction as arbitrary: s0)
      (auto simp: bind_eq_Some_conv intro: converse_rtranclp_into_rtranclp dexec_dstep)
  then show ?thesis using assms by (auto simp: dreach_def)
qed

lemmas dexec_simps = claim_begin_def begin_delivery_def expireLocked.simps popLocked_def
  claim_finish_def finish_def popOverflow.simps claim_recheck_def dsys_init_def newDeliveryDedupe_def
  zeroOrder_def Let_def

text \<open>Two connections deliver the same message, the second while the first is in flight.\<close>

definition demo_race :: "daction list" where
  "demo_race = [Request 0 [1], Request 1 [1], Begin 0, Begin 1, Finish 0 True ''ACK TEXT 1 bytes'', Recheck 1]"

definition demo_cache :: deliveryDedupe where
  "demo_cache = \<lparr>dwindow = 10, dmax = 4,
     dheap = [\<lparr>edone = True, eack = ''ACK TEXT 1 bytes'', eexpires = 10\<rparr>],
     dentries = [[1] \<mapsto> 0], dorder = [\<lparr>okey = [1], oentry = Some 0\<rparr>], dhead = 0\<rparr>"

lemma demo_race_run:
  "drun demo_race (dsys_init 10 4 0) =
     Some \<lparr>scache = demo_cache, sclock = 0,
       sthreads = ((\<lambda>_. Idle)(0 := Idle, 1 := Duplicated [1] ''ACK TEXT 1 bytes'')),
       slog = [\<lparr>lkey = [1], lentry = 0, ltime = 0, lack = ''ACK TEXT 1 bytes''\<rparr>]\<rparr>"
  by (simp add: demo_race_def demo_cache_def dexec_simps fun_upd_twist)

text \<open>The same message again after the window, and while the first one is remembered.\<close>

definition demo_again :: "daction list" where
  "demo_again = demo_race @ [Tick 10, Request 0 [1], Begin 0]"

lemma demo_again_run:
  "\<exists>s. drun demo_again (dsys_init 10 4 0) = Some s \<and> sthreads s 0 = Holding [1] 1 \<and>
     sclock s = 10 \<and> length (slog s) = 1"
  by (simp add: demo_again_def demo_race_def dexec_simps)

definition demo_twice :: "daction list" where
  "demo_twice = demo_again @ [Finish 0 True ''ACK TEXT 1 bytes'']"

lemma demo_twice_run:
  "\<exists>s. drun demo_twice (dsys_init 10 4 0) = Some s \<and>
     slog s = [\<lparr>lkey = [1], lentry = 0, ltime = 0, lack = ''ACK TEXT 1 bytes''\<rparr>,
               \<lparr>lkey = [1], lentry = 1, ltime = 10, lack = ''ACK TEXT 1 bytes''\<rparr>]"
  by (simp add: demo_twice_def demo_again_def demo_race_def dexec_simps)

section \<open>Remembered deliveries\<close>

lemma begin_total: "dinv d \<Longrightarrow> \<exists>st d'. claim_begin t d k = Some (st, d')"
  by (rule begin_delivery_cases [of d t k]) (auto simp: claim_begin_def split: option.splits)

lemma finish_total:
  assumes inv: "sinv s" and h: "sthreads s i = Holding k e"
  shows "\<exists>c. claim_finish (sclock s) (scache s) (Some (k, e)) st a = Some (None, c)"
proof (cases st)
  case False
  note t = sinv_thr [OF inv]
  show ?thesis
    using finish_failed_cases [OF holding_entry [OF t h] holding_open [OF t h]] False
    by (simp add: claim_finish_def)
next
  case True
  note d = sinv_dinv [OF inv] and l = sinv_log [OF inv] and t = sinv_thr [OF inv]
  show ?thesis
    by (rule_tac finish_stored_cases [OF d log_max [OF l] holding_entry [OF t h] holding_open [OF t h]
          held_not_stored [OF t d h], where now = "sclock s" and a = a])
      (auto simp: claim_finish_def True)
qed

lemma live_index:
  assumes inv: "loginv c t log" and i: "i < length log"
    and now: "t < ltime (log ! i) + dwindow c" and cap: "length log \<le> i + nat (dmax c)"
  obtains x where "x \<in> set (stored c)" and "okey x = lkey (log ! i)" and "\<not> expired t c x"
    and "eack (dheap c ! the (oentry x)) = lack (log ! i)"
proof -
  have "\<not> i < forgotten c log" using log_forgotten [OF inv, of i] now cap by auto
  then have l: "log ! i \<in> set (drop (forgotten c log) log)"
    using i by (auto simp: in_set_conv_nth intro!: exI [of _ "i - forgotten c log"])
  obtain x where x: "x \<in> set (stored c)" "okey x = lkey (log ! i)" "oentry x = Some (lentry (log ! i))"
    using log_live [OF inv l] by blast
  have "\<not> expired t c x" "eack (dheap c ! the (oentry x)) = lack (log ! i)"
    using log_entry [OF inv l] now by (simp_all add: expired_def x(3))
  with x(1,2) show ?thesis by (rule that)
qed

lemma kept_entry:
  assumes inv: "dinv c" and dr: "dq.dropped (length (takeWhile (expired t c) (stored c))) c c1"
    and x: "x \<in> set (stored c)" "\<not> expired t c x"
  shows "x \<in> set (stored c1) \<and> dentries c1 (okey x) = oentry x"
proof -
  let ?n = "length (takeWhile (expired t c) (stored c))"
  have tk: "take ?n (stored c) = takeWhile (expired t c) (stored c)" by (rule takeWhile_eq_take [symmetric])
  have "x \<notin> set (take ?n (stored c))" using x(2) unfolding tk by (auto dest: set_takeWhileD)
  then have "x \<in> set (drop ?n (stored c))"
    using x(1) by (metis Un_iff append_take_drop_id set_append)
  then have "x \<in> set (stored c1)" using dropped_keeps(5) [OF dr] by simp
  then show ?thesis using stored_entry [OF dropped_keeps(4) [OF dr]] by force
qed

lemma remembered_claim:
  assumes inv: "loginv c t log" and thr: "thrinv c thr" and i: "i < length log"
    and now: "t < ltime (log ! i) + dwindow c" and cap: "length log \<le> i + nat (dmax c)"
  shows "\<exists>e c1. claim_begin t c (lkey (log ! i)) = Some (Waiting (lkey (log ! i)) e, c1) \<and>
    edone (dheap c1 ! e) \<and> claim_recheck c1 (lkey (log ! i)) e = Duplicated (lkey (log ! i)) (lack (log ! i))"
proof -
  note d = log_dinv [OF inv]
  obtain x where x: "x \<in> set (stored c)" "okey x = lkey (log ! i)" "\<not> expired t c x"
    "eack (dheap c ! the (oentry x)) = lack (log ! i)"
    by (rule live_index [OF inv i now cap])
  obtain e where e: "oentry x = Some e" using stored_entry [OF d x(1)] by blast
  obtain c1 where c1: "dq.dropped (length (takeWhile (expired t c) (stored c))) c c1"
    and b: "begin_delivery t c (lkey (log ! i)) = (case dentries c1 (lkey (log ! i)) of
        Some e \<Rightarrow> Some ((e, False), c1)
      | None \<Rightarrow> Some ((length (dheap c), True),
          c1\<lparr>dheap := dheap c @ [\<lparr>edone = False, eack = [], eexpires = 0\<rparr>],
             dentries := (dentries c1)(lkey (log ! i) \<mapsto> length (dheap c))\<rparr>))"
    by (rule begin_delivery_cases [OF d])
  have "dentries c1 (lkey (log ! i)) = Some e"
    using kept_entry [OF d c1 x(1,3)] x(2) e by simp
  moreover have "edone (dheap c1 ! e)" "eack (dheap c1 ! e) = lack (log ! i)"
    using stored_done [OF thr x(1)] x(4) e dropped_keeps(1) [OF c1] by simp_all
  ultimately show ?thesis using b by (simp add: claim_begin_def claim_recheck_def)
qed

section \<open>Properties\<close>

text \<open>
  C4. A delivery is stored at most once per window, whatever the interleaving of the
  connections: two stores of the same key are a full window apart, or the cache was full and
  at least as many stores as it can hold happened in between.
\<close>

theorem stored_once:
  assumes "dreach w mx s" and "0 \<le> mx" and "i < j" and "j < length (slog s)"
    and "lkey (slog s ! i) = lkey (slog s ! j)"
  shows "ltime (slog s ! i) + w \<le> ltime (slog s ! j) \<or> i + nat mx < j"
  using log_apart [OF sinv_log [OF reach_sinv [OF assms(1,2)]] assms(3-5)] reach_config [OF assms(1,2)]
  by simp

theorem stored_once_witness:
  "\<exists>s. dreach 10 4 s \<and> lkey (slog s ! 0) = lkey (slog s ! 1) \<and>
     (ltime (slog s ! 0) + 10 \<le> ltime (slog s ! 1) \<or> 0 + nat 4 < (1 :: nat))"
proof -
  obtain s where s: "drun demo_twice (dsys_init 10 4 0) = Some s"
    "slog s = [\<lparr>lkey = [1], lentry = 0, ltime = 0, lack = ''ACK TEXT 1 bytes''\<rparr>,
               \<lparr>lkey = [1], lentry = 1, ltime = 10, lack = ''ACK TEXT 1 bytes''\<rparr>]"
    using demo_twice_run by blast
  show ?thesis
    using stored_once [OF drun_reach [OF s(1)], of 0 1] drun_reach [OF s(1)] s(2) by (intro exI [of _ s]) simp
qed

text \<open>
  C23. At any moment at most one connection processes a given delivery.
\<close>

theorem single_holder:
  assumes "dreach w mx s" and "0 \<le> mx"
    and "sthreads s i = Holding k e" and "sthreads s j = Holding k e'"
  shows "i = j \<and> e = e'"
  using holding_unique [OF sinv_thr [OF reach_sinv [OF assms(1,2)]] assms(3,4)] assms(3,4) by auto

theorem single_holder_witness:
  "\<exists>s e. dreach 10 4 s \<and> sthreads s 0 = Holding [1] e \<and> (\<forall>j. sthreads s j = Holding [1] e \<longrightarrow> 0 = j)"
proof -
  obtain s where s: "drun demo_again (dsys_init 10 4 0) = Some s" "sthreads s 0 = Holding [1] 1"
    using demo_again_run by blast
  have "0 = j" if "sthreads s j = Holding [1] 1" for j
    using single_holder [OF drun_reach [OF s(1)] _ s(2) that] by simp
  then show ?thesis using drun_reach [OF s(1)] s(2) by blast
qed

text \<open>
  C24. Nothing goes wrong inside the cache and nobody waits in vain: \<open>begin\<close> and both outcomes
  of \<open>finish\<close> never panic, and a connection that waits can go on at once or waits for a
  connection that holds the claim it waits for.
\<close>

theorem never_stuck:
  assumes "dreach w mx s" and "0 \<le> mx"
  shows "(\<forall>k. claim_begin (sclock s) (scache s) k \<noteq> None) \<and>
    (\<forall>i k e st a. sthreads s i = Holding k e \<longrightarrow>
       claim_finish (sclock s) (scache s) (Some (k, e)) st a \<noteq> None) \<and>
    (\<forall>i k e. sthreads s i = Waiting k e \<longrightarrow>
       edone (dheap (scache s) ! e) \<or> (\<exists>j. sthreads s j = Holding k e))"
proof (intro conjI allI impI)
  note inv = reach_sinv [OF assms]
  note d = sinv_dinv [OF inv] and t = sinv_thr [OF inv]
  show "claim_begin (sclock s) (scache s) k \<noteq> None" for k
    using begin_total [OF d] by blast
  show "claim_finish (sclock s) (scache s) (Some (k, e)) st a \<noteq> None"
    if h: "sthreads s i = Holding k e" for i k e st a
    using finish_total [OF inv h] by blast
  show "edone (dheap (scache s) ! e) \<or> (\<exists>j. sthreads s j = Holding k e)"
    if "sthreads s i = Waiting k e" for i k e
    by (rule waiting_holder [OF t that])
qed

theorem never_stuck_witness:
  "\<exists>s. dreach 10 4 s \<and> sthreads s 0 = Holding [1] 1 \<and>
     claim_finish (sclock s) (scache s) (Some ([1], 1)) True ''ACK'' \<noteq> None"
proof -
  obtain s where s: "drun demo_again (dsys_init 10 4 0) = Some s" "sthreads s 0 = Holding [1] 1"
    using demo_again_run by blast
  show ?thesis
    using never_stuck [OF drun_reach [OF s(1)]] drun_reach [OF s(1)] s(2) by auto
qed

text \<open>
  C25. A delivery that was stored is recognised while it is remembered: inside the window, and
  while fewer stores than the cache can hold came after it, a further claim of the same key
  finds the entry, does not have to wait, and returns the first delivery's acknowledgement.
\<close>

theorem remembered:
  assumes "dreach w mx s" and "0 \<le> mx" and "i < length (slog s)"
    and "sclock s < ltime (slog s ! i) + w" and "length (slog s) \<le> i + nat mx"
  shows "\<exists>e c. claim_begin (sclock s) (scache s) (lkey (slog s ! i)) = Some (Waiting (lkey (slog s ! i)) e, c) \<and>
    edone (dheap c ! e) \<and>
    claim_recheck c (lkey (slog s ! i)) e = Duplicated (lkey (slog s ! i)) (lack (slog s ! i))"
  using remembered_claim [OF sinv_log [OF reach_sinv [OF assms(1,2)]] sinv_thr [OF reach_sinv [OF assms(1,2)]]
      assms(3)] assms(4,5) reach_config [OF assms(1,2)]
  by simp

theorem remembered_witness:
  "\<exists>e c. claim_begin 0 demo_cache [1] = Some (Waiting [1] e, c) \<and>
     claim_recheck c [1] e = Duplicated [1] ''ACK TEXT 1 bytes''"
  using remembered [OF drun_reach [OF demo_race_run], of 0] by simp blast

text \<open>
  C26. A delivery is answered as a duplicate only when one with the same key was stored, and
  with the text that delivery was acknowledged with.
\<close>

theorem duplicate_was_stored:
  assumes "dreach w mx s" and "0 \<le> mx" and "sthreads s i = Duplicated k a"
  shows "\<exists>l \<in> set (slog s). lkey l = k \<and> lack l = a"
  by (rule sinv_dup [OF reach_sinv [OF assms(1,2)] assms(3)])

theorem duplicate_was_stored_witness:
  "\<exists>s. dreach 10 4 s \<and> sthreads s 1 = Duplicated [1] ''ACK TEXT 1 bytes'' \<and>
     (\<exists>l \<in> set (slog s). lkey l = [1] \<and> lack l = ''ACK TEXT 1 bytes'')"
proof -
  let ?s = "\<lparr>scache = demo_cache, sclock = 0,
       sthreads = ((\<lambda>_. Idle)(0 := Idle, 1 := Duplicated [1] ''ACK TEXT 1 bytes'')),
       slog = [\<lparr>lkey = [1], lentry = 0, ltime = 0, lack = ''ACK TEXT 1 bytes''\<rparr>]\<rparr>"
  have r: "dreach 10 4 ?s" by (rule drun_reach [OF demo_race_run])
  have t: "sthreads ?s 1 = Duplicated [1] ''ACK TEXT 1 bytes''" by simp
  show ?thesis using duplicate_was_stored [OF r _ t] r t by (intro exI [of _ ?s]) simp
qed

text \<open>
  A delivery whose first attempt failed is forgotten: the next claim of the same key, at
  any later time, gets the right to process it.
\<close>

lemma failed_retry:
  assumes "dreach w mx s" and "0 \<le> mx" and "sthreads s i = Holding k e"
    and "claim_finish (sclock s) (scache s) (Some (k, e)) False a = Some (cl, c)"
  shows "\<exists>e' c'. claim_begin t c k = Some (Holding k e', c')"
proof -
  note inv = reach_sinv [OF assms(1,2)]
  note d = sinv_dinv [OF inv] and th = sinv_thr [OF inv] and h = assms(3)
  note new = held_not_stored [OF th d h]
  have c: "c = close_entry (drop_key (scache s) k) e"
    using assms(4) finish_failed_cases [OF holding_entry [OF th h] holding_open [OF th h]]
    by (simp add: claim_finish_def drop_key_def)
  then have dc: "dinv c" and k: "dentries c k = None"
    using close_dinv [OF drop_key_dinv [OF d new]] by simp_all
  obtain c1 where c1: "dq.dropped (length (takeWhile (expired t c) (stored c))) c c1"
    and b: "begin_delivery t c k = (case dentries c1 k of
        Some e \<Rightarrow> Some ((e, False), c1)
      | None \<Rightarrow> Some ((length (dheap c), True),
          c1\<lparr>dheap := dheap c @ [\<lparr>edone = False, eack = [], eexpires = 0\<rparr>],
             dentries := (dentries c1)(k \<mapsto> length (dheap c))\<rparr>))"
    by (rule begin_delivery_cases [OF dc])
  have "dentries c1 k = None" using c1 k by (simp add: dropped_simps restrict_map_def)
  then show ?thesis using b by (simp add: claim_begin_def)
qed

lemma failed_retry_witness:
  "\<exists>s c e' c'. dreach 10 4 s \<and> sthreads s 0 = Holding [1] 1 \<and>
     claim_finish (sclock s) (scache s) (Some ([1], 1)) False [] = Some (None, c) \<and>
     claim_begin 11 c [1] = Some (Holding [1] e', c')"
proof -
  obtain s where s: "drun demo_again (dsys_init 10 4 0) = Some s" "sthreads s 0 = Holding [1] 1"
    using demo_again_run by blast
  note r = drun_reach [OF s(1)]
  have th: "thrinv (scache s) (sthreads s)" by (rule sinv_thr [OF reach_sinv [OF r]]) simp
  obtain c where c: "claim_finish (sclock s) (scache s) (Some ([1], 1)) False [] = Some (None, c)"
    using finish_failed_cases [OF holding_entry [OF th s(2)] holding_open [OF th s(2)]]
    by (simp add: claim_finish_def)
  show ?thesis using failed_retry [OF r _ s(2) c, of 11] r s(2) c by auto
qed

text \<open>
  C27. The ring does not grow: its slice, consumed slots included, never has more than twice
  the configured number of entries (or 64 more than it, for small caches), and every
  remembered key is that of a stored delivery or of one in flight.
\<close>

theorem ring_bounded:
  assumes "dreach w mx s" and "0 \<le> mx"
  shows "length (dorder (scache s)) \<le> nat mx + max 64 (nat mx) \<and>
    (\<forall>k e. dentries (scache s) k = Some e \<longrightarrow>
      (\<exists>l \<in> set (slog s). lkey l = k) \<or> (\<exists>i. sthreads s i = Holding k e))"
proof (intro conjI allI impI)
  note inv = reach_sinv [OF assms]
  note d = sinv_dinv [OF inv] and l = sinv_log [OF inv]
  have b: "length (stored (scache s)) \<le> nat mx"
    using sinv_bound [OF inv] reach_config [OF assms] by simp
  then show "length (dorder (scache s)) \<le> nat mx + max 64 (nat mx)"
    using d by (auto simp: stored_def dinv_def)
  fix k e assume "dentries (scache s) k = Some e"
  from entry_origin [OF sinv_thr [OF inv] this]
  show "(\<exists>l \<in> set (slog s). lkey l = k) \<or> (\<exists>i. sthreads s i = Holding k e)"
  proof
    assume "\<exists>x \<in> set (stored (scache s)). okey x = k \<and> oentry x = Some e"
    then obtain m where m: "m < length (stored (scache s))" "okey (stored (scache s) ! m) = k"
      by (auto simp: in_set_conv_nth)
    then show ?thesis using stored_log [OF l m(1)] by (auto dest: in_set_dropD)
  qed blast
qed

theorem ring_bounded_witness:
  "length (dorder demo_cache) \<le> 4 + 64"
  using ring_bounded [OF drun_reach [OF demo_race_run]] by simp

end
