(* ===== verification/ServiceProps.thy ===== *)
theory ServiceProps
  imports Service StreamDelivery InboxRuns Dedupe_Protocol Json_Roundtrip
begin

text \<open>
  What the service guarantees: names stay inside their directory, stored messages give back
  exactly what was sent, files are stored whole and under the quota, and how the service, its
  cache and a client work together.
\<close>

section \<open>Names\<close>

lemma ext_scan_set: "set (ext_scan acc cs) \<subseteq> set acc \<union> set cs"
proof (induction acc cs rule: ext_scan.induct)
  case (2 acc c cs)
  then show ?case by auto
qed simp

lemma Ext_set: "set (filepath_Ext p) \<subseteq> set p"
  using ext_scan_set [of "[]" "rev p"] by (simp add: filepath_Ext_def)

lemma suffix_plain:
  assumes "CHR ''/'' \<notin> set b"
  shows "plain_name (streamNameSuffix z t q b)"
proof (rule plain_long)
  let ?stem = "take (length b - length (filepath_Ext b)) b"
  have "set ?stem \<subseteq> set b" by (rule set_take_subset)
  moreover have "CHR ''/'' \<notin> set (file_stamp z t)" "CHR ''/'' \<notin> set (pad 6 (unat q))"
    by (rule stampish_chars, simp)+
  ultimately show "CHR ''/'' \<notin> set (streamNameSuffix z t q b)"
    using assms Ext_set [of b] by (auto simp: streamNameSuffix_def Let_def)
  have "pad 6 (unat q) \<noteq> []" by (cases "dec (unat q)") (simp_all add: pad_def)
  then show "2 < length (streamNameSuffix z t q b)" by (simp add: streamNameSuffix_def Let_def)
qed

lemma streamEnv_friendly: "friendly (streamEnv env)"
  using suffix_plain by (auto simp: friendly_def accepts_def streamEnv_def)

section \<open>Records\<close>

lemma dec_ascii: "c \<in> set (dec n) \<Longrightarrow> (of_char c :: nat) < 128"
  by (drule dec_digits) (simp add: is_digit_def)

lemma TypeName_ascii: "\<forall>c \<in> set (TypeName t). (of_char c :: nat) < 128"
  by (auto simp: TypeName_def dest: dec_ascii)

lemma ValidMessageID_ascii: "ValidMessageID m \<Longrightarrow> \<forall>c \<in> set m. (of_char c :: nat) < 128"
  by (force simp: ValidMessageID_def id_char_def list_all_iff code_def)

text \<open>How a reader gets the payload back from the members of a record.\<close>

definition record_payload :: "(string \<times> jval) list \<Rightarrow> bytes option" where
  "record_payload m =
     (case map_of m ''data_encoding'' of
        Some (JStr e) \<Rightarrow>
          if e = ''base64'' then (case map_of m ''data_b64'' of Some (JStr d) \<Rightarrow> unbase64 d | _ \<Rightarrow> None)
          else if e = ''utf8'' then (case map_of m ''data'' of Some (JStr d) \<Rightarrow> Some (bytes_of d) | _ \<Rightarrow> None)
          else None
      | _ \<Rightarrow> None)"

definition tags_ok :: "Frame \<Rightarrow> bool" where
  "tags_ok f \<longleftrightarrow> (MessageID f = [] \<or> ValidMessageID (MessageID f)) \<and> (ReplyTo f = [] \<or> ValidMessageID (ReplyTo f))"

lemma flat_simps:
  "flat_members []" "flat_members ((k, v) # m) \<longleftrightarrow> utf8_valid (bytes_of k) \<and> flat_value v \<and> flat_members m"
  "flat_members (a @ b) \<longleftrightarrow> flat_members a \<and> flat_members b"
  by (auto simp: flat_members_def)

lemma key_utf8:
  "utf8_valid (bytes_of ''bytes'')" "utf8_valid (bytes_of ''data'')" "utf8_valid (bytes_of ''data_b64'')"
  "utf8_valid (bytes_of ''data_encoding'')" "utf8_valid (bytes_of ''from'')" "utf8_valid (bytes_of ''message_id'')"
  "utf8_valid (bytes_of ''received_at'')" "utf8_valid (bytes_of ''reply_to'')" "utf8_valid (bytes_of ''type'')"
  "utf8_valid (bytes_of ''utf8'')" "utf8_valid (bytes_of ''base64'')"
  by (rule utf8_ascii, simp)+

lemma record_flat:
  assumes "utf8_valid (bytes_of from)" and "tags_ok f" and "stampish ts"
  shows "flat_members (inboxRecord cfg from ts f)"
proof -
  have "utf8_valid (bytes_of (base64 (Payload f)))" using base64_ascii by (intro utf8_ascii) blast
  moreover have "utf8_valid (bytes_of (TypeName (Type f)))" by (rule utf8_ascii [OF TypeName_ascii])
  moreover have "utf8_valid (bytes_of ts)" by (rule utf8_ascii [OF stampish_chars(2) [OF assms(3)]])
  moreover have "MessageID f \<noteq> [] \<Longrightarrow> utf8_valid (bytes_of (MessageID f))" "ReplyTo f \<noteq> [] \<Longrightarrow> utf8_valid (bytes_of (ReplyTo f))"
    using assms(2) by (auto simp: tags_ok_def intro!: utf8_ascii dest: ValidMessageID_ascii)
  ultimately show ?thesis
    using assms(1) by (simp add: flat_simps inboxRecord_def flat_value_def asBase64_def key_utf8 [simplified])
qed

lemma record_fields:
  "record_payload (inboxRecord cfg from ts f) = Some (Payload f)"
  "map_of (inboxRecord cfg from ts f) ''type'' = Some (JStr (TypeName (Type f)))"
  "map_of (inboxRecord cfg from ts f) ''from'' = Some (JStr from)"
  "map_of (inboxRecord cfg from ts f) ''message_id'' = (if MessageID f = [] then None else Some (JStr (MessageID f)))"
  "map_of (inboxRecord cfg from ts f) ''reply_to'' = (if ReplyTo f = [] then None else Some (JStr (ReplyTo f)))"
  by (simp_all add: record_payload_def inboxRecord_def unbase64_base64)

section \<open>Writing a file\<close>

lemma MkdirAll_same: "os_MkdirAll d fs = (r, fs') \<Longrightarrow> names fs' = names fs \<and> store fs' = store fs \<and> fclock fs' = fclock fs"
  by (auto simp: os_MkdirAll_def sys_def split: prod.splits option.splits)

lemma WriteFile_ok:
  assumes wf: "wf_fs fs" and r: "os_WriteFile p bs fs = (None, fs')"
  shows "wf_fs fs' \<and> (\<exists>ino. lookup fs' p = Some ino \<and> fdata (store fs' ! ino) = bs) \<and>
    (\<forall>q. q \<noteq> p \<longrightarrow> lookup fs' q = lookup fs q)"
proof -
  obtain ino fs1 where o: "os_OpenCreate p fs = (Inr ino, fs1)"
    using r by (auto simp: os_WriteFile_def split: prod.splits sum.splits)
  have 1: "wf_fs fs1 \<and> lookup fs1 p = Some ino \<and> ino < length (store fs1) \<and> (\<forall>q. q \<noteq> p \<longrightarrow> lookup fs1 q = lookup fs q)"
  proof (cases "lookup fs p")
    case None
    then have "p \<notin> fst ` set (names fs)" by (simp add: lookup_def map_of_eq_None_iff)
    then show ?thesis
      using o wf None by (auto simp: os_OpenCreate_def sys_def lookup_def wf_fs_def less_Suc_eq split: option.splits)
  next
    case (Some j)
    then have "(p, j) \<in> set (names fs)" by (simp add: lookup_def map_of_SomeD)
    then have "j < length (store fs)" using wf by (auto simp: wf_fs_def)
    then show ?thesis
      using o wf Some by (auto simp: os_OpenCreate_def sys_def lookup_def wf_fs_def split: option.splits)
  qed
  have "fs' = set_data ino bs ((set_data ino [] fs1)\<lparr>ops := Suc (ops fs1)\<rparr>)"
    using r 1 o by (auto simp: os_WriteFile_def file_WriteAt_def file_Truncate0_def sys_def set_data_def overwrite_def
        split: option.splits)
  then show ?thesis using 1 by (auto simp: set_data_def wf_fs_def lookup_def)
qed

lemma set_fs_sel [simp]:
  "sfs (set_fs fs s) = fs" "scfg (set_fs fs s) = scfg s" "sinbox (set_fs fs s) = sinbox s"
  "sevents (set_fs fs s) = sevents s" "wseq (sworld (set_fs fs s)) = wseq (sworld s)"
  "sbyID (set_fs fs s) = sbyID s" "sbyContent (set_fs fs s) = sbyContent s"
  "active (sworld (set_fs fs s)) = active (sworld s)" "claims (sworld (set_fs fs s)) = claims (sworld s)"
  by (simp_all add: set_fs_def)

lemma next_seq_sel [simp]:
  "sfs (snd (next_seq s)) = sfs s" "scfg (snd (next_seq s)) = scfg s" "sinbox (snd (next_seq s)) = sinbox s"
  "fst (next_seq s) = wseq (sworld s) + 1" "sbyID (snd (next_seq s)) = sbyID s"
  "sbyContent (snd (next_seq s)) = sbyContent s" "wseq (sworld (snd (next_seq s))) = wseq (sworld s) + 1"
  by (simp_all add: next_seq_def)

lemma publish_sel [simp]:
  "sworld (publish env e s) = sworld s" "scfg (publish env e s) = scfg s" "sinbox (publish env e s) = sinbox s"
  "sbyID (publish env e s) = sbyID s" "sbyContent (publish env e s) = sbyContent s"
  by (simp_all add: publish_def)

lemma settle_sel [simp]:
  "sworld (settleMessage p n b s) = sworld s" "scfg (settleMessage p n b s) = scfg s"
  "sbyID (settleMessage p n b s) = sbyID s" "sbyContent (settleMessage p n b s) = sbyContent s"
  by (simp_all add: settleMessage_def)

lemma reserveMessage_keeps:
  assumes "slice_sort (sortFiles env)" and "wf_fs (sfs s)"
    and "reserveMessage env from dir dest f sz s = (r, s')"
  shows "wf_fs (sfs s') \<and> scfg s' = scfg s \<and> sbyID s' = sbyID s \<and> sbyContent s' = sbyContent s \<and> now (sworld s') = now (sworld s)"
proof (cases "effectiveInboxMaxBytes (scfg s) > 0")
  case True
  let ?mx = "effectiveInboxMaxBytes (scfg s)"
  obtain q b fs1 where q: "reserveInbox (sortFiles env) dir dest sz ?mx (sinbox s) (sfs s) = (q, b, fs1)"
    by (metis surj_pair)
  have "evicts dir (sinbox s) (sfs s) fs1" using reserve_evicts [OF assms(1) q] by simp
  then obtain R n where "fs1 = without R (sfs s) n" by (auto simp: evicts_def)
  then have "wf_fs fs1" "fclock fs1 = fclock (sfs s)" using assms(2) by (simp, simp add: without_def)
  then show ?thesis
    using assms(3) True q by (auto simp: reserveMessage_def Let_def split: option.splits)
qed (use assms in \<open>auto simp: reserveMessage_def Let_def\<close>)

lemma inbox_written:
  assumes srt: "slice_sort (sortFiles env)" and wf: "wf_fs (sfs s)"
    and r: "prepareInboxMessage env from f s = (Inr (dir, dest, sz, seq), s')"
  shows "wf_fs (sfs s') \<and> seq = wseq (sworld s) + 1 \<and> svc_inboxDir env (scfg s) = Inr dir \<and>
    dest = filepath_Join [dir, inboxName (zone env) (now (sworld s)) seq (Type f)] \<and>
    (\<exists>ino. lookup (sfs s') dest = Some ino \<and> sz = int (length (fdata (store (sfs s') ! ino))) \<and>
      fdata (store (sfs s') ! ino) =
        bytes_of (json_object (inboxRecord (scfg s) from (rfc3339nano (zone env) (now (sworld s))) f)))"
proof -
  obtain fs1 where dir: "svc_inboxDir env (scfg s) = Inr dir" and mk: "os_MkdirAll dir (sfs s) = (None, fs1)"
    using r by (auto simp: prepareInboxMessage_def Let_def split: sum.splits prod.splits option.splits)
  let ?b = "bytes_of (json_object (inboxRecord (scfg s) from (rfc3339nano (zone env) (now (sworld s))) f))"
  let ?q = "wseq (sworld s) + 1"
  let ?d = "filepath_Join [dir, inboxName (zone env) (now (sworld s)) ?q (Type f)]"
  obtain s2 where nx: "next_seq (set_fs fs1 s) = (?q, s2)" and s2: "sfs s2 = fs1" by (simp add: next_seq_def)
  have clk: "fclock fs1 = now (sworld s)" using MkdirAll_same [OF mk] by simp
  obtain r3 s3 where rs: "reserveMessage env from dir ?d f (int (length ?b)) s2 = (r3, s3)" by (metis surj_pair)
  obtain r4 fs4 where wr: "os_WriteFile ?d ?b (sfs s3) = (r4, fs4)" by (metis surj_pair)
  have eq: "r3 = None" "r4 = None" "dest = ?d" "sz = int (length ?b)" "seq = ?q"
    "s' = settleMessage ?d (int (length ?b)) True (set_fs fs4 s3)"
    using r dir mk nx rs wr by (auto simp: prepareInboxMessage_def Let_def clk split: option.splits)
  have "wf_fs (sfs s2)" using wf MkdirAll_same [OF mk] by (simp add: wf_fs_def s2)
  then have "wf_fs (sfs s3)" using reserveMessage_keeps [OF srt _ rs] by blast
  then show ?thesis using WriteFile_ok [of "sfs s3" ?d ?b fs4] wr eq dir by auto
qed

section \<open>Received files\<close>

lemma received_written:
  assumes wf: "wf_fs (sfs s)" and r: "prepareReceivedFile env f s = (Inr dest, s')"
  shows "\<exists>dir. svc_receivedDir env (scfg s) = Inr dir \<and>
    dest = filepath_Join [dir, streamNameSuffix (zone env) (now (sworld s)) (wseq (sworld s) + 1) (filepath_Base (Filename f))] \<and>
    wf_fs (sfs s') \<and>
    (\<exists>ino. lookup (sfs s') dest = Some ino \<and> fdata (store (sfs s') ! ino) = Payload f) \<and>
    (\<forall>q. q \<noteq> dest \<longrightarrow> lookup (sfs s') q = lookup (sfs s) q)"
proof -
  obtain dir fs1 where dir: "svc_receivedDir env (scfg s) = Inr dir" and mk: "os_MkdirAll dir (sfs s) = (None, fs1)"
    using r by (auto simp: prepareReceivedFile_def Let_def split: sum.splits prod.splits option.splits)
  obtain s1 where ck: "checkReceivedQuota env dir f (set_fs fs1 s) = (None, s1)"
    using r dir mk by (auto simp: prepareReceivedFile_def Let_def split: sum.splits prod.splits option.splits)
  have s1: "same_files fs1 (sfs s1)" "wseq (sworld s1) = wseq (sworld s)"
    using ck WalkDir_same [of fs1 dir]
    by (auto simp: checkReceivedQuota_def dirTotalBytes_def Let_def split: if_splits prod.splits)
  let ?q = "wseq (sworld s) + 1"
  let ?d = "filepath_Join [dir, streamNameSuffix (zone env) (now (sworld s)) ?q (filepath_Base (Filename f))]"
  obtain s2 where nx: "next_seq s1 = (?q, s2)" and s2: "sfs s2 = sfs s1" using s1 by (simp add: next_seq_def)
  have clk: "now (sworld s2) = now (sworld s)" using s1 s2 MkdirAll_same [OF mk] by (simp add: same_files_def)
  obtain r4 fs4 where wr: "os_WriteFile ?d (Payload f) (sfs s2) = (r4, fs4)" by (metis surj_pair)
  have eq: "r4 = None" "dest = ?d" "s' = set_fs fs4 s2"
    using r dir mk ck nx wr clk by (auto simp: prepareReceivedFile_def Let_def split: option.splits)
  have ns: "names (sfs s2) = names (sfs s)" "store (sfs s2) = store (sfs s)"
    using s1 s2 MkdirAll_same [OF mk] by (simp_all add: same_files_def)
  then have "wf_fs (sfs s2)" "lookup (sfs s2) = lookup (sfs s)" using wf by (simp_all add: wf_fs_def lookup_def fun_eq_iff)
  then show ?thesis using WriteFile_ok [of "sfs s2" ?d "Payload f" fs4] wr eq dir by auto
qed

text \<open>The bytes stored below a directory.\<close>

definition tree_bytes :: "string \<Rightarrow> fsys \<Rightarrow> int" where
  "tree_bytes dir fs = sum_list (map (psize fs) (filter (below dir) (map fst (names fs))))"

lemma psize_ops [simp]: "psize (fs\<lparr>ops := n\<rparr>) = psize fs"
  by (auto simp: psize_def fsize_def fun_eq_iff split: option.split)

lemma walk_no_faults:
  "no_faults fs \<Longrightarrow> (\<forall>p \<in> set ps. lookup fs p \<noteq> None) \<Longrightarrow>
   sum_list (map snd (fst (walk_sizes ps fs))) =
     sum_list (map (psize fs) ps)"
proof (induction ps arbitrary: fs)
  case (Cons p ps)
  then obtain i where i: "lookup fs p = Some i" by auto
  let ?fs = "fs\<lparr>ops := Suc (ops fs)\<rparr>"
  have st: "os_Stat p fs = (Inr (fmod (store fs ! i), fsize fs i), ?fs)" by (rule Stat_no_faults [OF Cons.prems(1) i])
  have "no_faults ?fs" using Cons.prems(1) by simp
  then show ?case using Cons.IH [of ?fs] Cons.prems(2) st i by (auto simp: psize_def split: prod.splits)
qed simp

lemma dirTotalBytes_exact:
  assumes "no_faults fs" shows "fst (dirTotalBytes dir fs) = tree_bytes dir fs"
proof -
  let ?fs = "fs\<lparr>ops := Suc (ops fs)\<rparr>"
  have "\<forall>p \<in> set (filter (below dir) (map fst (names fs))). lookup ?fs p \<noteq> None"
    by (auto simp: lookup_def map_of_eq_None_iff rev_image_eqI)
  then show ?thesis
    using walk_no_faults [of ?fs "filter (below dir) (map fst (names fs))"] assms
    by (auto simp: dirTotalBytes_def WalkDir_def sys_ok tree_bytes_def split: prod.split)
qed

lemma quota_checked:
  assumes "no_faults (sfs s)" and "checkReceivedQuota env dir f s = (r, s')"
  shows "names (sfs s') = names (sfs s) \<and> store (sfs s') = store (sfs s) \<and> no_faults (sfs s') \<and>
    (r = None \<longleftrightarrow> (effectiveReceivedMaxBytes (scfg s) > 0 \<longrightarrow>
       i64 (tree_bytes dir (sfs s) + int (length (Payload f))) \<le> effectiveReceivedMaxBytes (scfg s)))"
proof -
  obtain cur fs1 where t: "dirTotalBytes dir (sfs s) = (cur, fs1)" by (metis surj_pair)
  then have "cur = tree_bytes dir (sfs s)" using dirTotalBytes_exact [OF assms(1), of dir] by simp
  moreover have "same_files (sfs s) fs1"
    using t WalkDir_same [of "sfs s" dir] by (auto simp: dirTotalBytes_def split: prod.splits)
  ultimately show ?thesis
    using assms t by (auto simp: checkReceivedQuota_def Let_def same_files_def no_faults_def split: if_splits)
qed

lemma WriteFile_calm: "no_faults fs \<Longrightarrow> \<exists>fs'. os_WriteFile p bs fs = (None, fs')"
  by (simp add: os_WriteFile_def os_OpenCreate_def sys_ok file_Truncate0_def set_data_def file_WriteAt_def no_faults_def
      sys_def split: option.split)

section \<open>Properties\<close>

text \<open>A service on an empty disk, and two frames for it.\<close>

definition demo_cfg :: ServiceConfig where
  "demo_cfg = \<lparr>cReceivedDir = ''/r'', cInboxDir = ''/in'', cIncludeBase64 = False, cInboxMaxFiles = 0, cInboxMaxBytes = -1,
     cDedupeWindow = 0, cDedupeContentWindow = 0, cReceivedMaxBytes = 100, cIdleTimeout = 0\<rparr>"

definition demo_svcEnv :: svcEnv where
  "demo_svcEnv = \<lparr>zone = 0, userHome = Inr ''/h'', hasEvents = True, sortFiles = sort_key imod,
     diskFree = (\<lambda>_ _. None), randBytes = (\<lambda>_. Inr [0, 0, 0, 0]), frameCap = 65536\<rparr>"

definition demo_msg :: Frame where
  "demo_msg = \<lparr>Type = TypeBinary, Payload = [0xff, 0x00], Filename = [], MessageID = ''m-1'', ReplyTo = []\<rparr>"

definition demo_file :: Frame where
  "demo_file = \<lparr>Type = TypeFile, Payload = [1, 2, 3], Filename = ''a.txt'', MessageID = [], ReplyTo = []\<rparr>"

lemma demo_prepared:
  "\<exists>dest sz s'. prepareInboxMessage demo_svcEnv ''0:1'' demo_msg (NewService demo_cfg demo_world) =
     (Inr (''/in'', dest, sz, 1), s')"
  by (simp add: prepareInboxMessage_def svc_inboxDir_def defaultDir_def demo_cfg_def demo_svcEnv_def NewService_def
      os_MkdirAll_def sys_def demo_world_def Let_def next_seq_def reserveMessage_def effectiveInboxMaxBytes_def
      os_WriteFile_def os_OpenCreate_def lookup_def file_WriteAt_def file_Truncate0_def set_data_def set_fs_def)

text \<open>
  C34. A stored message gives back exactly what was sent.  Whatever file operations failed before,
  once a message counts as stored, the file under its path holds a JSON object that parses to a
  record whose payload (plain or base64, as the record says) is the payload of the frame byte for
  byte, with the type, the sender and the correlation tags of the frame, and the size that the
  inbox budget was charged for.
\<close>

theorem inbox_lossless:
  assumes "slice_sort (sortFiles env)" and "wf_fs (sfs s)" and "utf8_valid (bytes_of from)" and "tags_ok f"
    and "prepareInboxMessage env from f s = (Inr (dir, dest, sz, seq), s')"
  shows "\<exists>ino m. lookup (sfs s') dest = Some ino \<and> sz = int (length (fdata (store (sfs s') ! ino))) \<and>
    json_parse (string_of (fdata (store (sfs s') ! ino))) = Some (JObj m) \<and>
    record_payload m = Some (Payload f) \<and>
    map_of m ''type'' = Some (JStr (TypeName (Type f))) \<and> map_of m ''from'' = Some (JStr from) \<and>
    map_of m ''message_id'' = (if MessageID f = [] then None else Some (JStr (MessageID f))) \<and>
    map_of m ''reply_to'' = (if ReplyTo f = [] then None else Some (JStr (ReplyTo f)))"
proof -
  let ?ts = "rfc3339nano (zone env) (now (sworld s))"
  let ?m = "inboxRecord (scfg s) from ?ts f"
  obtain ino where "lookup (sfs s') dest = Some ino" "sz = int (length (fdata (store (sfs s') ! ino)))"
    "fdata (store (sfs s') ! ino) = bytes_of (json_object ?m)"
    using inbox_written [OF assms(1,2,5)] by blast
  moreover have "json_parse (json_object ?m) = Some (JObj ?m)"
    by (rule json_parse_object [OF record_flat [OF assms(3,4) stampish_stamps(2)]])
  ultimately show ?thesis
    using record_fields [of "scfg s" "from" ?ts f] by (intro exI [of _ ino] exI [of _ ?m]) simp
qed

theorem inbox_lossless_witness:
  "\<exists>dest sz s' ino m. prepareInboxMessage demo_svcEnv ''0:1'' demo_msg (NewService demo_cfg demo_world) =
       (Inr (''/in'', dest, sz, 1), s') \<and> lookup (sfs s') dest = Some ino \<and>
     json_parse (string_of (fdata (store (sfs s') ! ino))) = Some (JObj m) \<and> record_payload m = Some (Payload demo_msg)"
proof -
  obtain dest sz s' where p: "prepareInboxMessage demo_svcEnv ''0:1'' demo_msg (NewService demo_cfg demo_world) =
     (Inr (''/in'', dest, sz, 1), s')" using demo_prepared by blast
  have u: "utf8_valid (bytes_of ''0:1'')" by (rule utf8_ascii) simp
  have "slice_sort (sortFiles demo_svcEnv)" using ks.slice_sort_axioms by (simp add: demo_svcEnv_def)
  moreover have "wf_fs (sfs (NewService demo_cfg demo_world))" by (simp add: NewService_def demo_world_def wf_fs_def)
  moreover have "tags_ok demo_msg" by (simp add: tags_ok_def demo_msg_def ValidMessageID_def id_char_def code_def)
  ultimately show ?thesis using inbox_lossless [OF _ _ u _ p] p by blast
qed

text \<open>
  C35. A received file is stored whole, inside its directory and within the quota.  When a file
  frame as \<^verbatim>\<open>ReadFrame\<close> accepts it is saved, a new file directly inside the received directory
  holds exactly its payload and no other path changes; if no file operation fails it is saved
  exactly when the bytes already stored below the directory plus its own are within the quota, and
  a refused file changes no file at all.
\<close>

theorem received_stored:
  assumes wf: "wf_fs (sfs s)" and name: "Filename f \<noteq> []" "valid_filename (Filename f)"
    and dir: "svc_receivedDir env (scfg s) = Inr dir"
    and r: "saveReceivedFile env f s = (e, s')"
  shows "(e = None \<longrightarrow> (\<exists>n ino. plain_name n \<and> lookup (sfs s') (filepath_Join [dir, n]) = Some ino \<and>
       fdata (store (sfs s') ! ino) = Payload f \<and>
       (\<forall>q. q \<noteq> filepath_Join [dir, n] \<longrightarrow> lookup (sfs s') q = lookup (sfs s) q))) \<and>
    (no_faults (sfs s) \<longrightarrow>
       (e = None \<longleftrightarrow> (effectiveReceivedMaxBytes (scfg s) > 0 \<longrightarrow>
          i64 (tree_bytes dir (sfs s) + int (length (Payload f))) \<le> effectiveReceivedMaxBytes (scfg s))) \<and>
       (e \<noteq> None \<longrightarrow> names (sfs s') = names (sfs s) \<and> store (sfs s') = store (sfs s)))"
proof -
  obtain p s1 where p: "prepareReceivedFile env f s = (p, s1)" by (metis surj_pair)
  have e: "e = None \<longleftrightarrow> (\<exists>d. p = Inr d)" and s': "sfs s' = sfs s1"
    using r p by (auto simp: saveReceivedFile_def commitReceived_def split: sum.splits)
  have base: "filepath_Base (Filename f) = Filename f" "CHR ''/'' \<notin> set (Filename f)"
    using Base_no_slash [of "Filename f"] name by (auto simp: valid_filename_def ContainsSlash_def)
  have ok: "\<exists>n ino. plain_name n \<and> lookup (sfs s') (filepath_Join [dir, n]) = Some ino \<and>
       fdata (store (sfs s') ! ino) = Payload f \<and>
       (\<forall>q. q \<noteq> filepath_Join [dir, n] \<longrightarrow> lookup (sfs s') q = lookup (sfs s) q)" if d: "p = Inr d" for d
    using received_written [OF wf p [unfolded d]] dir suffix_plain [OF base(2)] by (auto simp: s' base)
  show ?thesis
  proof (cases "no_faults (sfs s)")
    case True
    obtain fs1 where mk: "os_MkdirAll dir (sfs s) = (None, fs1)" "no_faults fs1" "names fs1 = names (sfs s)" "store fs1 = store (sfs s)"
      using True by (simp add: os_MkdirAll_def sys_ok no_faults_def)
    obtain r2 s2 where ck: "checkReceivedQuota env dir f (set_fs fs1 s) = (r2, s2)" by (metis surj_pair)
    have tb: "tree_bytes dir fs1 = tree_bytes dir (sfs s)"
      using mk by (auto simp: tree_bytes_def psize_def lookup_def fsize_def intro!: arg_cong [of _ _ sum_list] split: option.split)
    have q: "names (sfs s2) = names (sfs s)" "store (sfs s2) = store (sfs s)" "no_faults (sfs s2)"
      "r2 = None \<longleftrightarrow> (effectiveReceivedMaxBytes (scfg s) > 0 \<longrightarrow>
         i64 (tree_bytes dir (sfs s) + int (length (Payload f))) \<le> effectiveReceivedMaxBytes (scfg s))"
      using quota_checked [OF _ ck] mk tb by simp_all
    have "r2 \<noteq> None \<Longrightarrow> (\<forall>d. p \<noteq> Inr d) \<and> s1 = s2"
      using p dir mk ck by (auto simp: prepareReceivedFile_def)
    moreover have "r2 = None \<Longrightarrow> \<exists>d. p = Inr d"
    proof -
      assume "r2 = None"
      moreover obtain s3 where s3: "next_seq s2 = (wseq (sworld s2) + 1, s3)" "sfs s3 = sfs s2" by (simp add: next_seq_def)
      let ?d = "filepath_Join [dir, streamNameSuffix (zone env) (now (sworld s3)) (wseq (sworld s2) + 1)
          (filepath_Base (Filename f))]"
      obtain fs4 where "os_WriteFile ?d (Payload f) (sfs s3) = (None, fs4)" using WriteFile_calm [OF q(3)] s3(2) by metis
      ultimately show ?thesis using p dir mk(1) ck s3(1) by (auto simp: prepareReceivedFile_def Let_def)
    qed
    ultimately show ?thesis using True ok e q s' by auto
  qed (use ok e in auto)
qed

theorem received_stored_witness:
  "\<exists>s' n. saveReceivedFile demo_svcEnv demo_file (NewService demo_cfg demo_world) = (None, s') \<and> plain_name n \<and>
     map_option (\<lambda>ino. fdata (store (sfs s') ! ino)) (lookup (sfs s') (filepath_Join [''/r'', n])) = Some [1, 2, 3]"
proof -
  let ?s = "NewService demo_cfg demo_world"
  obtain e s' where r: "saveReceivedFile demo_svcEnv demo_file ?s = (e, s')" by (metis surj_pair)
  have u: "utf8_valid (bytes_of ''a.txt'')" by (rule utf8_ascii) simp
  have 1: "wf_fs (sfs ?s)" "Filename demo_file \<noteq> []" "valid_filename (Filename demo_file)"
    "svc_receivedDir demo_svcEnv (scfg ?s) = Inr ''/r''" "no_faults (sfs ?s)"
    using u by (simp_all add: NewService_def demo_world_def wf_fs_def demo_file_def valid_filename_def ContainsSlash_def
        svc_receivedDir_def defaultDir_def demo_cfg_def no_faults_def)
  have "i64 (tree_bytes ''/r'' (sfs ?s) + int (length (Payload demo_file))) = 3"
    by (simp add: tree_bytes_def NewService_def demo_world_def demo_file_def i64_def)
  then show ?thesis
    using received_stored [OF 1(1-4) r] 1(5) r
    by (auto simp: NewService_def demo_cfg_def effectiveReceivedMaxBytes_def demo_file_def)
qed

end
