(* ===== verification/Clocks.thy ===== *)
theory Clocks
  imports ServiceProps
begin

text \<open>
  No operation of the package moves the clock: time passes between frames only.  The operations
  are those of the file system, the inbox budget, the stream receiver and the service, in this
  order.
\<close>

section \<open>File system and inbox\<close>

named_theorems clock_dests

lemma sys_clock [clock_dests]: "sys p fs = (r, fs') \<Longrightarrow> fclock fs' = fclock fs"
  by (auto simp: sys_def)

lemma set_data_clock [simp]: "fclock (set_data i bs fs) = fclock fs"
  by (simp add: set_data_def)

lemma ReadDir_clock [clock_dests]: "os_ReadDir p fs = (r, fs') \<Longrightarrow> fclock fs' = fclock fs"
  using ReadDir_same [of fs p] by (simp add: same_files_def)

lemma Stat_clock [clock_dests]: "os_Stat p fs = (r, fs') \<Longrightarrow> fclock fs' = fclock fs"
  using Stat_same [of fs p] by (simp add: same_files_def)

lemma WalkDir_clock [clock_dests]: "WalkDir d fs = (r, fs') \<Longrightarrow> fclock fs' = fclock fs"
  using WalkDir_same [of fs d] by (simp add: same_files_def)

lemma MkdirAll_clock [clock_dests]: "os_MkdirAll p fs = (r, fs') \<Longrightarrow> fclock fs' = fclock fs"
  by (simp add: MkdirAll_same)

lemma Remove_clock [clock_dests]: "os_Remove p fs = (r, fs') \<Longrightarrow> fclock fs' = fclock fs"
  by (auto simp: os_Remove_def split: prod.splits option.splits dest!: clock_dests)

lemma Remove_clock_snd [simp]: "fclock (snd (os_Remove p fs)) = fclock fs"
  by (rule Remove_clock) (rule surjective_pairing)

lemma Rename_clock [clock_dests]: "os_Rename p q fs = (r, fs') \<Longrightarrow> fclock fs' = fclock fs"
  by (auto simp: os_Rename_def split: prod.splits option.splits dest!: clock_dests)

lemma OpenCreate_clock [clock_dests]: "os_OpenCreate p fs = (r, fs') \<Longrightarrow> fclock fs' = fclock fs"
  by (auto simp: os_OpenCreate_def split: prod.splits option.splits dest!: clock_dests)

lemma WriteAt_clock [clock_dests]: "file_WriteAt p i bs off fs = (r, fs') \<Longrightarrow> fclock fs' = fclock fs"
  by (auto simp: file_WriteAt_def split: prod.splits option.splits dest!: clock_dests)

lemma WriteFile_clock [clock_dests]: "os_WriteFile p bs fs = (r, fs') \<Longrightarrow> fclock fs' = fclock fs"
  by (auto simp: os_WriteFile_def file_Truncate0_def split: prod.splits sum.splits dest!: clock_dests)

lemma remove_while_clock [clock_dests]:
  "remove_while dir files tot limit n fs = (r, fs') \<Longrightarrow> fclock fs' = fclock fs"
proof (induction files arbitrary: tot n fs)
  case (Cons f files)
  then show ?case
    by (cases "os_Remove (filepath_Join [dir, iname f]) fs")
      (auto split: if_splits option.splits dest!: Remove_clock Cons.IH)
qed simp

lemma removeOldest_clock [clock_dests]:
  "removeOldestInbox srt dir files tot limit fs = (r, fs') \<Longrightarrow> fclock fs' = fclock fs"
  by (auto simp: removeOldestInbox_def split: if_splits dest!: clock_dests)

lemma remove_files_clock [clock_dests]: "remove_files dir files tot fs = (r, fs') \<Longrightarrow> fclock fs' = fclock fs"
proof (induction files arbitrary: tot fs)
  case (Cons f files)
  then show ?case
    by (cases "os_Remove (filepath_Join [dir, iname f]) fs")
      (auto split: option.splits dest!: Remove_clock Cons.IH)
qed simp

lemma rescan_clock [clock_dests]: "rescanLocked dir b fs = (r, b', fs') \<Longrightarrow> fclock fs' = fclock fs"
  using scanInbox_ops [of dir fs]
  by (auto simp: rescanLocked_def Let_def without_def split: prod.splits sum.splits)

lemma makeRoom_clock [clock_dests]:
  "makeRoom srt dir p sz mx b fs = (r, b', fs') \<Longrightarrow> fclock fs' = fclock fs"
  by (auto simp: makeRoom_def Let_def split: prod.splits sum.splits if_splits dest!: clock_dests)

lemma reserve_clock [clock_dests]:
  "reserveInbox srt dir p sz mx b fs = (r, b', fs') \<Longrightarrow> fclock fs' = fclock fs"
  by (auto simp: reserveInbox_def Let_def split: prod.splits sum.splits if_splits dest!: clock_dests)

lemma evict_clock [clock_dests]:
  "evictInboxOverflow srt n mx dir b fs = (b', fs') \<Longrightarrow> fclock fs' = fclock fs"
  by (auto simp: evictInboxOverflow_def Let_def split: prod.splits sum.splits if_splits dest!: clock_dests)

section \<open>Stream receiver\<close>

lemma stillHolds_clock [clock_dests]: "stillHolds p c w = (r, w') \<Longrightarrow> now w' = now w"
  by (auto simp: stillHolds_def split: option.splits if_splits)

lemma openFile_clock [clock_dests]: "openFile w = (h, w') \<Longrightarrow> now w' = now w"
  by (auto simp: openFile_def)

lemma hsys_clock [clock_dests]: "hsys op t w = (r, fs') \<Longrightarrow> fclock fs' = now w"
  by (auto simp: hsys_def split: if_splits dest!: clock_dests)

lemma claimPartial_clock [clock_dests]: "claimPartial p w = (r, w') \<Longrightarrow> now w' = now w"
  by (auto simp: claimPartial_def split: if_splits)

lemma release_clock [simp]:
  "now (try_remove p w) = now w" "now (unclaimPartial p c prev w) = now w" "now (release t w) = now w"
proof -
  show *: "now (try_remove p w) = now w" for p w
    by (simp add: try_remove_def)
  show u: "now (unclaimPartial p c prev w) = now w" for p c prev w by (simp add: unclaimPartial_def)
  show "now (release t w) = now w" by (simp add: release_def releasePartial_def Let_def * u)
qed

lemma ended_clock [clock_dests]:
  "forget i sr w = (sr', w') \<Longrightarrow> now w' = now w" "discard i sr w = (sr', w') \<Longrightarrow> now w' = now w"
  "abandonIfDiskFull i e sr w = (sr', w') \<Longrightarrow> now w' = now w"
  by (auto simp: forget_def discard_def abandonIfDiskFull_def split: option.splits if_splits prod.splits
      dest!: clock_dests)

lemma close_all_clock [simp]: "now (close_all ts w) = now w"
  by (induction ts w rule: close_all.induct) auto

lemma Close_clock [clock_dests]: "Close sr w = (sr', w') \<Longrightarrow> now w' = now w"
  by (auto simp: Close_def)

lemma quotaGate_clock [clock_dests]: "quotaGate sr p sz w = (r, w') \<Longrightarrow> now w' = now w"
  by (auto simp: quotaGate_def dirSizeExcluding_def Let_def split: if_splits prod.splits dest!: clock_dests)

lemma diskGate_clock [clock_dests]: "diskGate env p sz w = (r, w') \<Longrightarrow> now w' = now w"
  by (auto simp: diskGate_def Let_def split: if_splits prod.splits option.splits dest!: clock_dests)

lemma admit_clock [clock_dests]: "admit env sr p sz w = (r, w') \<Longrightarrow> now w' = now w"
  by (auto simp: admit_def split: prod.splits sum.splits option.splits dest!: clock_dests)

lemma initPrior_clock [clock_dests]: "initPrior i sr w = (r, sr', w') \<Longrightarrow> now w' = now w"
  by (auto simp: initPrior_def split: prod.splits bool.splits option.splits dest!: clock_dests)

lemma admitClaim_clock [clock_dests]: "admitClaim env sh sz p priv sr w = (r, w') \<Longrightarrow> now w' = now w"
  by (auto simp: admitClaim_def split: prod.splits sum.splits option.splits dest!: clock_dests)

lemma selectPartial_clock [clock_dests]: "selectPartial env sh sz prior sr w = (r, w') \<Longrightarrow> now w' = now w"
  by (auto simp: selectPartial_def split: prod.splits sum.splits option.splits if_splits dest!: clock_dests)

lemma initFail_clock [clock_dests]: "initFail i m new p priv c prev w = (f, w') \<Longrightarrow> now w' = now w"
  by (auto simp: initFail_def Let_def)

lemma file_Stat_clock [clock_dests]: "file_Stat p i fs = (r, fs') \<Longrightarrow> fclock fs' = fclock fs"
  by (auto simp: file_Stat_def split: prod.splits option.splits dest!: clock_dests)

lemma file_Truncate_clock [simp]: "fclock (file_Truncate p i fs) = fclock fs"
  by (auto simp: file_Truncate_def file_Truncate0_def split: prod.splits option.splits dest!: clock_dests)

lemma initOpen_clock [clock_dests]:
  "initOpen i sz h n new p priv c prev b sr w = (f, sr', w') \<Longrightarrow> now w' = now w"
  by (auto simp: initOpen_def Let_def split: prod.splits sum.splits if_splits dest!: clock_dests)

lemma handleInit_clock [clock_dests]: "handleInit env i body sr w = (f, sr', w') \<Longrightarrow> now w' = now w"
  by (auto simp: handleInit_def split: prod.splits sum.splits option.splits if_splits dest!: clock_dests)

lemma writeAt_clock [clock_dests]: "writeAt t off d w = (r, t', w') \<Longrightarrow> now w' = now w"
  by (auto simp: writeAt_def Let_def split: prod.splits bool.splits option.splits if_splits dest!: clock_dests)

lemma drain_clock [clock_dests]: "drain t w = (r, t', w') \<Longrightarrow> now w' = now w"
proof (induction t w arbitrary: r t' w' rule: drain.induct)
  case (1 t w)
  show ?case
  proof (cases "map_of (tpending t) (tcursor t)")
    case None
    then show ?thesis using 1(2) by (simp add: drain.simps [of t w])
  next
    case (Some d)
    let ?t1 = "t\<lparr>tpending := adel (tcursor t) (tpending t), tpendBytes := tpendBytes t - length d\<rparr>"
    obtain r1 t1 w1 where w1: "writeAt ?t1 (tcursor ?t1) d w = (r1, t1, w1)" by (cases "writeAt ?t1 (tcursor ?t1) d w")
    have "now w' = now w1" if "r1 = None"
      using 1(1) [OF Some refl w1 [symmetric] that refl] 1(2) Some w1 that by (simp add: drain.simps [of t w])
    then show ?thesis using 1(2) Some w1 writeAt_clock [OF w1] by (cases r1) (auto simp: drain.simps [of t w])
  qed
qed

lemma placeChunk_clock [clock_dests]: "placeChunk t off d w = (r, t', w') \<Longrightarrow> now w' = now w"
  by (auto simp: placeChunk_def split: prod.splits option.splits if_splits dest!: clock_dests)

lemma handleChunk_clock [clock_dests]: "handleChunk i body sr w = (f, sr', w') \<Longrightarrow> now w' = now w"
  by (auto simp: handleChunk_def writeFailed_def Let_def split: prod.splits option.splits if_splits dest!: clock_dests)

lemma doneVerify_clock [clock_dests]: "doneVerify t w = (r, w') \<Longrightarrow> now w' = now w"
  by (auto simp: doneVerify_def heldRead_def Let_def split: prod.splits option.splits bool.splits if_splits dest!: clock_dests)

lemma doneCommit_clock [clock_dests]: "doneCommit env i t sr w = (f, sv, sr', w') \<Longrightarrow> now w' = now w"
  by (auto simp: doneCommit_def Let_def split: prod.splits option.splits bool.splits if_splits dest!: clock_dests)

lemma handleDone_clock [clock_dests]: "handleDone env i sr w = (f, sv, sr', w') \<Longrightarrow> now w' = now w"
  by (auto simp: handleDone_def split: prod.splits option.splits bool.splits sum.splits if_splits dest!: clock_dests)

lemma HandleFrame_clock [clock_dests]: "HandleFrame env f sr w = (r, sv, sr', w') \<Longrightarrow> now w' = now w"
  by (auto simp: HandleFrame_def split: prod.splits option.splits if_splits dest!: clock_dests)

section \<open>Service\<close>

text \<open>Configuration, caches and clock: what storing a message or a file leaves as it is.\<close>

definition steady :: "Service \<Rightarrow> Service \<Rightarrow> bool" where
  "steady s s' \<longleftrightarrow> scfg s' = scfg s \<and> sbyID s' = sbyID s \<and> sbyContent s' = sbyContent s \<and>
     now (sworld s') = now (sworld s)"

named_theorems steady_dests

lemma steady_refl [simp]: "steady s s"
  by (simp add: steady_def)

lemma steady_trans [trans]: "steady s s1 \<Longrightarrow> steady s1 s2 \<Longrightarrow> steady s s2"
  by (simp add: steady_def)

lemma set_fs_steady [simp]: "steady s (set_fs fs s1) \<longleftrightarrow> steady s (s1\<lparr>sworld := (sworld s1)\<lparr>wfs := fs\<rparr>\<rparr>)"
  by (simp add: set_fs_def)

lemma publish_steady [simp]: "steady s (publish env e s1) \<longleftrightarrow> steady s s1"
  by (simp add: publish_def steady_def)

lemma settle_steady [simp]: "steady s (settleMessage dest sz b s1) \<longleftrightarrow> steady s s1"
  by (simp add: settleMessage_def steady_def)

lemma next_seq_steady [steady_dests]: "next_seq s = (n, s') \<Longrightarrow> steady s s'"
  by (auto simp: next_seq_def steady_def)

lemma quota_steady [steady_dests]: "checkReceivedQuota env dir f s = (r, s') \<Longrightarrow> steady s s'"
  by (auto simp: checkReceivedQuota_def dirTotalBytes_def Let_def steady_def split: if_splits prod.splits
      dest!: clock_dests)

lemma prepareReceived_steady [steady_dests]: "prepareReceivedFile env f s = (r, s') \<Longrightarrow> steady s s'"
  by (auto simp: prepareReceivedFile_def Let_def steady_def split: prod.splits sum.splits option.splits
      dest!: clock_dests steady_dests [unfolded steady_def])

lemma saveReceived_steady [steady_dests]: "saveReceivedFile env f s = (r, s') \<Longrightarrow> steady s s'"
  by (auto simp: saveReceivedFile_def commitReceived_def split: prod.splits sum.splits dest!: steady_dests)

lemma reserveMessage_steady [steady_dests]: "reserveMessage env from dir dest f sz s = (r, s') \<Longrightarrow> steady s s'"
  by (auto simp: reserveMessage_def Let_def steady_def split: prod.splits option.splits if_splits dest!: clock_dests)

lemma prepareInbox_steady [steady_dests]: "prepareInboxMessage env from f s = (r, s') \<Longrightarrow> steady s s'"
  by (auto simp: prepareInboxMessage_def Let_def steady_def split: prod.splits sum.splits option.splits
      dest!: clock_dests steady_dests [unfolded steady_def])

lemma commitInbox_steady [simp]: "steady s (commitInbox env from f d s)"
  by (auto simp: commitInbox_def Let_def steady_def split: prod.splits dest!: clock_dests)

lemma saveInbox_steady [steady_dests]: "saveInboxMessage env from f s = (r, s') \<Longrightarrow> steady s s'"
  by (auto simp: saveInboxMessage_def split: prod.splits sum.splits
      dest!: steady_dests intro: steady_trans [OF _ commitInbox_steady])

lemma saveTrace_steady [steady_dests]: "saveTrace env from f s = (r, s') \<Longrightarrow> steady s s'"
  by (auto simp: saveTrace_def Let_def split: prod.splits sum.splits dest!: steady_dests)

lemma saveFrame_steady [steady_dests]: "saveFrame env from f s = (r, s') \<Longrightarrow> steady s s'"
  by (auto simp: saveFrame_def split: prod.splits if_splits dest!: steady_dests)

lemma publishSaved_steady [simp]: "steady s (publishSaved env sv s1) \<longleftrightarrow> steady s s1"
  by (induction env sv s1 rule: publishSaved.induct) auto

lemma ensureReceiver_steady [steady_dests]: "ensureReceiver env cs s = (r, s') \<Longrightarrow> steady s s'"
  by (auto simp: ensureReceiver_def steady_def split: prod.splits sum.splits option.splits dest!: clock_dests)

lemma world_steady: "steady s s1 \<Longrightarrow> now w = now (sworld s1) \<Longrightarrow> steady s (s1\<lparr>sworld := w\<rparr>)"
  by (simp add: steady_def)

lemma handleStream_steady [steady_dests]: "handleStream env f cs s = (b, cs', s') \<Longrightarrow> steady s s'"
  by (auto simp: handleStream_def Let_def split: prod.splits sum.splits option.splits
      dest!: steady_dests clock_dests intro!: world_steady)

lemma Close_steady: "Close sr (sworld s) = (sr', w) \<Longrightarrow> steady s (s\<lparr>sworld := w\<rparr>)"
  by (auto intro!: world_steady dest!: clock_dests)

end
