(* ===== verification/ServiceRuns.thy ===== *)
theory ServiceRuns
  imports Clocks
begin

text \<open>
  Runs of the service: frames of any number of connections, one after the other, with the clock
  going on in between.  Each cache of the service refines the protocol of
  \<open>Dedupe_Protocol\<close>, so what is proved there of interleaved connections holds of the service.
\<close>

section \<open>One frame as a run of the protocol\<close>

definition quiet :: "(nat \<Rightarrow> claim_state) \<Rightarrow> bool" where
  "quiet thr \<longleftrightarrow> (\<forall>i. thr i \<in> {Idle, Cancelled} \<or> (\<exists>k a. thr i = Duplicated k a))"

text \<open>A cache between two frames: a reachable state of the protocol in which nobody claims.\<close>

definition refines :: "int \<Rightarrow> int \<Rightarrow> int \<Rightarrow> deliveryDedupe \<Rightarrow> logent list \<Rightarrow> bool" where
  "refines w mx t d log \<longleftrightarrow>
     (\<exists>s. dreach w mx s \<and> quiet (sthreads s) \<and> scache s = d \<and> sclock s = t \<and> slog s = log)"

lemma dreach_step: "dreach w mx s \<Longrightarrow> dstep s s' \<Longrightarrow> dreach w mx s'"
  unfolding dreach_def by (meson rtranclp.rtrancl_into_rtrancl)

lemma refines_new: "refines w mx t (newDeliveryDedupe w mx) []"
  unfolding refines_def
  by (rule exI [of _ "dsys_init w mx t"]) (auto simp: dreach_def dsys_init_def quiet_def)

lemma refines_tick: "refines w mx t d log \<Longrightarrow> t \<le> t' \<Longrightarrow> refines w mx t' d log"
  unfolding refines_def using dreach_step [OF _ dstep.tick]
  by (metis dsys.select_convs dsys.surjective dsys.update_convs(2))

lemma claim_refines:
  assumes ref: "refines w mx t d log" and mx: "0 \<le> mx"
  shows "(\<exists>a d1. claimNow t d k = Some (Duplicated k a, d1) \<and> refines w mx t d1 log \<and>
      (\<exists>l \<in> set log. lkey l = k \<and> lack l = a)) \<or>
    (\<exists>e d1. claimNow t d k = Some (Holding k e, d1) \<and>
      (\<forall>a. \<exists>d2. claim_finish t d1 (Some (k, e)) True a = Some (None, d2) \<and>
         refines w mx t d2 (log @ [\<lparr>lkey = k, lentry = e, ltime = t, lack = a\<rparr>])) \<and>
      (\<forall>a. \<exists>d2. claim_finish t d1 (Some (k, e)) False a = Some (None, d2) \<and> refines w mx t d2 log))"
proof -
  obtain s where s: "dreach w mx s" "quiet (sthreads s)" "scache s = d" "sclock s = t" "slog s = log"
    using ref by (auto simp: refines_def)
  let ?s1 = "s\<lparr>sthreads := (sthreads s)(0 := Trying k)\<rparr>"
  have r1: "dreach w mx ?s1"
    using dreach_step [OF s(1) dstep.request [of s 0 k]] s(2) unfolding quiet_def by blast
  note inv1 = reach_sinv [OF r1 mx]
  obtain st c where b: "claim_begin t d k = Some (st, c)"
    using begin_total [OF sinv_dinv [OF inv1], of t k] s by auto
  let ?s2 = "?s1\<lparr>scache := c, sthreads := (sthreads s)(0 := st)\<rparr>"
  have "dstep ?s1 ?s2" using dstep.begin_claim [of ?s1 0 k st c] b s by simp
  then have r2: "dreach w mx ?s2" using r1 dreach_step by blast
  note inv2 = reach_sinv [OF r2 mx]
  have q: "quiet ((sthreads s)(0 := x))" if "x = Idle \<or> (\<exists>k a. x = Duplicated k a)" for x
    using s(2) that by (auto simp: quiet_def)
  have d: "dinv d" using sinv_dinv [OF inv1] s by simp
  from d b show ?thesis
  proof (cases rule: claim_begin_cases)
    case (fresh c1)
    let ?e = "length (dheap c1)"
    have h: "sthreads ?s2 0 = Holding k ?e" using fresh(3) by simp
    have fin: "\<exists>d2. claim_finish t c (Some (k, ?e)) ok a = Some (None, d2) \<and>
        refines w mx t d2 (if ok then log @ [\<lparr>lkey = k, lentry = ?e, ltime = t, lack = a\<rparr>] else log)" for ok a
    proof -
      obtain d2 where d2: "claim_finish t c (Some (k, ?e)) ok a = Some (None, d2)"
        using finish_total [OF inv2 h, of ok a] s by auto
      have "\<exists>s3. dstep ?s2 s3 \<and> quiet (sthreads s3) \<and> scache s3 = d2 \<and> sclock s3 = t \<and>
          slog s3 = (if ok then log @ [\<lparr>lkey = k, lentry = ?e, ltime = t, lack = a\<rparr>] else log)"
        using dstep.finish_stored [OF h, of a d2] dstep.finish_failed [OF h, of a d2] d2 s q [of Idle]
        by (cases ok) (auto intro!: exI conjI)
      then obtain s3 where "dreach w mx s3" "quiet (sthreads s3)" "scache s3 = d2" "sclock s3 = t"
          "slog s3 = (if ok then log @ [\<lparr>lkey = k, lentry = ?e, ltime = t, lack = a\<rparr>] else log)"
        using dreach_step [OF r2] by blast
      with d2 show ?thesis unfolding refines_def by blast
    qed
    have "claimNow t d k = Some (Holding k ?e, c)" using b fresh(3) by (simp add: claimNow_def)
    then show ?thesis using fin [of True] fin [of False] by auto
  next
    case (dup e)
    have wt: "sthreads ?s2 0 = Waiting k e" using dup(3) by simp
    have "sthreads ?s2 j \<noteq> Holding k e" for j
      using s(2) [unfolded quiet_def, rule_format, of j] dup(3) by auto
    then have dn: "edone (dheap c ! e)" using waiting_holder [OF sinv_thr [OF inv2] wt] by auto
    let ?a = "eack (dheap c ! e)"
    let ?s3 = "?s2\<lparr>sthreads := (sthreads ?s2)(0 := Duplicated k ?a)\<rparr>"
    have rc: "claim_recheck c k e = Duplicated k ?a" using dup(2) by (simp add: claim_recheck_def)
    then have "dstep ?s2 ?s3" using dstep.recheck [OF wt] dn by simp
    then have r3: "dreach w mx ?s3" using r2 dreach_step by blast
    have "\<exists>l \<in> set (slog ?s3). lkey l = k \<and> lack l = ?a"
      using sinv_dup [OF reach_sinv [OF r3 mx], of 0 k ?a] by simp
    moreover have "refines w mx t c log"
      unfolding refines_def using r3 q [of "Duplicated k ?a"] s by (intro exI [of _ ?s3]) auto
    moreover have "claimNow t d k = Some (Duplicated k ?a, c)" using b dup(3) dn rc by (simp add: claimNow_def)
    ultimately show ?thesis using s by auto
  qed
qed

text \<open>What a stored delivery leaves in the index, whatever the window.\<close>

lemma finish_remembers:
  assumes inv: "dinv d" and mx: "0 < dmax d" and k: "dentries d k = Some e" "\<not> edone (dheap d ! e)"
    and new: "\<And>x. x \<in> set (stored d) \<Longrightarrow> okey x \<noteq> k"
    and f: "claim_finish t d (Some (k, e)) True a = Some (r, d2)"
  shows "dentries d2 k = Some e \<and> eack (dheap d2 ! e) = a"
proof (rule finish_stored_cases [OF inv _ k new, where now = t and a = a])
  let ?n = "Suc (length (stored d)) - nat (dmax d)" and ?r = "record_entry t d k e a"
  fix d1 assume dr: "dq.dropped ?n ?r d1" and fin: "finish t d k e True a = Some (close_entry d1 e)"
  have "k \<notin> set (map okey (take ?n (stored ?r)))"
    using new mx by (auto simp: record_sel(1) [OF inv] dest: in_set_takeD)
  then have "dentries d1 k = Some e"
    using dr k(1) by (simp add: dropped_simps record_sel(2))
  moreover have "d2 = close_entry d1 e" using f fin by (simp add: claim_finish_def)
  ultimately show ?thesis
    using entry_bound [OF inv k(1)] dropped_keeps(1) [OF dr] by (simp add: record_sel(5))
qed (use mx in simp)

text \<open>What a claim does to the index: a duplicate has an old entry, a claim a new one.\<close>

lemma claim_index:
  assumes inv: "dinv d" and mx: "0 < dmax d"
  shows "claimNow t d k = Some (Duplicated k' a, d1) \<Longrightarrow> \<exists>e. dentries d1 k = Some e \<and> e < length (dheap d)"
    and "claimNow t d k = Some (Holding k' e, d1) \<Longrightarrow> k' = k \<and> length (dheap d) \<le> e \<and>
      (\<forall>a r d2. claim_finish t d1 (Some (k, e)) True a = Some (r, d2) \<longrightarrow> dentries d2 k = Some e \<and> eack (dheap d2 ! e) = a) \<and>
      (\<forall>a r d2. claim_finish t d1 (Some (k, e)) False a = Some (r, d2) \<longrightarrow> dentries d2 k = None)"
proof -
  obtain st c where b: "claim_begin t d k = Some (st, c)" using begin_total [OF inv] by blast
  have dup: "\<exists>e. dentries c k = Some e \<and> e < length (dheap d)" if "\<And>k0 e0. st \<noteq> Holding k0 e0"
    using inv b
  proof (cases rule: claim_begin_cases)
    case (dup e)
    then show ?thesis using entry_bound [OF dropped_keeps(4) [OF dup(1)]] dropped_keeps(1) [OF dup(1)] by auto
  qed (use that in simp)
  then show "claimNow t d k = Some (Duplicated k' a, d1) \<Longrightarrow> \<exists>e. dentries d1 k = Some e \<and> e < length (dheap d)"
    using b by (cases st) (auto simp: claimNow_def split: if_splits)
  assume h: "claimNow t d k = Some (Holding k' e, d1)"
  then have st: "st = Holding k' e" "d1 = c"
    using b by (auto simp: claimNow_def claim_recheck_def split: claim_state.splits if_splits)
  from inv b show "k' = k \<and> length (dheap d) \<le> e \<and>
      (\<forall>a r d2. claim_finish t d1 (Some (k, e)) True a = Some (r, d2) \<longrightarrow> dentries d2 k = Some e \<and> eack (dheap d2 ! e) = a) \<and>
      (\<forall>a r d2. claim_finish t d1 (Some (k, e)) False a = Some (r, d2) \<longrightarrow> dentries d2 k = None)"
  proof (cases rule: claim_begin_cases)
    case (fresh c1)
    note keep = dropped_keeps [OF fresh(1)]
    have new: "okey x \<noteq> k" if "x \<in> set (stored c)" for x
      using stored_entry [OF keep(4), of x] fresh(2) that by (auto simp: fresh(4))
    have c: "dinv c" "0 < dmax c" "dentries c k = Some e" "\<not> edone (dheap c ! e)"
      using fresh_dinv [OF keep(4) fresh(2)] mx keep(3) fresh(3) st(1) by (auto simp: fresh(4))
    show ?thesis
      using finish_remembers [OF c new] finish_failed_cases [OF c(3,4)] keep(1) fresh(3) st
      by (auto simp: claim_finish_def)
  qed (use st in simp)
qed

section \<open>The caches of a service\<close>

definition cacheWindow :: "dedupeCache \<Rightarrow> ServiceConfig \<Rightarrow> int" where
  "cacheWindow c cfg = (case c of ByID \<Rightarrow> effectiveDedupeWindow (cDedupeWindow cfg) | ByContent \<Rightarrow> cDedupeContentWindow cfg)"

type_synonym slogs = "dedupeCache \<Rightarrow> logent list"

definition caches_ok :: "Service \<Rightarrow> slogs \<Rightarrow> bool" where
  "caches_ok s logs \<longleftrightarrow> (\<forall>c d. getCache c s = Some d \<longrightarrow>
     refines (cacheWindow c (scfg s)) dedupeMaxEntries (now (sworld s)) d (logs c))"

lemma cache_sel [simp]:
  "getCache c (setCache c' d s) = (if c' = c then Some d else getCache c s)"
  "scfg (setCache c d s) = scfg s" "sworld (setCache c d s) = sworld s"
  "sevents (setCache c d s) = sevents s" "sinbox (setCache c d s) = sinbox s"
  "setCache c d (setCache c d' s) = setCache c d s"
  by (auto simp: getCache_def setCache_def split: dedupeCache.splits)

lemma steady_cache: "steady s s' \<Longrightarrow> getCache c s' = getCache c s"
  by (simp add: steady_def getCache_def split: dedupeCache.split)

lemma steady_ok: "steady s s' \<Longrightarrow> caches_ok s logs \<Longrightarrow> caches_ok s' logs"
  using steady_cache [of s s'] by (simp add: caches_ok_def steady_def)

lemma new_ok: "caches_ok (NewService cfg w) (\<lambda>_. [])"
  using refines_new by (auto simp: caches_ok_def NewService_def getCache_def cacheWindow_def Let_def
      split: dedupeCache.splits if_splits)

lemma cacheFor_Some:
  assumes "dedupeCacheFor (sbyID s \<noteq> None) (sbyContent s \<noteq> None) f = Some c"
  obtains d where "getCache c s = Some d" and "dedupeEligible (Type f)"
  using assms by (auto simp: dedupeCacheFor_def getCache_def split: if_splits)

lemma set_cache_ok:
  assumes "caches_ok s logs" and "refines (cacheWindow c (scfg s)) dedupeMaxEntries (now (sworld s)) d l"
  shows "caches_ok (setCache c d s) (logs(c := l))"
  using assms by (auto simp: caches_ok_def)

section \<open>Frames\<close>

text \<open>
  What one frame adds to the log of a cache, read off the states before and after it.  The frame
  has stored its delivery when it was announced as received, or when the cache remembers its key
  afterwards and either the entry is new or the frame changed a file.  (A save that fails may
  leave files behind; it is not announced and its key is forgotten.)
\<close>

definition received_event :: "event \<Rightarrow> bool" where
  "received_event e \<longleftrightarrow> fst e = ''message.received'' \<or> fst e = ''file.received''"

definition announced :: "Service \<Rightarrow> Service \<Rightarrow> bool" where
  "announced s s' \<longleftrightarrow> list_ex received_event (drop (length (sevents s)) (sevents s'))"

definition rewritten :: "Service \<Rightarrow> Service \<Rightarrow> bool" where
  "rewritten s s' \<longleftrightarrow> names (sfs s') \<noteq> names (sfs s) \<or> store (sfs s') \<noteq> store (sfs s)"

definition frame_log :: "string \<Rightarrow> Frame \<Rightarrow> Service \<Rightarrow> Service \<Rightarrow> slogs" where
  "frame_log from f s s' c =
     (if dedupeCacheFor (sbyID s \<noteq> None) (sbyContent s \<noteq> None) f \<noteq> Some c then []
      else
        let k = deliveryKeyFor from f; d = the (getCache c s); d' = the (getCache c s'); t = now (sworld s')
        in case dentries d' k of
             None \<Rightarrow>
               if announced s s' then [\<lparr>lkey = k, lentry = length (dheap d'), ltime = t, lack = []\<rparr>] else []
           | Some e \<Rightarrow>
               if announced s s' \<or> length (dheap d) \<le> e \<or> rewritten s s'
               then [\<lparr>lkey = k, lentry = e, ltime = t, lack = eack (dheap d' ! e)\<rparr>] else [])"

text \<open>The same for a frame that \<open>serveFrame\<close> handles, from its claim and the outcome of the save.\<close>

definition claim_log :: "svcEnv \<Rightarrow> string \<Rightarrow> Frame \<Rightarrow> Service \<Rightarrow> slogs" where
  "claim_log env from f s c =
     (if dedupeCacheFor (sbyID s \<noteq> None) (sbyContent s \<noteq> None) f \<noteq> Some c then []
      else case claimNow (now (sworld s)) (the (getCache c s)) (deliveryKeyFor from f) of
             Some (Holding k e, d) \<Rightarrow>
               (case saveFrame env from f (setCache c d s) of
                  ((None, special), _) \<Rightarrow>
                    [\<lparr>lkey = k, lentry = e, ltime = now (sworld s),
                      lack = string_of (Payload (ackFrameFor f None special))\<rparr>]
                | _ \<Rightarrow> [])
           | _ \<Rightarrow> [])"

text \<open>The result of a frame: no panic, no claim left open, the caches with the longer logs.\<close>

definition served :: "Service \<Rightarrow> slogs \<Rightarrow> (bool \<times> connState \<times> Service) option \<Rightarrow> bool" where
  "served s logs r \<longleftrightarrow> (\<exists>b cs' s'. r = Some (b, cs', s') \<and> cclaim cs' = None \<and> caches_ok s' logs \<and>
     scfg s' = scfg s \<and> now (sworld s') = now (sworld s))"

lemma answer_claim: "answer env f cs = (r, cs') \<Longrightarrow> cclaim cs' = cclaim cs"
  by (auto simp: answer_def split: prod.splits)

lemma answered_served:
  assumes "finishClaim (e = None) (string_of (Payload (ackFrameFor f e sp))) cs s1 = Some (cs2, s2)"
    and "cclaim cs2 = None" and "caches_ok s2 logs" and "scfg s2 = scfg s" and "now (sworld s2) = now (sworld s)"
    and "saveFrame env from f s = ((e, sp), s1)"
  shows "served s logs (storeAndAck env from f cs s)"
proof -
  obtain r cs3 where a: "answer env (ackFrameFor f e sp) cs2 = (r, cs3)"
    by (cases "answer env (ackFrameFor f e sp) cs2")
  then have c3: "cclaim cs3 = None" using answer_claim assms(2) by simp
  show ?thesis
  proof (cases r)
    case None
    then show ?thesis using assms c3 a by (auto simp: storeAndAck_def served_def Let_def)
  next
    case (Some x)
    let ?s = "publish env (''dataexchange.ack_failed'', [(''remote'', JStr from),
        (''frame_type'', JStr (TypeName (Type f))), (''error'', JStr (write_err_text x))]) s2"
    have p: "steady s2 ?s" by simp
    then have "caches_ok ?s logs" "scfg ?s = scfg s" "now (sworld ?s) = now (sworld s)"
      using steady_ok [OF p assms(3)] assms(4,5) by (simp_all only: steady_def)
    then show ?thesis using Some assms(1,6) c3 a by (auto simp: storeAndAck_def served_def Let_def)
  qed
qed

lemma unclaimed_served:
  assumes ok: "caches_ok s logs" and cs: "cclaim cs = None"
  shows "served s logs (processFrame env from f cs s)"
proof (cases "Type f = TypeFileStream")
  case True
  obtain b cs' s' where h: "handleStream env f cs s = (b, cs', s')" by (cases "handleStream env f cs s")
  note st = handleStream_steady [OF h]
  have "cclaim cs' = None"
    using h cs by (auto simp: handleStream_def Let_def split: prod.splits sum.splits option.splits
        dest!: answer_claim simp: answer_claim [OF surjective_pairing])
  then show ?thesis
    using True h steady_ok [OF st ok] st by (auto simp: processFrame_def served_def steady_def)
next
  case False
  obtain e sp s1 where sv: "saveFrame env from f s = ((e, sp), s1)" by (metis surj_pair)
  note st = saveFrame_steady [OF sv]
  have "served s logs (storeAndAck env from f cs s)"
    by (rule answered_served [OF _ cs steady_ok [OF st ok] _ _ sv])
      (use st cs in \<open>auto simp: finishClaim_def steady_def\<close>)
  with False show ?thesis by (simp add: processFrame_def)
qed

lemma claimed_served:
  assumes ok: "caches_ok s logs" and d: "getCache c s = Some d0" and el: "dedupeEligible (Type f)"
    and st: "\<And>a. \<exists>d2. claim_finish (now (sworld s)) d (Some (k, e)) True a = Some (None, d2) \<and>
      refines (cacheWindow c (scfg s)) dedupeMaxEntries (now (sworld s)) d2
        (logs c @ [\<lparr>lkey = k, lentry = e, ltime = now (sworld s), lack = a\<rparr>])"
    and fl: "\<And>a. \<exists>d2. claim_finish (now (sworld s)) d (Some (k, e)) False a = Some (None, d2) \<and>
      refines (cacheWindow c (scfg s)) dedupeMaxEntries (now (sworld s)) d2 (logs c)"
    and sv: "saveFrame env from f (setCache c d s) = ((er, sp), s1)"
  shows "served s (logs(c := logs c @ (if er = None then
      [\<lparr>lkey = k, lentry = e, ltime = now (sworld s), lack = string_of (Payload (ackFrameFor f None sp))\<rparr>] else [])))
    (processFrame env from f (cs\<lparr>cclaim := Some (c, k, e)\<rparr>) (setCache c d s))"
proof -
  note sd = saveFrame_steady [OF sv]
  let ?a = "string_of (Payload (ackFrameFor f er sp))"
  let ?logs = "logs(c := logs c @ (if er = None then
      [\<lparr>lkey = k, lentry = e, ltime = now (sworld s), lack = string_of (Payload (ackFrameFor f None sp))\<rparr>] else []))"
  obtain d2 where d2: "claim_finish (now (sworld s)) d (Some (k, e)) (er = None) ?a = Some (None, d2)"
    "refines (cacheWindow c (scfg s)) dedupeMaxEntries (now (sworld s)) d2 (?logs c)"
    using st [of ?a] fl [of ?a] by (cases er) auto
  have g: "getCache c s1 = Some d" "now (sworld s1) = now (sworld s)" "scfg s1 = scfg s"
    using steady_cache [OF sd] sd by (simp_all add: steady_def)
  have "caches_ok (setCache c d2 s1) ?logs"
  proof -
    have "caches_ok (setCache c d2 (setCache c d s)) ?logs"
      using set_cache_ok [OF ok d2(2)] by simp
    moreover have "steady (setCache c d2 (setCache c d s)) (setCache c d2 s1)"
      using sd by (simp add: steady_def setCache_def split: dedupeCache.split)
    ultimately show ?thesis using steady_ok by blast
  qed
  then have "served (setCache c d s) ?logs (storeAndAck env from f (cs\<lparr>cclaim := Some (c, k, e)\<rparr>) (setCache c d s))"
    by (rule answered_served [where ?cs2.0 = "cs\<lparr>cclaim := None\<rparr>", rotated 2, OF _ _ _ sv])
      (use g d2(1) in \<open>simp_all add: finishClaim_def\<close>)
  moreover have "Type f \<noteq> TypeFileStream" using el by (auto simp: dedupeEligible_def)
  ultimately show ?thesis by (simp add: processFrame_def served_def)
qed

lemma serve_ok:
  assumes ok: "caches_ok s logs" and cs: "cclaim cs = None"
  shows "served s (\<lambda>c. logs c @ claim_log env from f s c) (serveFrame env from f cs s)"
proof (cases "dedupeCacheFor (sbyID s \<noteq> None) (sbyContent s \<noteq> None) f")
  case None
  then show ?thesis using unclaimed_served [OF ok cs] by (simp add: serveFrame_def claim_log_def)
next
  case (Some c)
  obtain d0 where d0: "getCache c s = Some d0" and el: "dedupeEligible (Type f)"
    using Some by (rule cacheFor_Some)
  let ?k = "deliveryKeyFor from f" and ?t = "now (sworld s)" and ?w = "cacheWindow c (scfg s)"
  have ref: "refines ?w dedupeMaxEntries ?t d0 (logs c)" using ok d0 by (simp add: caches_ok_def)
  have mx: "0 \<le> dedupeMaxEntries" by (simp add: dedupeMaxEntries_def)
  have other: "claim_log env from f s c' = []" if "c' \<noteq> c" for c' using Some that by (simp add: claim_log_def)
  have grown: "(\<lambda>c. logs c @ claim_log env from f s c) = logs(c := l)"
    if "logs c @ claim_log env from f s c = l" for l
  proof
    fix c' show "logs c' @ claim_log env from f s c' = (logs(c := l)) c'"
      using that other [of c'] by (cases "c' = c") auto
  qed
  from claim_refines [OF ref mx, of ?k] show ?thesis
  proof (elim disjE exE conjE)
    fix a d assume cl: "claimNow ?t d0 ?k = Some (Duplicated ?k a, d)"
      and r: "refines ?w dedupeMaxEntries ?t d (logs c)"
    obtain r' cs' where an: "answer env (textFrame (a @ duplicateAckSuffix)) (cs\<lparr>cclaim := None\<rparr>) = (r', cs')"
      by (cases "answer env (textFrame (a @ duplicateAckSuffix)) (cs\<lparr>cclaim := None\<rparr>)")
    have "claim_log env from f s c = []" using Some d0 cl by (simp add: claim_log_def)
    then have "(\<lambda>c. logs c @ claim_log env from f s c) = logs(c := logs c)" by (intro grown) simp
    then show ?thesis
      using set_cache_ok [OF ok r] answer_claim [OF an] Some d0 cl an by (auto simp: serveFrame_def served_def)
  next
    fix e d assume cl: "claimNow ?t d0 ?k = Some (Holding ?k e, d)"
      and st: "\<forall>a. \<exists>d2. claim_finish ?t d (Some (?k, e)) True a = Some (None, d2) \<and>
        refines ?w dedupeMaxEntries ?t d2 (logs c @ [\<lparr>lkey = ?k, lentry = e, ltime = ?t, lack = a\<rparr>])"
      and fl: "\<forall>a. \<exists>d2. claim_finish ?t d (Some (?k, e)) False a = Some (None, d2) \<and>
        refines ?w dedupeMaxEntries ?t d2 (logs c)"
    obtain er sp s1 where sv: "saveFrame env from f (setCache c d s) = ((er, sp), s1)" by (metis surj_pair)
    have "claim_log env from f s c = (if er = None then [\<lparr>lkey = ?k, lentry = e, ltime = ?t,
        lack = string_of (Payload (ackFrameFor f None sp))\<rparr>] else [])"
      using Some d0 cl sv by (cases er) (simp_all add: claim_log_def)
    then have "(\<lambda>c. logs c @ claim_log env from f s c) = logs(c := logs c @ (if er = None then
        [\<lparr>lkey = ?k, lentry = e, ltime = ?t, lack = string_of (Payload (ackFrameFor f None sp))\<rparr>] else []))"
      by (intro grown) simp
    then show ?thesis
      using claimed_served [OF ok d0 el st [rule_format] fl [rule_format] sv] Some d0 cl
      by (simp add: serveFrame_def)
  qed
qed

text \<open>A failed save announces nothing.\<close>

definition silent :: "Service \<Rightarrow> Service \<Rightarrow> bool" where
  "silent s s' \<longleftrightarrow> (\<exists>evs. sevents s' = sevents s @ evs \<and> \<not> list_ex received_event evs)"

lemma silent_refl [simp]: "silent s s"
  by (simp add: silent_def)

lemma silent_announced: "silent s s' \<Longrightarrow> \<not> announced s s'"
  by (auto simp: silent_def announced_def)

lemma silent_publish: "silent s s1 \<Longrightarrow> \<not> received_event e \<Longrightarrow> silent s (publish env e s1)"
  by (auto simp: silent_def publish_def)

lemma reserveMessage_silent:
  assumes "reserveMessage env from dir dest f sz s = (r, s')"
  shows "silent s s'"
  using assms by (auto simp: reserveMessage_def Let_def silent_def publish_def received_event_def split: prod.splits option.splits if_splits)

lemma prepareInbox_silent:
  assumes "prepareInboxMessage env from f s = (r, s')"
  shows "silent s s'"
proof -
  have [simp]: "sevents (settleMessage d z b a) = sevents a" for d z b a by (simp add: settleMessage_def)
  show ?thesis
    using assms by (auto simp: prepareInboxMessage_def next_seq_def Let_def silent_def split: sum.splits prod.splits option.splits
        dest!: reserveMessage_silent)
qed

lemma prepareReceived_silent:
  assumes "prepareReceivedFile env f s = (r, s')"
  shows "silent s s'"
proof -
  have "silent a b" if "checkReceivedQuota env dir f a = (q, b)" for dir a q b
    using that by (auto simp: checkReceivedQuota_def Let_def silent_def publish_def received_event_def split: prod.splits if_splits)
  note quota = this
  show ?thesis
    using assms by (auto simp: prepareReceivedFile_def next_seq_def Let_def silent_def split: sum.splits prod.splits option.splits
        dest!: quota)
qed

lemma failed_silent:
  assumes "saveFrame env from f s = ((Some e, sp), s')"
  shows "silent s s'"
  using assms prepareInbox_silent prepareReceived_silent
  by (auto simp: saveFrame_def saveReceivedFile_def saveInboxMessage_def split: if_splits prod.splits sum.splits)

text \<open>The log that is read off the states is the one of the claims.\<close>

lemma stored_log_eq:
  assumes fin: "finishClaim (er = None) (string_of (Payload (ackFrameFor f er sp))) cs1 s1 = Some (cs2, s2)"
    and sv: "saveFrame env from f (setCache c d s) = ((er, sp), s1)" and cs1: "cclaim cs1 = Some (c, deliveryKeyFor from f, e)"
    and r: "storeAndAck env from f cs1 (setCache c d s) = Some (b, cs', s')"
    and cc: "dedupeCacheFor (sbyID s \<noteq> None) (sbyContent s \<noteq> None) f = Some c" and d0: "getCache c s = Some d0"
    and cl: "claimNow (now (sworld s)) d0 (deliveryKeyFor from f) = Some (Holding (deliveryKeyFor from f) e, d)"
    and inv: "dinv d0" "0 < dmax d0"
  shows "frame_log from f s s' c = claim_log env from f s c"
proof -
  let ?k = "deliveryKeyFor from f" and ?a = "string_of (Payload (ackFrameFor f er sp))"
  note ix = claim_index(2) [OF inv cl]
  note sd = saveFrame_steady [OF sv]
  have g: "getCache c s1 = Some d" "now (sworld s1) = now (sworld s)"
    using steady_cache [OF sd] sd by (simp_all add: steady_def)
  obtain q d2 where d2: "claim_finish (now (sworld s)) d (Some (?k, e)) (er = None) ?a = Some (q, d2)" "s2 = setCache c d2 s1"
    using fin cs1 g by (auto simp: finishClaim_def)
  have s': "getCache c s' = Some d2" "now (sworld s') = now (sworld s)" "silent s2 s'"
  proof -
    have "steady s2 s' \<and> silent s2 s'"
      using r sv fin silent_publish [OF silent_refl, of _ s2 env]
      by (auto simp: storeAndAck_def Let_def received_event_def split: prod.splits option.splits)
    then show "getCache c s' = Some d2" "now (sworld s') = now (sworld s)" "silent s2 s'"
      using steady_cache [of s2 s'] g d2(2) by (auto simp: steady_def)
  qed
  show ?thesis
  proof (cases er)
    case None
    then have "dentries d2 ?k = Some e \<and> eack (dheap d2 ! e) = ?a" using ix d2(1) by auto
    then show ?thesis using None cc d0 cl sv s' ix by (simp add: frame_log_def claim_log_def Let_def)
  next
    case (Some x)
    then have k: "dentries d2 ?k = None" using ix d2(1) by auto
    have "silent (setCache c d s) s1" using failed_silent sv Some by blast
    then have "silent s s'" using s'(3) d2(2) by (auto simp: silent_def)
    then have "\<not> announced s s'" by (rule silent_announced)
    then show ?thesis using Some cc d0 cl sv s'(1) k by (simp add: frame_log_def claim_log_def Let_def)
  qed
qed

lemma frame_log_eq:
  assumes ok: "caches_ok s logs" and r: "serveFrame env from f cs s = Some (b, cs', s')"
  shows "frame_log from f s s' = claim_log env from f s"
proof (cases "dedupeCacheFor (sbyID s \<noteq> None) (sbyContent s \<noteq> None) f")
  case None
  then show ?thesis by (simp add: frame_log_def claim_log_def fun_eq_iff)
next
  case (Some c)
  obtain d0 where d0: "getCache c s = Some d0" and el: "dedupeEligible (Type f)"
    using Some by (rule cacheFor_Some)
  let ?k = "deliveryKeyFor from f" and ?t = "now (sworld s)" and ?w = "cacheWindow c (scfg s)"
  have ref: "refines ?w dedupeMaxEntries ?t d0 (logs c)" using ok d0 by (simp add: caches_ok_def)
  have mx: "0 \<le> dedupeMaxEntries" "0 < dedupeMaxEntries" by (simp_all add: dedupeMaxEntries_def)
  obtain y where y: "dreach ?w dedupeMaxEntries y" "scache y = d0" using ref by (auto simp: refines_def)
  have inv: "dinv d0" "0 < dmax d0"
    using sinv_dinv [OF reach_sinv [OF y(1) mx(1)]] reach_config [OF y(1) mx(1)] y(2) mx(2) by auto
  have "frame_log from f s s' c = claim_log env from f s c"
    using claim_refines [OF ref mx(1), of ?k]
  proof (elim disjE exE conjE)
    fix a d assume cl: "claimNow ?t d0 ?k = Some (Duplicated ?k a, d)"
    have "s' = setCache c d s" using r Some d0 cl by (auto simp: serveFrame_def split: prod.splits)
    moreover obtain e where "dentries d ?k = Some e" "e < length (dheap d0)" using claim_index(1) [OF inv cl] by blast
    ultimately show ?thesis
      using Some d0 cl by (simp add: frame_log_def claim_log_def announced_def rewritten_def Let_def)
  next
    fix e d assume cl: "claimNow ?t d0 ?k = Some (Holding ?k e, d)"
    let ?cs = "cs\<lparr>cclaim := Some (c, ?k, e)\<rparr>"
    have "Type f \<noteq> TypeFileStream" using el by (auto simp: dedupeEligible_def)
    then have st: "storeAndAck env from f ?cs (setCache c d s) = Some (b, cs', s')"
      using r Some d0 cl by (simp add: serveFrame_def processFrame_def)
    obtain er sp s1 where sv: "saveFrame env from f (setCache c d s) = ((er, sp), s1)" by (metis surj_pair)
    obtain cs2 s2 where fin: "finishClaim (er = None) (string_of (Payload (ackFrameFor f er sp))) ?cs s1 = Some (cs2, s2)"
      using st sv by (auto simp: storeAndAck_def Let_def split: option.splits)
    show ?thesis by (rule stored_log_eq [OF fin sv _ st Some d0 cl inv]) simp
  qed
  moreover have "frame_log from f s s' c' = claim_log env from f s c'" if "c' \<noteq> c" for c'
    using Some that by (simp add: frame_log_def claim_log_def)
  ultimately show ?thesis by (metis ext)
qed

lemma close_ok:
  assumes ok: "caches_ok s logs" and cs: "cclaim cs = None"
  shows "\<exists>cs' s'. closeConn cs s = Some (cs', s') \<and> caches_ok s' logs \<and> scfg s' = scfg s \<and>
    now (sworld s') = now (sworld s)"
proof (cases "csr cs")
  case None
  then show ?thesis using ok cs by (simp add: closeConn_def finishClaim_def)
next
  case (Some sr)
  obtain sr1 w1 where c: "Close sr (sworld s) = (sr1, w1)" by (cases "Close sr (sworld s)")
  note st = Close_steady [OF c]
  show ?thesis
    using steady_ok [OF st ok] st Some c cs by (simp add: closeConn_def finishClaim_def steady_def)
qed

lemma handleConn_ok:
  assumes "caches_ok s logs" and "cclaim cs = None"
  shows "\<exists>cs' s' logs'. handleConn env from cs s = Some (cs', s') \<and> caches_ok s' logs'"
  using assms
proof (induction env "from" cs s arbitrary: logs rule: handleConn.induct)
  case (1 env "from" cs s)
  obtain res r where rd: "ReadFrame (frameCap env) (crd (cconn cs)) = (res, r)"
    by (cases "ReadFrame (frameCap env) (crd (cconn cs))")
  let ?cs = "cs\<lparr>cconn := (cconn cs)\<lparr>crd := r\<rparr>\<rparr>"
  have cs: "cclaim ?cs = None" using 1(3) by simp
  show ?case
  proof (cases res)
    case (Inl e)
    then show ?thesis
      using close_ok [OF 1(2) cs] rd by (auto simp: handleConn.simps [of env "from" cs s])
  next
    case (Inr f)
    obtain b cs1 s1 where sv: "serveFrame env from f ?cs s = Some (b, cs1, s1)" and c1: "cclaim cs1 = None"
      and ok1: "caches_ok s1 (\<lambda>c. logs c @ claim_log env from f s c)"
      using serve_ok [OF 1(2) cs, of env "from" f, unfolded served_def] by blast
    show ?thesis
    proof (cases b)
      case True
      have "handleConn env from cs s = handleConn env from cs1 s1"
        using rd Inr sv True by (simp add: handleConn.simps [of env "from" cs s])
      then show ?thesis using 1(1) [OF rd [symmetric] Inr sv refl eqTrueI [OF True] refl ok1 c1] by simp
    next
      case False
      then show ?thesis
        using close_ok [OF ok1 c1] rd Inr sv by (auto simp: handleConn.simps [of env "from" cs s])
    qed
  qed
qed

section \<open>Runs\<close>

text \<open>
  A running service: its state, the open connections with the sender of each, and the logs of
  its caches.  A connection is opened, serves the next frame of its reader, or ends; a frame after
  which the loop stops ends the connection at once.
\<close>

record ssys =
  svc :: Service
  sconns :: "nat \<rightharpoonup> string \<times> connState"
  svlogs :: slogs

definition ssys_init :: "ServiceConfig \<Rightarrow> world \<Rightarrow> ssys" where
  "ssys_init cfg w = \<lparr>svc = NewService cfg w, sconns = Map.empty, svlogs = (\<lambda>_. [])\<rparr>"

definition read_frame :: "svcEnv \<Rightarrow> connState \<Rightarrow> (error + Frame) \<times> connState" where
  "read_frame env cs =
     (case ReadFrame (frameCap env) (crd (cconn cs)) of (x, r) \<Rightarrow> (x, cs\<lparr>cconn := (cconn cs)\<lparr>crd := r\<rparr>\<rparr>))"

definition set_clock :: "int \<Rightarrow> Service \<Rightarrow> Service" where
  "set_clock t s = set_fs ((sfs s)\<lparr>fclock := t\<rparr>) s"

inductive sstep :: "svcEnv \<Rightarrow> ssys \<Rightarrow> ssys \<Rightarrow> bool" for env where
  tick: "now (sworld (svc x)) \<le> t \<Longrightarrow> sstep env x (x\<lparr>svc := set_clock t (svc x)\<rparr>)"
| accept: "sconns x i = None \<Longrightarrow> sstep env x (x\<lparr>sconns := (sconns x)(i \<mapsto> (from, newConn c))\<rparr>)"
| serve: "sconns x i = Some (from, cs) \<Longrightarrow> read_frame env cs = (Inr f, cs1) \<Longrightarrow>
    serveFrame env from f cs1 (svc x) = Some (True, cs2, s2) \<Longrightarrow>
    sstep env x (x\<lparr>svc := s2, sconns := (sconns x)(i \<mapsto> (from, cs2)),
      svlogs := (\<lambda>c. svlogs x c @ frame_log from f (svc x) s2 c)\<rparr>)"
| serve_last: "sconns x i = Some (from, cs) \<Longrightarrow> read_frame env cs = (Inr f, cs1) \<Longrightarrow>
    serveFrame env from f cs1 (svc x) = Some (False, cs2, s2) \<Longrightarrow> closeConn cs2 s2 = Some (cs3, s3) \<Longrightarrow>
    sstep env x (x\<lparr>svc := s3, sconns := (sconns x)(i := None),
      svlogs := (\<lambda>c. svlogs x c @ frame_log from f (svc x) s2 c)\<rparr>)"
| hangup: "sconns x i = Some (from, cs) \<Longrightarrow> read_frame env cs = (Inl e, cs1) \<Longrightarrow>
    closeConn cs1 (svc x) = Some (cs2, s2) \<Longrightarrow>
    sstep env x (x\<lparr>svc := s2, sconns := (sconns x)(i := None)\<rparr>)"

inductive_cases sstepE: "sstep env x y"

definition sreach :: "svcEnv \<Rightarrow> ServiceConfig \<Rightarrow> ssys \<Rightarrow> bool" where
  "sreach env cfg x \<longleftrightarrow> (\<exists>w. (sstep env)\<^sup>*\<^sup>* (ssys_init cfg w) x)"

definition ssys_ok :: "ServiceConfig \<Rightarrow> ssys \<Rightarrow> bool" where
  "ssys_ok cfg x \<longleftrightarrow> caches_ok (svc x) (svlogs x) \<and> scfg (svc x) = cfg \<and>
     (\<forall>i from cs. sconns x i = Some (from, cs) \<longrightarrow> cclaim cs = None)"

lemma read_frame_claim: "read_frame env cs = (r, cs') \<Longrightarrow> cclaim cs' = cclaim cs"
  by (auto simp: read_frame_def split: prod.splits)

lemma ssys_okD:
  "ssys_ok cfg x \<Longrightarrow> caches_ok (svc x) (svlogs x)" "ssys_ok cfg x \<Longrightarrow> scfg (svc x) = cfg"
  "ssys_ok cfg x \<Longrightarrow> sconns x i = Some (from, cs) \<Longrightarrow> cclaim cs = None"
  by (auto simp: ssys_ok_def)

lemma tick_ok: "caches_ok s logs \<Longrightarrow> now (sworld s) \<le> t \<Longrightarrow> caches_ok (set_clock t s) logs"
  using refines_tick by (fastforce simp: caches_ok_def set_clock_def set_fs_def getCache_def split: dedupeCache.splits)

lemma serve_okE:
  assumes "ssys_ok cfg x" and "sconns x i = Some (from, cs)" and "read_frame env cs = (Inr f, cs1)"
  obtains b cs2 s2 where "serveFrame env from f cs1 (svc x) = Some (b, cs2, s2)" and "cclaim cs2 = None"
    and "caches_ok s2 (\<lambda>c. svlogs x c @ frame_log from f (svc x) s2 c)" and "scfg s2 = cfg"
  using serve_ok [OF ssys_okD(1) [OF assms(1)], of cs1 env "from" f] ssys_okD(3) [OF assms(1,2)]
    read_frame_claim [OF assms(3)] ssys_okD(2) [OF assms(1)] frame_log_eq [OF ssys_okD(1) [OF assms(1)]] that
  by (auto simp: served_def)

lemma sstep_ok: "sstep env x y \<Longrightarrow> ssys_ok cfg x \<Longrightarrow> ssys_ok cfg y"
proof (induction rule: sstep.induct)
  case (tick x t)
  then show ?case using tick_ok by (auto simp: ssys_ok_def set_clock_def set_fs_def)
next
  case (accept x i "from" c)
  then show ?case by (auto simp: ssys_ok_def newConn_def)
next
  case (serve x i "from" cs f cs1 cs2 s2)
  show ?case
    by (rule serve_okE [OF serve(4,1,2)]) (use serve in \<open>auto simp: ssys_ok_def\<close>)
next
  case (serve_last x i "from" cs f cs1 cs2 s2 cs3 s3)
  show ?case
  proof (rule serve_okE [OF serve_last(5,1,2)])
    fix b cs2' s2'
    assume a: "serveFrame env from f cs1 (svc x) = Some (b, cs2', s2')" "cclaim cs2' = None"
      "caches_ok s2' (\<lambda>c. svlogs x c @ frame_log from f (svc x) s2' c)" "scfg s2' = cfg"
    show ?thesis using close_ok [OF a(3,2)] a serve_last by (auto simp: ssys_ok_def)
  qed
next
  case (hangup x i "from" cs e cs1 cs2 s2)
  have "cclaim cs1 = None" using ssys_okD(3) [OF hangup(4,1)] read_frame_claim [OF hangup(2)] by simp
  then show ?case using close_ok [OF ssys_okD(1) [OF hangup(4)], of cs1] hangup by (auto simp: ssys_ok_def)
qed

lemma reach_ok:
  assumes "sreach env cfg x"
  shows "ssys_ok cfg x"
proof -
  obtain w where "(sstep env)\<^sup>*\<^sup>* (ssys_init cfg w) x" using assms by (auto simp: sreach_def)
  moreover have "ssys_ok cfg (ssys_init cfg w)"
    using new_ok by (simp add: ssys_ok_def ssys_init_def NewService_def Let_def)
  ultimately show ?thesis by induction (auto intro: sstep_ok)
qed



section \<open>Examples\<close>

text \<open>
  A connection that sends one message several times: the first copy is stored, and a later one
  again when the window has passed.
\<close>

lemma MkdirAll_calm: "no_faults fs \<Longrightarrow> \<exists>fs'. os_MkdirAll p fs = (None, fs') \<and> no_faults fs'"
  by (simp add: os_MkdirAll_def sys_def no_faults_def)

lemma WriteFile_calm_keeps: "no_faults fs \<Longrightarrow> \<exists>fs'. os_WriteFile p bs fs = (None, fs') \<and> no_faults fs'"
  by (simp add: os_WriteFile_def os_OpenCreate_def sys_def file_Truncate0_def set_data_def file_WriteAt_def no_faults_def
      split: option.split)

lemma demo_save:
  assumes "scfg s = demo_cfg" and "no_faults (sfs s)" and "(wseq (sworld s) + 1) mod 64 \<noteq> 0"
  shows "\<exists>s'. saveFrame demo_svcEnv from demo_msg s = ((None, None), s') \<and> no_faults (sfs s') \<and>
    wseq (sworld s') = wseq (sworld s) + 1"
proof -
  obtain fs1 where mk: "os_MkdirAll ''/in'' (sfs s) = (None, fs1)" "no_faults fs1"
    using MkdirAll_calm [OF assms(2)] by blast
  have w: "\<exists>fs'. os_WriteFile p bs fs1 = (None, fs') \<and> no_faults fs'" for p bs
    by (rule WriteFile_calm_keeps [OF mk(2)])
  obtain s2 where s2: "next_seq (set_fs fs1 s) = (wseq (sworld s) + 1, s2)" "sfs s2 = fs1" "scfg s2 = demo_cfg"
    "wseq (sworld s2) = wseq (sworld s) + 1"
    using assms(1) by (simp add: next_seq_def)
  let ?r = "bytes_of (json_object (inboxRecord demo_cfg from (rfc3339nano 0 (fclock fs1)) demo_msg))"
  let ?d = "filepath_Join [''/in'', inboxName 0 (fclock fs1) (wseq (sworld s) + 1) TypeBinary]"
  obtain fs3 where fs3: "os_WriteFile ?d ?r fs1 = (None, fs3)" "no_faults fs3" using w by blast
  have 1: "prepareInboxMessage demo_svcEnv from demo_msg s =
      (Inr (''/in'', ?d, int (length ?r), wseq (sworld s) + 1), set_fs fs3 s2)"
    using assms(1) mk(1) s2 fs3(1)
    by (simp add: prepareInboxMessage_def svc_inboxDir_def defaultDir_def demo_cfg_def demo_svcEnv_def
        reserveMessage_def effectiveInboxMaxBytes_def settleMessage_def demo_msg_def Let_def)
  have ty: "Type demo_msg = TypeBinary" by (simp add: demo_msg_def)
  show ?thesis
    using assms(3) s2(4) fs3(2)
    by (simp add: saveFrame_def ty saveInboxMessage_def 1 commitInbox_def inboxEvictCheckEvery_def Let_def)
qed

definition demo_text :: string where
  "demo_text = string_of (Payload (textFrame (ackText TypeBinary 2 None)))"

lemma answer_open:
  assumes "wlimit (cwr (cconn cs)) = None" and "framePayload (frameCap env) f = Inr p"
  shows "\<exists>cs'. answer env f cs = (None, cs') \<and> wlimit (cwr (cconn cs')) = None \<and> crd (cconn cs') = crd (cconn cs) \<and>
    cclaim cs' = cclaim cs \<and> sent (cwr (cconn cs')) = sent (cwr (cconn cs)) @ frameBytes (frameCap env) f"
proof -
  obtain t q where "framePayload (frameCap env) f = Inr (t, q)" using assms(2) by (cases p) simp
  then obtain w where "WriteFrame (frameCap env) (cwr (cconn cs)) f = (None, w)" "wlimit w = None"
    using WriteFrame_open assms(1) by blast
  then show ?thesis by (auto simp: answer_def WriteFrame_sent)
qed

lemma text_payload: "framePayload mx (textFrame m) = Inr (TypeText, bytes_of m)"
  by (simp add: textFrame_def framePayload_def untagged_def wirePayload_def)

lemma demo_serve:
  assumes d: "getCache ByID s = Some d"
    and cl: "claimNow (now (sworld s)) d (deliveryKeyFor from demo_msg) = Some (Holding k e, d1)"
    and fin: "claim_finish (now (sworld s)) d1 (Some (k, e)) True demo_text = Some (None, d2)"
    and s: "scfg s = demo_cfg" "no_faults (sfs s)" "(wseq (sworld s) + 1) mod 64 \<noteq> 0"
    and cs: "wlimit (cwr (cconn cs)) = None"
  shows "\<exists>cs' s'. serveFrame demo_svcEnv from demo_msg cs s = Some (True, cs', s') \<and> getCache ByID s' = Some d2 \<and>
    scfg s' = demo_cfg \<and> no_faults (sfs s') \<and> wseq (sworld s') = wseq (sworld s) + 1 \<and>
    now (sworld s') = now (sworld s) \<and> crd (cconn cs') = crd (cconn cs) \<and> wlimit (cwr (cconn cs')) = None \<and>
    claim_log demo_svcEnv from demo_msg s ByID = [\<lparr>lkey = k, lentry = e, ltime = now (sworld s), lack = demo_text\<rparr>]"
proof -
  have c: "dedupeCacheFor (sbyID s \<noteq> None) (sbyContent s \<noteq> None) demo_msg = Some ByID"
    using d by (simp add: dedupeCacheFor_def dedupeEligible_def demo_msg_def getCache_def)
  obtain s1 where s1: "saveFrame demo_svcEnv from demo_msg (setCache ByID d1 s) = ((None, None), s1)" "no_faults (sfs s1)"
    "wseq (sworld s1) = wseq (sworld s) + 1"
    using demo_save [of "setCache ByID d1 s"] s by auto
  note sd = saveFrame_steady [OF s1(1)]
  have g: "getCache ByID s1 = Some d1" "now (sworld s1) = now (sworld s)" "scfg s1 = demo_cfg"
    using steady_cache [OF sd] sd s(1) by (simp_all add: steady_def)
  have ack: "ackFrameFor demo_msg None None = textFrame (ackText TypeBinary 2 None)"
    by (simp add: ackFrameFor_def demo_msg_def numeral_2_eq_2)
  obtain cs' where cs': "answer demo_svcEnv (textFrame (ackText TypeBinary 2 None))
      (cs\<lparr>cclaim := Some (ByID, k, e), cclaim := None\<rparr>) = (None, cs')"
    "wlimit (cwr (cconn cs')) = None" "crd (cconn cs') = crd (cconn cs)"
    using answer_open [OF _ text_payload, of "cs\<lparr>cclaim := None\<rparr>" demo_svcEnv "ackText TypeBinary 2 None"] cs by auto
  have "Type demo_msg \<noteq> TypeFileStream" by (simp add: demo_msg_def)
  then show ?thesis
    using s1 g cs' cl d fin c ack
    by (simp add: serveFrame_def processFrame_def storeAndAck_def Let_def finishClaim_def demo_text_def claim_log_def)
qed

lemma demo_msg_fits: "fits 65536 demo_msg"
proof (rule taggable_fits)
  show "wf_body demo_msg" by (simp add: demo_msg_def wf_body_def)
  show "Type demo_msg \<noteq> TypeTagged" by (simp add: demo_msg_def)
  show "valid_header (headerOf demo_msg)"
    by (simp add: demo_msg_def headerOf_def valid_header_def ValidMessageID_def id_char_def code_def)
  show "wirePayload demo_msg = Inr [0xff, 0x00]" by (simp add: demo_msg_def wirePayload_def)
  show "length [0xff :: byte, 0x00] + MaxTaggedOverhead \<le> unat (65536 :: u32)"
    by (simp add: MaxTaggedOverhead_eq codec_simps)
qed

definition demo_link :: "nat \<Rightarrow> conn" where
  "demo_link n = \<lparr>crd = \<lparr>rbuf = concat (replicate n (frameBytes 65536 demo_msg)), rend = EOF\<rparr>, cwr = demo_writer\<rparr>"

lemma demo_read:
  assumes "crd (cconn cs) = crd (demo_link (Suc n))"
  shows "read_frame demo_svcEnv cs = (Inr demo_msg, cs\<lparr>cconn := (cconn cs)\<lparr>crd := crd (demo_link n)\<rparr>\<rparr>)"
  using assms ReadFrame_frameBytes [OF demo_msg_fits]
  by (simp add: read_frame_def demo_link_def demo_svcEnv_def)

definition demo_key :: dedupeKey where
  "demo_key = deliveryKeyFor ''0:1'' demo_msg"

definition demo_logged :: "nat \<Rightarrow> logent" where
  "demo_logged n = \<lparr>lkey = demo_key, lentry = n, ltime = int n * DefaultDedupeWindow, lack = demo_text\<rparr>"

lemma demo_claims:
  assumes "0 < w" and "1 < mx"
  shows "\<exists>d1 d2 d3 d4. claimNow 0 (newDeliveryDedupe w mx) k = Some (Holding k 0, d1) \<and>
    claim_finish 0 d1 (Some (k, 0)) True a = Some (None, d2) \<and>
    claimNow w d2 k = Some (Holding k 1, d3) \<and>
    claim_finish w d3 (Some (k, 1)) True a = Some (None, d4)"
  using assms by (simp add: claimNow_def dexec_simps)

lemma sreach_step: "sreach env cfg x \<Longrightarrow> sstep env x y \<Longrightarrow> sreach env cfg y"
  unfolding sreach_def by (meson rtranclp.rtrancl_into_rtrancl)

definition demo_state :: "ssys \<Rightarrow> nat \<Rightarrow> nat \<Rightarrow> deliveryDedupe \<Rightarrow> int \<Rightarrow> bool" where
  "demo_state x left seen d t \<longleftrightarrow> sreach demo_svcEnv demo_cfg x \<and>
     (\<exists>cs. sconns x 0 = Some (''0:1'', cs) \<and> crd (cconn cs) = crd (demo_link left) \<and> wlimit (cwr (cconn cs)) = None) \<and>
     getCache ByID (svc x) = Some d \<and> scfg (svc x) = demo_cfg \<and> no_faults (sfs (svc x)) \<and>
     wseq (sworld (svc x)) = word_of_nat seen \<and> now (sworld (svc x)) = t \<and>
     svlogs x ByID = map demo_logged [0..<seen]"

lemma demo_next:
  assumes x: "demo_state x (Suc left) seen d t" and t: "t = int seen * DefaultDedupeWindow" and n: "seen < 2"
    and cl: "claimNow t d demo_key = Some (Holding demo_key seen, d1)"
    and fin: "claim_finish t d1 (Some (demo_key, seen)) True demo_text = Some (None, d2)"
  shows "\<exists>y. demo_state y left (Suc seen) d2 t"
proof -
  obtain cs where c: "sconns x 0 = Some (''0:1'', cs)" "crd (cconn cs) = crd (demo_link (Suc left))"
    "wlimit (cwr (cconn cs)) = None"
    and s: "sreach demo_svcEnv demo_cfg x" "getCache ByID (svc x) = Some d" "scfg (svc x) = demo_cfg" "no_faults (sfs (svc x))"
      "wseq (sworld (svc x)) = word_of_nat seen" "now (sworld (svc x)) = t" "svlogs x ByID = map demo_logged [0..<seen]"
    using x by (auto simp: demo_state_def)
  let ?cs = "cs\<lparr>cconn := (cconn cs)\<lparr>crd := crd (demo_link left)\<rparr>\<rparr>"
  have sq: "(wseq (sworld (svc x)) + 1) mod 64 \<noteq> 0"
  proof -
    have "seen = 0 \<or> seen = 1" using n by linarith
    then show ?thesis unfolding word_unat_eq_iff unat_mod s(5) by (elim disjE) simp_all
  qed
  obtain cs' s' where sv: "serveFrame demo_svcEnv ''0:1'' demo_msg ?cs (svc x) = Some (True, cs', s')"
    "getCache ByID s' = Some d2" "scfg s' = demo_cfg" "no_faults (sfs s')" "wseq (sworld s') = wseq (sworld (svc x)) + 1"
    "now (sworld s') = t" "crd (cconn cs') = crd (demo_link left)" "wlimit (cwr (cconn cs')) = None"
    "claim_log demo_svcEnv ''0:1'' demo_msg (svc x) ByID = [\<lparr>lkey = demo_key, lentry = seen, ltime = t, lack = demo_text\<rparr>]"
    using demo_serve [OF s(2) _ _ s(3,4) sq, of "''0:1''" demo_key seen d1 d2 ?cs] cl fin s(6) c(3)
    by (auto simp: demo_key_def)
  let ?y = "x\<lparr>svc := s', sconns := (sconns x)(0 \<mapsto> (''0:1'', cs')),
      svlogs := (\<lambda>c. svlogs x c @ frame_log ''0:1'' demo_msg (svc x) s' c)\<rparr>"
  have "sreach demo_svcEnv demo_cfg ?y"
    by (rule sreach_step [OF s(1)], rule sstep.serve [OF c(1) demo_read [OF c(2)] sv(1)])
  then have "demo_state ?y left (Suc seen) d2 t"
    using sv s(5,7) t frame_log_eq [OF ssys_okD(1) [OF reach_ok [OF s(1)]] sv(1)]
    by (simp add: demo_state_def demo_logged_def)
  then show ?thesis by blast
qed

lemma demo_tick:
  assumes "demo_state x left seen d t" and "t \<le> t'"
  shows "\<exists>y. demo_state y left seen d t'"
proof -
  have "sreach demo_svcEnv demo_cfg (x\<lparr>svc := set_clock t' (svc x)\<rparr>)"
    by (rule sreach_step [OF _ sstep.tick]) (use assms in \<open>simp_all add: demo_state_def\<close>)
  then have "demo_state (x\<lparr>svc := set_clock t' (svc x)\<rparr>) left seen d t'"
    using assms by (simp add: demo_state_def set_clock_def set_fs_def getCache_def no_faults_def)
  then show ?thesis by blast
qed

lemma demo_start:
  "\<exists>x. demo_state x n 0 (newDeliveryDedupe DefaultDedupeWindow dedupeMaxEntries) 0 \<and> wf_fs (sfs (svc x))"
proof -
  let ?x = "ssys_init demo_cfg demo_world"
  let ?y = "?x\<lparr>sconns := (sconns ?x)(0 \<mapsto> (''0:1'', newConn (demo_link n)))\<rparr>"
  have "sreach demo_svcEnv demo_cfg ?x" by (auto simp: sreach_def)
  then have "sreach demo_svcEnv demo_cfg ?y"
    by (rule sreach_step [OF _ sstep.accept]) (simp add: ssys_init_def)
  then have "demo_state ?y n 0 (newDeliveryDedupe DefaultDedupeWindow dedupeMaxEntries) 0"
    by (simp add: demo_state_def ssys_init_def newConn_def demo_link_def NewService_def demo_world_def no_faults_def
        getCache_def demo_cfg_def effectiveDedupeWindow_def DefaultDedupeWindow_def demo_writer_def)
  moreover have "wf_fs (sfs (svc ?y))" by (simp add: ssys_init_def NewService_def demo_world_def wf_fs_def)
  ultimately show ?thesis by blast
qed

lemma demo_once:
  obtains x d2 d3 d4 where "demo_state x 1 1 d2 0"
    and "claimNow DefaultDedupeWindow d2 demo_key = Some (Holding demo_key 1, d3)"
    and "claim_finish DefaultDedupeWindow d3 (Some (demo_key, 1)) True demo_text = Some (None, d4)"
proof -
  obtain x where x: "demo_state x (Suc 1) 0 (newDeliveryDedupe DefaultDedupeWindow dedupeMaxEntries) 0"
    using demo_start by blast
  have "0 < DefaultDedupeWindow" "1 < dedupeMaxEntries" by (simp_all add: DefaultDedupeWindow_def dedupeMaxEntries_def)
  then obtain d1 d2 d3 d4 where
    "claimNow 0 (newDeliveryDedupe DefaultDedupeWindow dedupeMaxEntries) demo_key = Some (Holding demo_key 0, d1)"
    "claim_finish 0 d1 (Some (demo_key, 0)) True demo_text = Some (None, d2)"
    and d: "claimNow DefaultDedupeWindow d2 demo_key = Some (Holding demo_key 1, d3)"
    "claim_finish DefaultDedupeWindow d3 (Some (demo_key, 1)) True demo_text = Some (None, d4)"
    using demo_claims by blast
  then obtain y where "demo_state y 1 1 d2 0" using demo_next [OF x] by auto
  with d show ?thesis using that by blast
qed

lemma demo_twice_stored: "\<exists>x d. demo_state x 0 2 d DefaultDedupeWindow"
proof (rule demo_once)
  fix x d2 d3 d4
  assume a: "demo_state x 1 1 d2 0" and d: "claimNow DefaultDedupeWindow d2 demo_key = Some (Holding demo_key 1, d3)"
    "claim_finish DefaultDedupeWindow d3 (Some (demo_key, 1)) True demo_text = Some (None, d4)"
  obtain y where y: "demo_state y (Suc 0) 1 d2 DefaultDedupeWindow"
    using demo_tick [OF a, of DefaultDedupeWindow] by (auto simp: DefaultDedupeWindow_def)
  show ?thesis using demo_next [OF y _ _ d] by (auto simp: numeral_2_eq_2)
qed
section \<open>Properties\<close>





text \<open>
  C14. Serving a connection always ends, without a panic: in every state that a running service
  can reach, the loop of an open connection and that of a new one, over whatever bytes the peer
  sent and whatever file operations fail, returns.
\<close>

theorem service_returns:
  assumes "sreach env cfg x" and "sconns x i = Some (from, cs) \<or> cs = newConn c"
  shows "\<exists>cs' s'. handleConn env from cs (svc x) = Some (cs', s')"
proof -
  have "cclaim cs = None"
    using assms(2) ssys_okD(3) [OF reach_ok [OF assms(1)]] by (auto simp: newConn_def)
  then show ?thesis using handleConn_ok [OF ssys_okD(1) [OF reach_ok [OF assms(1)]]] by blast
qed

theorem service_returns_witness:
  "\<exists>x cs' s'. sreach demo_svcEnv demo_cfg x \<and>
     handleConn demo_svcEnv ''0:1'' (newConn (demo_link 3)) (svc x) = Some (cs', s')"
proof -
  obtain x d where "demo_state x 0 2 d DefaultDedupeWindow" using demo_twice_stored by blast
  then have "sreach demo_svcEnv demo_cfg x" by (simp add: demo_state_def)
  then show ?thesis using service_returns [of demo_svcEnv demo_cfg x] by blast
qed



end
