(* ===== verification/Exchange.thy ===== *)
theory Exchange
  imports ServiceRuns
begin

text \<open>
  Client and service together: the answers of the service as \<open>sendAndAwaitAck\<close> reads them.
\<close>

section \<open>Texts of answers\<close>







text \<open>Which answers a client takes for duplicates and for rejections.\<close>

definition dup_text :: "Frame \<Rightarrow> bool" where
  "dup_text a \<longleftrightarrow> Type a = TypeText \<and> prefix ''ACK '' (string_of (Payload a)) \<and> suffix duplicateAckSuffix (string_of (Payload a))"

definition err_ack :: "Frame \<Rightarrow> bool" where
  "err_ack a \<longleftrightarrow> Type a = TypeText \<and> prefix ''ERR '' (string_of (Payload a))"

lemma sendResult_eq:
  "sendResult a tg = (Some \<lparr>Ack = a, Tagged = tg, Duplicate = dup_text a\<rparr>,
     if err_ack a then Some (Rejected (string_of (Payload a))) else None)"
  by (simp add: sendResult_def dup_text_def err_ack_def Let_def)

lemma ackText_flags:
  "\<not> dup_text (textFrame (ackText ty n e))" "err_ack (textFrame (ackText ty n e)) \<longleftrightarrow> e \<noteq> None"
  by (auto simp: dup_text_def err_ack_def textFrame_def ackText_def duplicateAckSuffix_def suffix_def append_eq_append_conv2
      split: option.split)


section \<open>Remembered answers\<close>





section \<open>The answer to a frame\<close>






section \<open>What a save leaves behind\<close>




lemma nameless_file:
  assumes "Type f = TypeFile" and "Filename f = []"
  shows "saveFrame env from f s = ((None, None), s)"
    and "sendResult (ackFrameFor f None None) tg =
      (Some \<lparr>Ack = ackFrameFor f None None, Tagged = tg, Duplicate = False\<rparr>, None)"
  using assms ackText_flags [of "Type f" "length (Payload f)" None]
  by (simp_all add: saveFrame_def sendResult_eq ackFrameFor_def)





section \<open>Properties\<close>




end
