(* ===== verification/StreamClaims.thy ===== *)
theory StreamClaims
  imports StreamDelivery
begin

text \<open>
  Receivers of many connections on one directory.  They share the files and the table of claims
  on \<^verbatim>\<open>.partial\<close> files; frames of different connections arrive in any order, connections open and
  close, time passes, and the rest of the process changes other files.  Every file and every
  claim a transfer names exists, and one transfer at most holds a \<^verbatim>\<open>.partial\<close>.
\<close>

section \<open>What a handler may do to the shared state\<close>

text \<open>No new claim is active; nothing valid becomes invalid.\<close>

definition tame :: "world \<Rightarrow> world \<Rightarrow> bool" where
  "tame w w' \<longleftrightarrow> length (claims w) \<le> length (claims w') \<and> active w' \<subseteq>\<^sub>m active w \<and>
     length (store (wfs w)) \<le> length (store (wfs w')) \<and> (wf_fs (wfs w) \<longrightarrow> wf_fs (wfs w'))"

lemma tame_refl [simp]: "tame w w"
  by (simp add: tame_def)

lemma tame_trans [trans]: "tame a b \<Longrightarrow> tame b c \<Longrightarrow> tame a c"
  by (auto simp: tame_def intro: map_le_trans)

lemma tame_closeFile [simp]: "tame (closeFile h w) w' = tame w w'" "tame w (closeFile h w') = tame w w'"
  by (simp_all add: tame_def)

lemma tame_wrote: "wrote ino w w' \<Longrightarrow> tame w w'"
  using wrote_wf [of ino w w'] by (simp add: tame_def wrote_def)

lemma tame_touched: "touched w w' \<Longrightarrow> tame w w'"
  by (simp add: tame_def touched_def same_files_def wf_fs_def)

lemma tame_looked: "looked w w' \<Longrightarrow> tame w w'"
  by (simp add: tame_def looked_def same_files_def wf_fs_def)

lemma Remove_wf: "wf_fs fs \<Longrightarrow> wf_fs (snd (os_Remove p fs))"
  by (auto simp: os_Remove_def sys_def wf_fs_def distinct_map_filter split: option.split)

lemma Remove_store: "store (snd (os_Remove p fs)) = store fs"
  by (auto simp: os_Remove_def sys_def split: option.split)

lemma Rename_wf:
  assumes "wf_fs fs"
  shows "wf_fs (snd (os_Rename p q fs))"
proof (cases "lookup fs p")
  case (Some i)
  then have "i < length (store fs)" using assms by (auto simp: lookup_def wf_fs_def dest: map_of_SomeD)
  then show ?thesis
    using assms Some by (auto simp: os_Rename_def sys_def lookup_def wf_fs_def distinct_map_filter split: option.split)
qed (use assms in \<open>auto simp: os_Rename_def sys_def lookup_def wf_fs_def split: option.split\<close>)

lemma Rename_store: "store (snd (os_Rename p q fs)) = store fs"
  by (auto simp: os_Rename_def sys_def split: option.split)

lemma OpenCreate_wf:
  assumes "os_OpenCreate p fs = (r, fs')"
  shows "length (store fs) \<le> length (store fs')"
    and "wf_fs fs \<Longrightarrow> wf_fs fs' \<and> (\<forall>ino. r = Inr ino \<longrightarrow> ino < length (store fs'))"
  using assms
  by (auto simp: os_OpenCreate_def sys_def lookup_def wf_fs_def map_of_eq_None_iff less_Suc_eq
      dest!: map_of_SomeD split: option.splits)

lemma tame_files:
  assumes "wf_fs (wfs w) \<Longrightarrow> wf_fs fs" and "length (store (wfs w)) \<le> length (store fs)"
  shows "tame w (w\<lparr>wfs := fs\<rparr>)"
  using assms by (simp add: tame_def)

lemma tame_try_remove: "tame w (try_remove p w)"
  by (simp add: try_remove_def tame_files Remove_wf Remove_store)

lemma tame_release: "tame w (release t w)"
proof -
  have "tame w (releasePartial p c w)" for p c
    by (auto simp: releasePartial_def unclaimPartial_def tame_def map_le_def)
  then show ?thesis by (auto simp: release_def Let_def intro: tame_trans [OF _ tame_try_remove])
qed

lemma tame_close_release: "tame w (release t (closeFile h w))"
  using tame_release [of "closeFile h w" t] by simp

lemma tame_close: "tame w (close_all ts w)"
  by (induction ts w rule: close_all.induct) (auto intro: tame_trans tame_close_release)

lemma tame_ended: "tame w (snd (discard i sr w))" "tame w (snd (forget i sr w))"
  by (auto simp: discard_def forget_def tame_release tame_close_release split: option.split)

lemma tame_holds: "stillHolds p c w = (b, w') \<Longrightarrow> tame w w'"
  by (rule tame_touched [OF stillHolds_touched])

lemma tame_abandon: "tame w (snd (abandonIfDiskFull i e sr w))"
proof -
  have h: "tame w w1" if "stillHolds p c (closeFile g w) = (b, w1)" for p c g b w1
    using tame_holds [OF that] by simp
  show ?thesis
    by (auto simp: abandonIfDiskFull_def split: option.split prod.split
        intro: tame_trans [OF h tame_release] tame_trans [OF h tame_trans [OF tame_try_remove tame_release]])
qed

lemma tame_writeFailed: "writeFailed i e sr w = (f, sr', w') \<Longrightarrow> tame w w'"
  using tame_ended(1) [of w i sr] tame_abandon [of w i e sr]
  by (auto simp: writeFailed_def split: prod.splits if_splits)

lemma tame_doneCommit:
  assumes "doneCommit env i t sr w0 = (f, sv, sr', w')"
  shows "tame w0 w'"
proof -
  let ?w = "(closeFile (thandle t) w0)\<lparr>wseq := wseq w0 + 1\<rparr>"
  obtain b w1 where s: "stillHolds (tpartial t) (tclaim t) ?w = (b, w1)" by (metis surj_pair)
  have w: "tame w0 ?w" by (simp add: tame_def)
  have w1: "tame w0 w1" using tame_trans [OF w tame_holds [OF s]] .
  have rn: "tame w0 (w1\<lparr>wfs := fs2\<rparr>)" if "os_Rename p q (wfs w1) = (r, fs2)" for p q r fs2
    using that tame_trans [OF w1 tame_files] Rename_wf [of "wfs w1" p q] Rename_store [of p q "wfs w1"] by simp
  have rm: "tame w0 (w1\<lparr>wfs := fs3\<rparr>)" if "os_Rename p q (wfs w1) = (r, fs2)" "os_Remove q fs2 = (r', fs3)" for p q r r' fs2 fs3
    using tame_trans [OF rn [OF that(1)] tame_files, of fs3] that(2) Remove_wf [of fs2 q] Remove_store [of q fs2] by simp
  have fin: "tame w0 (snd (forget i sr a))" if "tame w0 a" for a
    using tame_trans [OF that tame_ended(2)] .
  show ?thesis
    using assms s fin [OF w] fin [OF w1] fin [OF rn] fin [OF rm]
    by (auto simp: doneCommit_def Let_def split: prod.splits option.splits bool.splits) (metis snd_conv)+
qed

lemma tame_handleDone:
  assumes "handleDone env i sr w = (f, sv, sr', w')"
  shows "tame w w'"
proof (cases "map_of (transfers sr) i")
  case (Some t)
  obtain b w1 where s: "stillHolds (tpartial t) (tclaim t) w = (b, w1)" by (metis surj_pair)
  obtain r w2 where v: "doneVerify t w1 = (r, w2)" by (metis surj_pair)
  have w1: "tame w w1" by (rule tame_holds [OF s])
  have w2: "tame w w2" using tame_trans [OF w1 tame_touched] doneVerify_touched [OF v] by blast
  have "tame a (snd (discard i sr a))" for a by (rule tame_ended)
  then have d: "tame w (snd (discard i sr a))" if "tame w a" for a using that tame_trans by blast
  show ?thesis
    using assms Some s v w2 d [OF w1] d [OF w2] tame_trans [OF w2 tame_doneCommit]
    by (auto simp: handleDone_def split: prod.splits bool.splits sum.splits if_splits)
qed (use assms in \<open>simp add: handleDone_def\<close>)

section \<open>The invariant of all connections\<close>

type_synonym receivers = "nat \<Rightarrow> streamReceiver"

definition transfer_of :: "receivers \<Rightarrow> nat \<times> bytes \<Rightarrow> recvTransfer option" where
  "transfer_of R k = map_of (transfers (R (fst k))) (snd k)"

text \<open>Files and claims exist, and a claim belongs to one transfer and to the file it writes.\<close>

definition claims_ok :: "receivers \<Rightarrow> world \<Rightarrow> bool" where
  "claims_ok R w \<longleftrightarrow> wf_fs (wfs w) \<and> (\<forall>p c. active w p = Some c \<longrightarrow> c < length (claims w)) \<and>
     (\<forall>k t. transfer_of R k = Some t \<longrightarrow> tfile t < length (store (wfs w)) \<and>
        (\<forall>c. tclaim t = Some c \<longrightarrow> c < length (claims w) \<and> (\<forall>p. active w p = Some c \<longrightarrow> p = tpartial t))) \<and>
     (\<forall>k k' t t' c. transfer_of R k = Some t \<longrightarrow> transfer_of R k' = Some t' \<longrightarrow>
        tclaim t = Some c \<longrightarrow> tclaim t' = Some c \<longrightarrow> k = k')"

lemma claims_okD:
  assumes "claims_ok R w"
  shows ok_wf: "wf_fs (wfs w)"
    and ok_active: "active w p = Some c \<Longrightarrow> c < length (claims w)"
    and ok_file: "transfer_of R k = Some t \<Longrightarrow> tfile t < length (store (wfs w))"
    and ok_claim: "transfer_of R k = Some t \<Longrightarrow> tclaim t = Some c \<Longrightarrow> c < length (claims w)"
    and ok_path: "transfer_of R k = Some t \<Longrightarrow> tclaim t = Some c \<Longrightarrow> active w p = Some c \<Longrightarrow> p = tpartial t"
    and ok_owner: "transfer_of R k = Some t \<Longrightarrow> transfer_of R k' = Some t' \<Longrightarrow>
        tclaim t = Some c \<Longrightarrow> tclaim t' = Some c \<Longrightarrow> k = k'"
  using assms unfolding claims_ok_def by blast+

lemma ok_keeps:
  assumes ok: "claims_ok R w" and w: "tame w w'"
    and R: "\<And>k t'. transfer_of R' k = Some t' \<Longrightarrow> \<exists>t. transfer_of R k = Some t \<and> static t' = static t"
  shows "claims_ok R' w'"
proof -
  have act: "active w p = Some c" if "active w' p = Some c" for p c
    using w that unfolding tame_def map_le_def by (metis domI)
  have len: "length (claims w) \<le> length (claims w')" "length (store (wfs w)) \<le> length (store (wfs w'))" "wf_fs (wfs w')"
    using w ok_wf [OF ok] by (auto simp: tame_def)
  have t: "\<exists>t. transfer_of R k = Some t \<and> tfile t' = tfile t \<and> tclaim t' = tclaim t \<and> tpartial t' = tpartial t"
    if "transfer_of R' k = Some t'" for k t'
    using R [OF that] by (auto simp: static_def)
  show ?thesis
    unfolding claims_ok_def
  proof (intro conjI allI impI)
    fix p c assume "active w' p = Some c"
    then show "c < length (claims w')" using ok_active [OF ok act] len(1) by fastforce
  next
    fix k t' assume "transfer_of R' k = Some t'"
    then show "tfile t' < length (store (wfs w'))" using t [of k t'] ok_file [OF ok] len(2) by fastforce
  next
    fix k t' c assume "transfer_of R' k = Some t'" "tclaim t' = Some c"
    then show "c < length (claims w')" using t [of k t'] ok_claim [OF ok] len(1) by fastforce
  next
    fix k t' c p assume "transfer_of R' k = Some t'" "tclaim t' = Some c" "active w' p = Some c"
    then show "p = tpartial t'" using t [of k t'] ok_path [OF ok] act by metis
  next
    fix k k' t1 t2 c assume "transfer_of R' k = Some t1" "transfer_of R' k' = Some t2" "tclaim t1 = Some c" "tclaim t2 = Some c"
    then show "k = k'" using t [of k t1] t [of k' t2] ok_owner [OF ok] by metis
  qed (rule len)
qed

lemma transfer_upd:
  "transfer_of (R(n := sr)) (m, i) = (if m = n then map_of (transfers sr) i else transfer_of R (m, i))"
  by (simp add: transfer_of_def)

lemma ok_drops:
  assumes "claims_ok R w" and "tame w w'" and "dropped_or_same i (R n) sr'"
  shows "claims_ok (R(n := sr')) w'"
  using assms(3)
  by (intro ok_keeps [OF assms(1,2)]) (auto simp: transfer_of_def dropped_or_same_def split: if_splits)

text \<open>A transfer that starts, with a claim of its own or the claim of the one it replaces.\<close>

lemma ok_starts:
  assumes ok: "claims_ok R w" and len: "length (claims w) \<le> length (claims w')"
    and st: "length (store (wfs w)) \<le> length (store (wfs w'))" "wf_fs (wfs w')" "tfile t < length (store (wfs w'))"
    and claim: "(tclaim t = None \<or> (\<exists>t0. map_of (transfers (R n)) i = Some t0 \<and> tclaim t0 = tclaim t \<and> tpartial t0 = tpartial t)) \<and>
        active w' = active w \<or>
      tclaim t = Some (length (claims w)) \<and> length (claims w) < length (claims w') \<and>
        active w' = (active w)(tpartial t \<mapsto> length (claims w))"
  shows "claims_ok (R(n := (R n)\<lparr>transfers := aput i t (transfers (R n))\<rparr>)) w'"
proof -
  let ?R = "R(n := (R n)\<lparr>transfers := aput i t (transfers (R n))\<rparr>)"
  have old: "transfer_of ?R k = (if k = (n, i) then Some t else transfer_of R k)" for k
    by (cases k) (auto simp: transfer_of_def)
  have act: "active w p = Some c \<and> c < length (claims w) \<or>
      c = length (claims w) \<and> tclaim t = Some c \<and> p = tpartial t \<and> c < length (claims w')"
    if "active w' p = Some c" for p c
    using that claim ok_active [OF ok, of p c] by (auto split: if_splits)
  have new: "c = length (claims w) \<and> c < length (claims w') \<or> (\<exists>t0. transfer_of R (n, i) = Some t0 \<and> tclaim t0 = Some c \<and> tpartial t0 = tpartial t)"
    if "tclaim t = Some c" for c
    using that claim by (auto simp: transfer_of_def)
  show ?thesis
    unfolding claims_ok_def
  proof (intro conjI allI impI)
    fix p c assume "active w' p = Some c"
    then show "c < length (claims w')" using act len by fastforce
  next
    fix k t' assume "transfer_of ?R k = Some t'"
    then show "tfile t' < length (store (wfs w'))" using ok_file [OF ok, of k t'] st by (auto simp: old split: if_splits)
  next
    fix k t' c assume "transfer_of ?R k = Some t'" "tclaim t' = Some c"
    then show "c < length (claims w')"
      using ok_claim [OF ok, of k _ c] new [of c] len by (fastforce simp: old split: if_splits)
  next
    fix k t' c p assume h: "transfer_of ?R k = Some t'" "tclaim t' = Some c" "active w' p = Some c"
    then show "p = tpartial t'"
      using act [OF h(3)] ok_path [OF ok, of k _ c p] ok_claim [OF ok, of k t' c] new [of c]
      by (auto simp: old split: if_splits)
  next
    fix k k' t1 t2 c
    assume h: "transfer_of ?R k = Some t1" "transfer_of ?R k' = Some t2" "tclaim t1 = Some c" "tclaim t2 = Some c"
    have clash: "k' = (n, i)" if "transfer_of R k' = Some t2" "tclaim t2 = Some c" "tclaim t = Some c" for k' t2
      using that new [of c] ok_claim [OF ok that(1,2)] ok_owner [OF ok that(1) _ that(2), of "(n, i)"] by auto
    show "k = k'"
      using h clash [of k t1] clash [of k' t2] ok_owner [OF ok, of k t1 k' t2 c]
      by (auto simp: old split: if_splits)
  qed (rule st)
qed

lemma ok_handleChunk:
  assumes ok: "claims_ok R w" and r: "handleChunk i body (R n) w = (f, sr', w')"
  shows "claims_ok (R(n := sr')) w'"
proof (cases "\<exists>o64 d t. decodeChunk body = Some (o64, d) \<and> map_of (transfers (R n)) i = Some t \<and>
    unat o64 + length d \<le> tsize t")
  case True
  then obtain o64 d t where b: "decodeChunk body = Some (o64, d)" and t: "map_of (transfers (R n)) i = Some t"
    and fit: "unat o64 + length d \<le> tsize t" by auto
  obtain q t1 w1 where pc: "placeChunk t (unat o64) d w = (q, t1, w1)" by (metis surj_pair)
  let ?sr = "(R n)\<lparr>transfers := aput i t1 (transfers (R n))\<rparr>"
  note pw = placeChunk_wrote [OF pc]
  have "claims_ok (R(n := ?sr)) w1"
    by (rule ok_keeps [OF ok tame_wrote]) (use pw t in \<open>auto simp: transfer_of_def split: if_splits\<close>)
  then have "claims_ok (R(n := sr')) w'"
    if "writeFailed i e ?sr w1 = (f, sr', w')" for e
    using ok_drops [of "R(n := ?sr)" w1 w' i n sr'] tame_writeFailed [OF that] writeFailed_drops [OF that] by simp
  then show ?thesis
    using r [unfolded handleChunk_fits [OF b t fit pc]] \<open>claims_ok (R(n := ?sr)) w1\<close> by (auto split: option.splits)
qed (use assms in \<open>auto simp: handleChunk_def Let_def split: option.splits if_splits\<close>)

text \<open>A refused INIT gives its claim back: the same claims are active as before.\<close>

lemma initFail_new:
  assumes cl: "claimed p c prev w w2" and w3: "active w3 = active w2" "claims w3 = claims w2"
    and fs: "length (store (wfs w)) \<le> length (store (wfs w3))" "wf_fs (wfs w) \<Longrightarrow> wf_fs (wfs w3)"
  shows "tame w (snd (initFail i r True p priv c prev w3))"
proof -
  have "active (unclaimPartial p c prev w3) = active w"
    using cl w3 by (auto simp: claimed_def unclaimPartial_def partialHeld_def fun_upd_idem split: option.splits)
  moreover have "length (claims w) \<le> length (claims w3)" using cl w3 by (auto simp: claimed_def)
  ultimately have "tame w (unclaimPartial p c prev w3)"
    using fs by (simp add: tame_def) (simp add: unclaimPartial_def)
  then show ?thesis using tame_trans [OF _ tame_try_remove] by (auto simp: initFail_def Let_def)
qed

lemma Stat_Truncate:
  assumes "file_Stat p ino fs1 = (info, fs2)"
  shows "length (store (if b then file_Truncate p ino fs2 else fs2)) = length (store fs1) \<and>
    wf_fs (if b then file_Truncate p ino fs2 else fs2) = wf_fs fs1"
  using assms by (auto simp: file_Stat_def sys_def file_Truncate_def file_Truncate0_def set_data_def wf_fs_def split: option.splits)

lemma ok_initOpen_new:
  assumes ok: "claims_ok R w" and cl: "claimed part c prev w w2"
    and r: "initOpen i sz hash name True part priv c prev b (R n) w2 = (f, sr', w')"
  shows "claims_ok (R(n := sr')) w'"
proof -
  obtain q fs1 where o: "os_OpenCreate part (wfs w2) = (q, fs1)" by (metis surj_pair)
  have len: "length (store (wfs w2)) = length (store (wfs w))" "wf_fs (wfs w2) = wf_fs (wfs w)"
    "length (claims w) \<le> length (claims w2)"
    using cl by (auto simp: claimed_def same_files_def wf_fs_def)
  have fs1: "length (store (wfs w)) \<le> length (store fs1)" "wf_fs fs1" "\<And>ino. q = Inr ino \<Longrightarrow> ino < length (store fs1)"
    using OpenCreate_wf [OF o] ok_wf [OF ok] len by auto
  have bad: "claims_ok R w4" if "initFail i msg True part priv c prev w3 = (g, w4)"
      "active w3 = active w2" "claims w3 = claims w2" "wfs w3 = fs1" for msg g w3 w4
    using ok_drops [OF ok initFail_new [OF cl, of w3], of i n "R n"] fs1 that
    by (simp add: dropped_or_same_def) (metis snd_conv)
  show ?thesis
  proof (cases "\<exists>ino. q = Inr ino \<and> \<not> (map_of (transfers (R n)) i = None \<and> length (transfers (R n)) \<ge> maxConcurrentTransfers)")
    case True
    then obtain ino where ino: "q = Inr ino"
      "\<not> (map_of (transfers (R n)) i = None \<and> length (transfers (R n)) \<ge> maxConcurrentTransfers)" by blast
    obtain info fs2 where st: "file_Stat part ino fs1 = (info, fs2)" by (metis surj_pair)
    note tr = Stat_Truncate [OF st, of "resumeOffset info sz = 0"]
    show ?thesis
      using r o ino st tr fs1 len cl
      by (auto simp: initOpen_def openFile_def Let_def claimed_def split: option.split intro!: ok_starts [OF ok])
  next
    case False
    then show ?thesis using r o bad by (auto simp: initOpen_def openFile_def split: sum.splits if_splits prod.splits)
  qed
qed

lemma ok_initOpen_prior:
  assumes ok: "claims_ok R w" and l: "looked w w2" and t: "map_of (transfers (R n)) i = Some t0"
    and r: "initOpen i sz hash name False (tpartial t0) priv (tclaim t0) prev b (R n) w2 = (f, sr', w')"
  shows "claims_ok (R(n := sr')) w'"
proof -
  obtain q fs1 where o: "os_OpenCreate (tpartial t0) (wfs w2) = (q, fs1)" by (metis surj_pair)
  have w2: "length (store (wfs w2)) = length (store (wfs w))" "wf_fs (wfs w2) = wf_fs (wfs w)"
    "claims w2 = claims w" "active w2 = active w"
    using l by (auto simp: looked_def same_files_def wf_fs_def)
  have fs1: "length (store (wfs w)) \<le> length (store fs1)" "wf_fs fs1" "\<And>ino. q = Inr ino \<Longrightarrow> ino < length (store fs1)"
    using OpenCreate_wf [OF o] ok_wf [OF ok] w2 by auto
  have bad: "claims_ok (R(n := R n)) (w2\<lparr>wfs := fs1\<rparr>)"
    by (rule ok_drops [OF ok]) (use fs1 w2 in \<open>auto simp: dropped_or_same_def tame_def\<close>)
  show ?thesis
  proof (cases q)
    case (Inr ino)
    obtain info fs2 where st: "file_Stat (tpartial t0) ino fs1 = (info, fs2)" by (metis surj_pair)
    note tr = Stat_Truncate [OF st, of "resumeOffset info sz = 0"]
    show ?thesis
      using r o Inr t st tr fs1 w2 by (auto simp: initOpen_def openFile_def Let_def intro!: ok_starts [OF ok])
  next
    case Inl
    then show ?thesis using r o bad by (auto simp: initOpen_def initFail_def)
  qed
qed

lemma initPrior_cases:
  assumes "initPrior i sr w = (prior, sr', w')"
  shows "tame w w' \<and> dropped_or_same i sr sr' \<and> (\<forall>t. prior = Some t \<longrightarrow> sr' = sr \<and> map_of (transfers sr) i = Some t)"
  using assms tame_holds initPrior_drops [OF assms]
  by (auto simp: initPrior_def split: option.splits prod.splits bool.splits)

lemma ok_handleInit:
  assumes ok: "claims_ok R w" and r: "handleInit env i body (R n) w = (f, sr', w')"
  shows "claims_ok (R(n := sr')) w'"
proof (cases "decodeInit body")
  case (Some v)
  obtain sz hash v' name where v: "v = (sz, hash, v', name)" by (metis surj_pair)
  obtain e fs1 where mk: "os_MkdirAll (partialDir (R n)) (wfs w) = (e, fs1)" by (metis surj_pair)
  have w1: "tame w (w\<lparr>wfs := fs1\<rparr>)"
    using mk by (auto simp: os_MkdirAll_def sys_def tame_def wf_fs_def split: option.splits)
  obtain prior sr1 w2 where pr: "initPrior i (R n) (w\<lparr>wfs := fs1\<rparr>) = (prior, sr1, w2)" by (metis surj_pair)
  note p = initPrior_cases [OF pr]
  let ?R = "R(n := sr1)"
  have ok1: "claims_ok ?R w2" using ok_drops [OF ok tame_trans [OF w1]] p by blast
  obtain s w3 where sel: "selectPartial env (filepath_Join [partialDir (R n), hex i]) (unat sz) prior (?R n) w2 = (s, w3)"
    by (metis surj_pair)
  have same: "claims_ok (R(n := R n)) (w\<lparr>wfs := fs1\<rparr>)"
    by (rule ok_drops [OF ok w1]) (simp add: dropped_or_same_def)
  have fin: "claims_ok (R(n := sr')) w'"
    if "e = None" and "\<not> (prior = None \<and> length (transfers sr1) \<ge> maxConcurrentTransfers)"
  proof (cases prior)
    case None
    note sn = selectPartial_new [OF sel [unfolded None]]
    show ?thesis
    proof (cases s)
      case (Inl x)
      then have "claims_ok (?R(n := sr1)) w3"
        using ok_drops [OF ok1 tame_looked, of w3 i n sr1] sn by (simp add: selected_new_def dropped_or_same_def)
      then show ?thesis using r Some v mk pr sel Inl that by (simp add: handleInit_def split: if_splits)
    next
      case (Inr x)
      then show ?thesis
        using r Some v mk pr sel that None sn ok_initOpen_new [OF ok1, of _ _ _ w3 i "unat sz" hash name _ _ n f sr' w']
        by (cases x) (auto simp: handleInit_def selected_new_def split: if_splits)
    qed
  next
    case (Some t)
    obtain q w4 where a: "admit env sr1 (tpartial t) (unat sz) w2 = (q, w4)" by (metis surj_pair)
    have l: "looked w2 w4" using admit_looked [OF a] by blast
    have t: "map_of (transfers (?R n)) i = Some t" using p Some by simp
    have "claims_ok (?R(n := sr1)) w4"
      using ok_drops [OF ok1 tame_looked [OF l], of i n sr1] by (simp add: dropped_or_same_def)
    moreover have "claims_ok (R(n := sr')) w'"
      if "initOpen i (unat sz) hash name False (tpartial t) (tprivate t) (tclaim t) None b sr1 w4 = (f, sr', w')" for b
      using ok_initOpen_prior [OF ok1 l t, of "unat sz" hash name "tprivate t" None b f sr' w'] that
      by (simp only: fun_upd_same fun_upd_upd)
    ultimately show ?thesis
      using r \<open>decodeInit body = Some v\<close> v mk pr that Some a
      by (cases q) (auto simp: handleInit_def selectPartial_def)
  qed
  show ?thesis
    using fin r Some v mk pr same ok1 by (auto simp: handleInit_def split: option.splits if_splits)
qed (use assms in \<open>auto simp: handleInit_def\<close>)

lemma ok_HandleFrame:
  assumes ok: "claims_ok R w" and r: "HandleFrame env f (R n) w = (a, sv, sr', w')"
  shows "claims_ok (R(n := sr')) w'"
proof -
  consider "sr' = R n" "w' = w" | (init) i b g where "handleInit env i b (R n) w = (g, sr', w')"
    | (chunk) i b g where "handleChunk i b (R n) w = (g, sr', w')"
    | (fin) i g where "handleDone env i (R n) w = (g, sv, sr', w')"
    | (abort) i where "discard i (R n) w = (sr', w')"
    using r by (auto simp: HandleFrame_def split: option.splits prod.splits if_splits)
  then show ?thesis
  proof cases
    case init then show ?thesis by (rule ok_handleInit [OF ok])
  next
    case chunk then show ?thesis by (rule ok_handleChunk [OF ok])
  next
    case fin then show ?thesis using ok_drops [OF ok tame_handleDone handleDone_drops] by blast
  next
    case (abort i)
    then have "tame w w'" "dropped_or_same i (R n) sr'"
      using tame_ended(1) [of w i "R n"] by (auto simp: discard_def dropped_or_same_def)
    then show ?thesis by (rule ok_drops [OF ok])
  qed (use ok in simp)
qed

section \<open>Connections on one directory\<close>

record rsys =
  rcv :: receivers
  rworld :: world

inductive rstep :: "rsys \<Rightarrow> rsys \<Rightarrow> bool" where
  frame: "rstep s (s\<lparr>rcv := (rcv s)(n := sr'), rworld := w'\<rparr>)"
    if "HandleFrame env f (rcv s n) (rworld s) = (a, sv, sr', w')"
| closed: "rstep s (s\<lparr>rcv := (rcv s)(n := sr'), rworld := w'\<rparr>)" if "Close (rcv s n) (rworld s) = (sr', w')"
| opened: "rstep s (s\<lparr>rcv := (rcv s)(n := newReceiver dir q)\<rparr>)" if "transfers (rcv s n) = []"
| elsewhere: "rstep s (s\<lparr>rworld := (rworld s)\<lparr>wfs := fs\<rparr>\<rparr>)"
    if "wf_fs fs" and "length (store (wfs (rworld s))) \<le> length (store fs)"

definition rinit :: "rsys \<Rightarrow> bool" where
  "rinit s \<longleftrightarrow> (\<forall>n. transfers (rcv s n) = []) \<and> wf_fs (wfs (rworld s)) \<and> claims (rworld s) = [] \<and>
     active (rworld s) = Map.empty \<and> handles (rworld s) = []"

definition rreach :: "rsys \<Rightarrow> bool" where
  "rreach s \<longleftrightarrow> (\<exists>s0. rinit s0 \<and> rstep\<^sup>*\<^sup>* s0 s)"

lemma rstep_ok: "rstep s s' \<Longrightarrow> claims_ok (rcv s) (rworld s) \<Longrightarrow> claims_ok (rcv s') (rworld s')"
proof (induction rule: rstep.induct)
  case (frame env f s n a sv sr' w')
  then show ?case using ok_HandleFrame [OF frame.prems frame.hyps] by (simp add: fun_upd_def)
next
  case (closed s n sr' w')
  have "tame (rworld s) w'" "transfers sr' = []"
    using closed.hyps tame_close [of "rworld s" "transfers (rcv s n)"] by (auto simp: Close_def)
  then have "claims_ok ((rcv s)(n := sr')) w'"
    by (intro ok_keeps [OF closed.prems]) (auto simp: transfer_of_def split: if_splits)
  then show ?case by (simp add: fun_upd_def)
next
  case (opened s n dir q)
  have "claims_ok ((rcv s)(n := newReceiver dir q)) (rworld s)"
    by (rule ok_keeps [OF opened.prems tame_refl])
      (auto simp: transfer_of_def newReceiver_def split: if_splits)
  then show ?case by (simp add: fun_upd_def)
next
  case (elsewhere fs s)
  then show ?case
    using ok_keeps [OF elsewhere.prems tame_files, of fs "rcv s"] by simp
qed

lemma receivers_ok:
  assumes "rreach s"
  shows "claims_ok (rcv s) (rworld s)"
proof -
  obtain s0 where i: "rinit s0" and r: "rstep\<^sup>*\<^sup>* s0 s" using assms by (auto simp: rreach_def)
  have "claims_ok (rcv s0) (rworld s0)" using i by (simp add: rinit_def claims_ok_def transfer_of_def)
  with r show ?thesis by (induction rule: rtranclp_induct) (auto intro: rstep_ok)
qed

text \<open>
  A connection starts a transfer and stalls; when its claim is stale, another connection sends
  the same file and takes it over.
\<close>

definition demo_idle :: rsys where
  "demo_idle = \<lparr>rcv = \<lambda>_. demo_sr, rworld = demo_world\<rparr>"

definition demo_w2 :: world where
  "demo_w2 = demo_w1\<lparr>wfs := (wfs demo_w1)\<lparr>fclock := staleClaimAfter\<rparr>\<rparr>"

lemma demo_takeover:
  "\<exists>w3. HandleFrame demo_env (init_frame demo_id [7, 8] ''f'') demo_sr demo_w2 =
     (Some (encodeOffset streamKindInitAck demo_id 0), [], demo_sr\<lparr>transfers := [(demo_id, demo_t\<lparr>thandle := 1, tclaim := Some 1\<rparr>)]\<rparr>, w3)"
  by (simp add: demo_init_simps demo_id_def demo_t_def demo_part_def demo_w1_def demo_w2_def claim_live_def)

lemma demo_two:
  "\<exists>s. rreach s \<and> rcv s 0 = demo_sr\<lparr>transfers := [(demo_id, demo_t)]\<rparr> \<and>
     rcv s 1 = demo_sr\<lparr>transfers := [(demo_id, demo_t\<lparr>thandle := 1, tclaim := Some 1\<rparr>)]\<rparr>"
proof -
  obtain w3 where h: "HandleFrame demo_env (init_frame demo_id [7, 8] ''f'') demo_sr demo_w2 =
     (Some (encodeOffset streamKindInitAck demo_id 0), [], demo_sr\<lparr>transfers := [(demo_id, demo_t\<lparr>thandle := 1, tclaim := Some 1\<rparr>)]\<rparr>, w3)"
    using demo_takeover by blast
  let ?R1 = "(\<lambda>_. demo_sr)(0 := demo_sr\<lparr>transfers := [(demo_id, demo_t)]\<rparr>)"
  let ?s1 = "\<lparr>rcv = ?R1, rworld = demo_w1\<rparr>" and ?s2 = "\<lparr>rcv = ?R1, rworld = demo_w2\<rparr>"
  let ?s3 = "\<lparr>rcv = ?R1(1 := demo_sr\<lparr>transfers := [(demo_id, demo_t\<lparr>thandle := 1, tclaim := Some 1\<rparr>)]\<rparr>), rworld = w3\<rparr>"
  have "rstep demo_idle ?s1"
    using rstep.frame [of demo_env "init_frame demo_id [7, 8] ''f''" demo_idle 0] demo_init by (simp add: demo_idle_def)
  moreover have "rstep ?s1 ?s2"
    using rstep.elsewhere [of "wfs demo_w2" ?s1] by (simp add: demo_w2_def demo_w1_def demo_world_def wf_fs_def)
  moreover have "rstep ?s2 ?s3"
    using rstep.frame [of demo_env "init_frame demo_id [7, 8] ''f''" ?s2 1] h by simp
  moreover have "rinit demo_idle"
    by (simp add: rinit_def demo_idle_def demo_sr_def newReceiver_def demo_world_def wf_fs_def)
  ultimately have "rreach ?s3" unfolding rreach_def by (meson rtranclp.rtrancl_into_rtrancl rtranclp.rtrancl_refl)
  then show ?thesis by (intro exI [of _ ?s3]) simp
qed

text \<open>
  C3. One writer for each \<^verbatim>\<open>.partial\<close> file: of two open transfers, on any connections, that write to
  the same file under a claim, at least one has lost its claim, and every write it attempts is
  refused without touching the file.
\<close>

theorem single_writer:
  assumes "rreach s" and "map_of (transfers (rcv s n)) i = Some t" and "map_of (transfers (rcv s n')) i' = Some t'"
    and "(n, i) \<noteq> (n', i')" and "tclaim t \<noteq> None" and "tclaim t' \<noteq> None" and "tpartial t = tpartial t'"
  shows "(\<forall>off d. writeAt t off d (rworld s) = (Some TakenOver, t, rworld s)) \<or>
    (\<forall>off d. writeAt t' off d (rworld s) = (Some TakenOver, t', rworld s))"
proof -
  obtain c c' where c: "tclaim t = Some c" "tclaim t' = Some c'" using assms(5,6) by blast
  have "c \<noteq> c'"
    using ok_owner [OF receivers_ok [OF assms(1)], of "(n, i)" t "(n', i')" t' c] c assms(2-4) by (auto simp: transfer_of_def)
  then have "active (rworld s) (tpartial t) \<noteq> Some c \<or> active (rworld s) (tpartial t') \<noteq> Some c'"
    using assms(7) by auto
  then show ?thesis using c by (auto simp: writeAt_def stillHolds_def)
qed

theorem single_writer_witness:
  "\<exists>s. rreach s \<and> ((\<forall>off d. writeAt demo_t off d (rworld s) = (Some TakenOver, demo_t, rworld s)) \<or>
     (\<forall>off d. writeAt (demo_t\<lparr>thandle := 1, tclaim := Some 1\<rparr>) off d (rworld s) = (Some TakenOver, demo_t\<lparr>thandle := 1, tclaim := Some 1\<rparr>, rworld s)))"
proof -
  obtain s where s: "rreach s" "rcv s 0 = demo_sr\<lparr>transfers := [(demo_id, demo_t)]\<rparr>"
    "rcv s 1 = demo_sr\<lparr>transfers := [(demo_id, demo_t\<lparr>thandle := 1, tclaim := Some 1\<rparr>)]\<rparr>" using demo_two by blast
  show ?thesis
    using single_writer [OF s(1), of 0 demo_id demo_t 1 demo_id "demo_t\<lparr>thandle := 1, tclaim := Some 1\<rparr>"] s
    by (intro exI [of _ s]) (simp add: demo_t_def)
qed

end
