(* ===== verification/StreamQuota.thy ===== *)
theory StreamQuota
  imports ServiceProps StreamClaims
begin

text \<open>
  The quota of the stream receiver: what admission guarantees of the bytes below the received
  directory while transfers run.  The bytes on disk together with the bytes that open transfers
  may still write are the potential of a receiver; only an accepted INIT raises it.
\<close>

section \<open>Bytes below a directory\<close>

definition entry_bytes :: "string \<Rightarrow> fsys \<Rightarrow> string \<times> nat \<Rightarrow> int" where
  "entry_bytes d fs e = (if below d (fst e) then fsize fs (snd e) else 0)"

lemma entry_nonneg [simp]: "0 \<le> entry_bytes d fs e"
  by (simp add: entry_bytes_def fsize_def)

lemma tree_entries:
  assumes "wf_fs fs"
  shows "tree_bytes d fs = sum_list (map (entry_bytes d fs) (names fs))"
proof -
  have "psize fs p = fsize fs i" if "(p, i) \<in> set (names fs)" for p i
    using assms that by (simp add: psize_def lookup_def wf_fs_def)
  then have "sum_list (map (psize fs) (filter (below d) (map fst xs))) = sum_list (map (entry_bytes d fs) xs)"
    if "set xs \<subseteq> set (names fs)" for xs
    using that by (induction xs) (auto simp: entry_bytes_def)
  then show ?thesis by (simp add: tree_bytes_def)
qed

lemma sum_pick:
  assumes "distinct (map fst xs)" and "map_of xs p = Some i"
  shows "sum_list (map f xs) = f (p, i) + (sum_list (map f (filter (\<lambda>(r, _). r \<noteq> p) xs)) :: int)"
  using assms
proof (induction xs)
  case (Cons x xs)
  show ?case
  proof (cases "fst x = p")
    case True
    then have "filter (\<lambda>(r, _). r \<noteq> p) xs = xs" using Cons.prems(1) by (intro filter_True) (auto simp: rev_image_eqI)
    then show ?thesis using True Cons.prems(2) by (cases x) simp
  qed (use Cons in \<open>auto split: prod.splits\<close>)
qed simp

lemma sum_filter_le: "sum_list (map (entry_bytes d fs) (filter P xs)) \<le> sum_list (map (entry_bytes d fs) xs)"
  by (induction xs) (auto intro: add_increasing)

text \<open>Names that go, a name that moves, a file that grows, an empty file that is made.\<close>

lemma tree_drop:
  assumes "wf_fs fs" and "names fs' = filter P (names fs)" and "store fs' = store fs"
  shows "tree_bytes d fs' \<le> tree_bytes d fs" and "wf_fs fs'"
proof -
  show w: "wf_fs fs'" using assms by (auto simp: wf_fs_def distinct_map_filter)
  have "entry_bytes d fs' = entry_bytes d fs" using assms(3) by (simp add: entry_bytes_def fsize_def fun_eq_iff)
  then show "tree_bytes d fs' \<le> tree_bytes d fs"
    using sum_filter_le [of d fs P "names fs"] by (simp add: tree_entries [OF w] tree_entries [OF assms(1)] assms(2))
qed

lemma tree_move:
  assumes wf: "wf_fs fs" and p: "lookup fs p = Some i" "below d p"
    and n: "names fs' = (q, i) # filter (\<lambda>(r, _). r \<noteq> p \<and> r \<noteq> q) (names fs)" and st: "store fs' = store fs"
  shows "tree_bytes d fs' \<le> tree_bytes d fs" and "wf_fs fs'" and "one_name fs \<Longrightarrow> one_name fs'"
proof -
  have mem: "(p, i) \<in> set (names fs)" using p(1) by (simp add: lookup_def map_of_SomeD)
  show w: "wf_fs fs'" using wf n st mem by (auto simp: wf_fs_def distinct_map_filter)
  have e: "entry_bytes d fs' = entry_bytes d fs" using st by (simp add: entry_bytes_def fsize_def fun_eq_iff)
  have "entry_bytes d fs (q, i) \<le> entry_bytes d fs (p, i)" using p(2) by (simp add: entry_bytes_def fsize_def)
  moreover have "sum_list (map (entry_bytes d fs) (filter (\<lambda>(r, _). r \<noteq> p \<and> r \<noteq> q) (names fs))) \<le>
      sum_list (map (entry_bytes d fs) (filter (\<lambda>(r, _). r \<noteq> p) (names fs)))"
    using sum_filter_le [of d fs "\<lambda>(r, _). r \<noteq> q" "filter (\<lambda>(r, _). r \<noteq> p) (names fs)"]
    by (simp add: case_prod_beta' conj_commute)
  ultimately show "tree_bytes d fs' \<le> tree_bytes d fs"
    using sum_pick [of "names fs" p i "entry_bytes d fs"] wf p(1)
    by (simp add: tree_entries [OF w] tree_entries [OF wf] n e wf_fs_def lookup_def)
  show "one_name fs'" if on: "one_name fs"
  proof -
    have "i \<notin> snd ` set (filter (\<lambda>(r, _). r \<noteq> p \<and> r \<noteq> q) (names fs))"
      using on mem unfolding one_name_def by (fastforce simp: distinct_map inj_on_def)
    then show ?thesis using on by (simp add: one_name_def n distinct_map_filter)
  qed
qed

lemma tree_grow:
  assumes wf: "wf_fs fs" and on: "one_name fs" and p: "lookup fs p = Some i" "below d p"
    and n: "names fs' = names fs" "length (store fs') = length (store fs)" and st: "\<forall>j. j \<noteq> i \<longrightarrow> store fs' ! j = store fs ! j"
  shows "tree_bytes d fs' = tree_bytes d fs - fsize fs i + fsize fs' i" and "wf_fs fs'" and "one_name fs'"
proof -
  have mem: "(p, i) \<in> set (names fs)" using p(1) by (simp add: lookup_def map_of_SomeD)
  show w: "wf_fs fs'" and "one_name fs'" using wf on n by (auto simp: wf_fs_def one_name_def)
  let ?R = "filter (\<lambda>(r, _). r \<noteq> p) (names fs)"
  have "snd e \<noteq> i" if "e \<in> set ?R" for e
    using that on mem unfolding one_name_def by (fastforce simp: distinct_map inj_on_def)
  then have "map (entry_bytes d fs') ?R = map (entry_bytes d fs) ?R"
    using st by (intro map_cong refl) (simp add: entry_bytes_def fsize_def)
  then have "sum_list (map (entry_bytes d fs') ?R) = sum_list (map (entry_bytes d fs) ?R)" by (rule arg_cong)
  moreover have "distinct (map fst (names fs))" "map_of (names fs) p = Some i"
    using wf p(1) by (simp_all add: wf_fs_def lookup_def)
  ultimately show "tree_bytes d fs' = tree_bytes d fs - fsize fs i + fsize fs' i"
    using sum_pick [of "names fs" p i "entry_bytes d fs"] sum_pick [of "names fs" p i "entry_bytes d fs'"] p(2)
    by (simp add: tree_entries [OF w] tree_entries [OF wf] n(1)) (simp add: entry_bytes_def)
qed

section \<open>The part of the file system a transfer leaves alone\<close>

definition outside :: "string set \<Rightarrow> fsys \<Rightarrow> fsys \<Rightarrow> bool" where
  "outside P fs fs' \<longleftrightarrow> (\<forall>q. q \<notin> P \<longrightarrow> lookup fs' q = lookup fs q \<and> psize fs' q = psize fs q)"

lemma outside_same: "names fs' = names fs \<Longrightarrow> store fs' = store fs \<Longrightarrow> outside P fs fs'"
  by (auto simp: outside_def lookup_def psize_def fsize_def split: option.split)

lemma outside_trans: "outside P a b \<Longrightarrow> outside P b c \<Longrightarrow> outside P a c"
  by (simp add: outside_def)

lemma outside_mono: "outside P a b \<Longrightarrow> P \<subseteq> Q \<Longrightarrow> outside Q a b"
  by (auto simp: outside_def)

lemma map_of_without: "map_of (filter (\<lambda>(r, _). r \<notin> P) xs) q = (if q \<in> P then None else map_of xs q)"
  by (induction xs) auto

lemma outside_drop:
  assumes "names fs' = filter (\<lambda>(r, _). r \<noteq> p) (names fs)" and "store fs' = store fs"
  shows "outside {p} fs fs'"
  using map_of_without [of "{p}" "names fs"] assms
  by (auto simp: outside_def lookup_def psize_def fsize_def split: option.split)

lemma outside_move:
  assumes "names fs' = (q, i) # filter (\<lambda>(r, _). r \<noteq> p \<and> r \<noteq> q) (names fs)" and "store fs' = store fs"
  shows "outside {p, q} fs fs'"
  using map_of_without [of "{p, q}" "names fs"] assms
  by (auto simp: outside_def lookup_def psize_def fsize_def split: option.split)

lemma one_name_inject:
  assumes "one_name fs" and "lookup fs p = Some i" and "lookup fs q = Some i"
  shows "p = q"
proof -
  have "(p, i) \<in> set (names fs)" "(q, i) \<in> set (names fs)" using assms by (auto simp: lookup_def dest: map_of_SomeD)
  then show ?thesis using assms(1) by (fastforce simp: one_name_def distinct_map inj_on_def)
qed

lemma outside_grow:
  assumes "one_name fs" and "lookup fs p = Some i" and "names fs' = names fs"
    and "\<forall>j. j \<noteq> i \<longrightarrow> store fs' ! j = store fs ! j"
  shows "outside {p} fs fs'"
proof -
  have l: "lookup fs' = lookup fs" using assms(3) by (simp add: lookup_def fun_eq_iff)
  have "psize fs' q = psize fs q" if "q \<noteq> p" for q
  proof -
    have "j \<noteq> i" if "lookup fs q = Some j" for j using one_name_inject [OF assms(1,2), of q] \<open>q \<noteq> p\<close> that by blast
    then show ?thesis using assms(4) by (auto simp: psize_def l fsize_def split: option.split)
  qed
  then show ?thesis by (simp add: outside_def l)
qed

section \<open>The invariant\<close>

text \<open>
  An open transfer has its \<^verbatim>\<open>.partial\<close> on disk, as long as its cursor, and its size passed the
  quota gate.
\<close>

definition quota_fit :: "srEnv \<Rightarrow> streamReceiver \<Rightarrow> fsys \<Rightarrow> bytes \<Rightarrow> recvTransfer \<Rightarrow> bool" where
  "quota_fit env sr fs i t \<longleftrightarrow> length i = 16 \<and> (tpartial t, tprivate t) \<in> partial_names env (shared_partial sr i) \<and>
     lookup fs (tpartial t) = Some (tfile t) \<and> fsize fs (tfile t) = int (tcursor t) \<and> int (tsize t) \<le> quotaBytes sr \<and>
     CHR ''/'' \<notin> set (tname t)"

definition calm :: "fsys \<Rightarrow> bool" where
  "calm fs \<longleftrightarrow> no_faults fs \<and> wf_fs fs \<and> one_name fs"

definition qinv :: "srEnv \<Rightarrow> streamReceiver \<Rightarrow> world \<Rightarrow> bool" where
  "qinv env sr w \<longleftrightarrow> calm (wfs w) \<and> srinv sr \<and> receivedDir sr \<noteq> [] \<and> 0 < quotaBytes sr \<and>
     (\<forall>(i, t) \<in> set (transfers sr). quota_fit env sr (wfs w) i t)"

text \<open>The bytes open transfers may still write, and the potential.\<close>

definition owed :: "(bytes \<times> recvTransfer) list \<Rightarrow> int" where
  "owed ts = sum_list (map (\<lambda>(_, t). int (tsize t) - int (tcursor t)) ts)"

definition potential :: "streamReceiver \<Rightarrow> world \<Rightarrow> int" where
  "potential sr w = tree_bytes (receivedDir sr) (wfs w) + owed (transfers sr)"

lemma owed_nonneg: "\<forall>(i, t) \<in> set ts. tcursor t \<le> tsize t \<Longrightarrow> 0 \<le> owed ts"
  by (induction ts) (auto simp: owed_def)

lemma owed_adel:
  assumes "distinct (map fst ts)" and "map_of ts i = Some t"
  shows "owed ts = int (tsize t) - int (tcursor t) + owed (adel i ts)"
  using sum_pick [OF assms, of "\<lambda>(_, t). int (tsize t) - int (tcursor t)"] by (simp add: owed_def adel_def)

lemma owed_adel_le:
  assumes "srinv sr" shows "owed (adel i (transfers sr)) \<le> owed (transfers sr)"
proof (cases "map_of (transfers sr) i")
  case None
  then have "adel i (transfers sr) = transfers sr"
    unfolding adel_def by (intro filter_True) (auto simp: map_of_eq_None_iff image_iff)
  then show ?thesis by simp
next
  case (Some t)
  then show ?thesis
    using owed_adel [of "transfers sr" i t] srinv_get [OF assms Some] assms by (simp add: srinv_def tinv_def)
qed

lemma owed_le:
  assumes "\<forall>(i, t) \<in> set ts. int (tsize t) \<le> q"
  shows "owed ts \<le> q * int (length ts)"
  using assms by (induction ts) (auto simp: owed_def algebra_simps)

lemma calm_same: "same_files a b \<Longrightarrow> calm b = calm a"
  by (auto simp: calm_def same_files_def no_faults_def wf_fs_def one_name_def)

lemma tree_same:
  assumes "names fs' = names fs" and "store fs' = store fs" shows "tree_bytes d fs' = tree_bytes d fs"
proof -
  have "psize fs' = psize fs"
    using assms by (intro ext) (simp add: psize_def lookup_def fsize_def split: option.split)
  then show ?thesis using assms(1) by (simp add: tree_bytes_def)
qed

text \<open>Distinct transfers have distinct files, none of which is a final name.\<close>

definition own_names :: "srEnv \<Rightarrow> streamReceiver \<Rightarrow> bytes \<Rightarrow> string set" where
  "own_names env sr i = fst ` partial_names env (shared_partial sr i) \<union>
     {filepath_Join [receivedDir sr, n] | n. plain_name n}"

lemma partial_prefix:
  assumes "receivedDir sr \<noteq> []" and "length i = 16" and "(p, priv) \<in> partial_names env (shared_partial sr i)"
  obtains h where "plain_name h" and "p = filepath_Join [partialDir sr, h]" and "take 32 h = hex i"
proof -
  obtain h where h: "plain_name h" "p = filepath_Join [partialDir sr, h]"
    "h = (if priv then hex i @ drop (length (hex i)) h else hex i)" by (rule partial_path [OF assms])
  obtain x where "h = hex i @ x" using h(3) by (metis append_Nil2)
  then have "take 32 h = hex i" using assms(2) by simp
  then show ?thesis using that h by blast
qed

lemma own_names_apart:
  assumes d: "receivedDir sr \<noteq> []" and i: "length i = 16" and j: "length j = 16" "j \<noteq> i"
    and p: "(p, priv) \<in> partial_names env (shared_partial sr j)"
  shows "p \<notin> own_names env sr i"
proof -
  have pd: "partialDir sr \<noteq> []" using Join_elems(2) [OF d plain_partial] by (simp add: partialDir_def)
  obtain h where h: "plain_name h" "p = filepath_Join [partialDir sr, h]" "take 32 h = hex j"
    by (rule partial_prefix [OF d j(1) p])
  have "p \<noteq> filepath_Join [receivedDir sr, n]" if "plain_name n" for n
    using Join_levels [OF d plain_partial h(1) that] by (auto simp: h(2) partialDir_def)
  moreover have "p \<noteq> q" if q: "(q, pv) \<in> partial_names env (shared_partial sr i)" for q pv
  proof -
    obtain g where g: "plain_name g" "q = filepath_Join [partialDir sr, g]" "take 32 g = hex i"
      by (rule partial_prefix [OF d i q])
    then show ?thesis using h j(2) Join_inject [OF pd h(1) g(1)] by auto
  qed
  ultimately show ?thesis unfolding own_names_def by fastforce
qed

lemma own_partial: "(p, priv) \<in> partial_names env (shared_partial sr i) \<Longrightarrow> p \<in> own_names env sr i"
  by (force simp: own_names_def)

text \<open>The other transfers, when only the names of one transfer change.\<close>

lemma others_fit:
  assumes inv: "qinv env sr w" and i: "length i = 16" and out: "outside (own_names env sr i) (wfs w) fs'"
    and sr': "receivedDir sr' = receivedDir sr" "quotaBytes sr' = quotaBytes sr"
    and t: "(j, t) \<in> set (transfers sr)" "j \<noteq> i"
  shows "quota_fit env sr' fs' j t"
proof -
  have q: "quota_fit env sr (wfs w) j t" using inv t(1) by (auto simp: qinv_def)
  then have "tpartial t \<notin> own_names env sr i"
    using own_names_apart [OF _ i _ t(2)] inv by (auto simp: quota_fit_def qinv_def)
  then have "lookup fs' (tpartial t) = Some (tfile t)" "psize fs' (tpartial t) = psize (wfs w) (tpartial t)"
    using out q by (auto simp: outside_def quota_fit_def)
  then show ?thesis using q sr' by (simp add: quota_fit_def psize_def shared_partial_def partialDir_def)
qed

text \<open>The steps by which a transfer ends: no byte more below the directory, the others untouched.\<close>

definition shrinks :: "srEnv \<Rightarrow> streamReceiver \<Rightarrow> bytes \<Rightarrow> fsys \<Rightarrow> fsys \<Rightarrow> bool" where
  "shrinks env sr i fs fs' \<longleftrightarrow> calm fs' \<and> outside (own_names env sr i) fs fs' \<and>
     tree_bytes (receivedDir sr) fs' \<le> tree_bytes (receivedDir sr) fs"

lemma shrinks_trans: "shrinks env sr i a b \<Longrightarrow> shrinks env sr i b c \<Longrightarrow> shrinks env sr i a c"
  by (auto simp: shrinks_def intro: outside_trans)

lemma shrinks_same: "calm fs \<Longrightarrow> same_files fs fs' \<Longrightarrow> shrinks env sr i fs fs'"
  using tree_same [of fs' fs] outside_same [of fs' fs] calm_same [of fs fs'] by (simp add: shrinks_def same_files_def)

lemma shrinks_less:
  assumes "calm fs" and "p \<in> own_names env sr i" and "names fs' = filter (\<lambda>(r, _). r \<noteq> p) (names fs)"
    and "store fs' = store fs" and "no_faults fs'"
  shows "shrinks env sr i fs fs'"
  using assms tree_drop [OF _ assms(3,4)] outside_mono [OF outside_drop [of fs' p fs], of "own_names env sr i"]
  by (auto simp: shrinks_def calm_def one_name_def distinct_map_filter)

lemma shrinks_Remove:
  assumes "calm fs" and "p \<in> own_names env sr i" and "os_Remove p fs = (r, fs')"
  shows "shrinks env sr i fs fs'"
proof (cases "lookup fs p")
  case None
  then show ?thesis
    using assms shrinks_same [OF assms(1), of fs'] by (auto simp: os_Remove_def calm_def sys_ok lookup_def same_files_def)
next
  case (Some j)
  then show ?thesis
    using assms shrinks_less [OF assms(1,2), of fs'] by (auto simp: os_Remove_def calm_def sys_ok lookup_def no_faults_def)
qed

lemma shrinks_release:
  assumes "calm (wfs w)" and "tpartial t \<in> own_names env sr i"
  shows "shrinks env sr i (wfs w) (wfs (release t w))"
proof -
  obtain r fs' where rm: "os_Remove (tpartial t) (wfs w) = (r, fs')" by (metis surj_pair)
  have "wfs (release t w) = (if tprivate t then fs' else wfs w)"
    using rm by (simp add: release_def releasePartial_def unclaimPartial_def try_remove_def Let_def)
  then show ?thesis
    using shrinks_Remove [OF assms rm] shrinks_same [OF assms(1), of "wfs w"] by simp
qed

lemma shrinks_Rename:
  assumes c: "calm fs" and p: "p \<in> own_names env sr i" "below (receivedDir sr) p" and q: "q \<in> own_names env sr i"
    and r: "os_Rename p q fs = (e, fs')"
  shows "shrinks env sr i fs fs'"
proof (cases "lookup fs p")
  case None
  then show ?thesis
    using assms shrinks_same [OF c, of fs'] by (auto simp: os_Rename_def calm_def sys_ok lookup_def same_files_def)
next
  case (Some j)
  then have n: "names fs' = (q, j) # filter (\<lambda>(r, _). r \<noteq> p \<and> r \<noteq> q) (names fs)" "store fs' = store fs" "no_faults fs'"
    using r c by (auto simp: os_Rename_def calm_def sys_ok lookup_def no_faults_def)
  then show ?thesis
    using tree_move [OF _ Some p(2) n(1,2)] c outside_mono [OF outside_move [OF n(1,2)], of "own_names env sr i"] p(1) q
    by (auto simp: shrinks_def calm_def)
qed

text \<open>A step of the receiver that does not raise the potential.\<close>

definition quota_down :: "srEnv \<Rightarrow> streamReceiver \<Rightarrow> world \<Rightarrow> streamReceiver \<Rightarrow> world \<Rightarrow> bool" where
  "quota_down env sr w sr' w' \<longleftrightarrow> qinv env sr' w' \<and> receivedDir sr' = receivedDir sr \<and> quotaBytes sr' = quotaBytes sr \<and>
     potential sr' w' \<le> potential sr w"

lemma down_drops:
  assumes inv: "qinv env sr w" and i: "length i = 16" and sh: "shrinks env sr i (wfs w) (wfs w')"
  shows "quota_down env sr w (sr\<lparr>transfers := adel i (transfers sr)\<rparr>) w'"
proof -
  let ?sr = "sr\<lparr>transfers := adel i (transfers sr)\<rparr>"
  have "quota_fit env ?sr (wfs w') j t" if "(j, t) \<in> set (transfers ?sr)" for j t
    using others_fit [OF inv i, of "wfs w'" ?sr j t] sh that by (simp add: shrinks_def)
  then show ?thesis
    using inv sh srinv_adel [of sr i] owed_adel_le [of sr i] by (auto simp: quota_down_def qinv_def shrinks_def potential_def)
qed

lemma down_alike:
  assumes inv: "qinv env sr w" and same: "names (wfs w') = names (wfs w)" "store (wfs w') = store (wfs w)"
    "opFault (wfs w') = opFault (wfs w)"
  shows "quota_down env sr w sr w'"
proof -
  have "quota_fit env sr (wfs w') j t" if "(j, t) \<in> set (transfers sr)" for j t
    using inv that same by (fastforce simp: qinv_def quota_fit_def lookup_def fsize_def)
  moreover have "calm (wfs w')" using inv same by (simp add: qinv_def calm_def no_faults_def wf_fs_def one_name_def)
  ultimately show ?thesis
    using inv same tree_same [of "wfs w'" "wfs w"] by (auto simp: quota_down_def qinv_def potential_def)
qed

lemma down_same: "qinv env sr w \<Longrightarrow> same_files (wfs w) (wfs w') \<Longrightarrow> quota_down env sr w sr w'"
  by (rule down_alike) (simp_all add: same_files_def)

lemma down_trans:
  assumes "quota_down env sr w sr1 w1" and "quota_down env sr1 w1 sr2 w2"
  shows "quota_down env sr w sr2 w2"
  using assms by (auto simp: quota_down_def)

lemma down_discard:
  assumes inv: "qinv env sr w" and i: "length i = 16" and sh: "shrinks env sr i (wfs w) (wfs w1)"
    and r: "discard i sr w1 = (sr', w') \<or> forget i sr w1 = (sr', w')"
  shows "quota_down env sr w sr' w'"
proof -
  have "shrinks env sr i (wfs w1) (wfs w')"
  proof (cases "map_of (transfers sr) i")
    case None
    then show ?thesis using r sh shrinks_same [of "wfs w1" "wfs w1"] by (auto simp: discard_def forget_def shrinks_def)
  next
    case (Some t)
    then have "tpartial t \<in> own_names env sr i"
      using inv own_partial [of "tpartial t" "tprivate t"] by (auto simp: qinv_def quota_fit_def dest!: map_of_SomeD)
    then show ?thesis using r Some sh shrinks_release [of w1 t env sr i] by (auto simp: discard_def forget_def shrinks_def)
  qed
  then show ?thesis using down_drops [OF inv i shrinks_trans [OF sh]] r by (auto simp: discard_def forget_def)
qed

section \<open>DONE\<close>

definition plain_finals :: "srEnv \<Rightarrow> bool" where
  "plain_finals env \<longleftrightarrow> (\<forall>n q b. CHR ''/'' \<notin> set b \<longrightarrow> plain_name (nameSuffix env n q b))"

lemma partial_below:
  assumes "receivedDir sr \<noteq> []" and "length i = 16" and "(p, priv) \<in> partial_names env (shared_partial sr i)"
  shows "below (receivedDir sr) p"
proof -
  obtain h where h: "plain_name h" "p = filepath_Join [partialDir sr, h]" by (rule partial_prefix [OF assms])
  show ?thesis using below_deeper [OF below_Join [OF assms(1) plain_partial] h(1)] by (simp add: h(2) partialDir_def)
qed

lemma qinv_fit: "qinv env sr w \<Longrightarrow> map_of (transfers sr) i = Some t \<Longrightarrow> quota_fit env sr (wfs w) i t"
  by (auto simp: qinv_def dest: map_of_SomeD)

lemma down_doneCommit:
  assumes inv: "qinv env sr w" and i: "length i = 16" and t: "map_of (transfers sr) i = Some t" and pl: "plain_finals env"
    and sh: "shrinks env sr i (wfs w) (wfs w0)" and r: "doneCommit env i t sr w0 = (f, sv, sr', w')"
  shows "quota_down env sr w sr' w'"
proof -
  let ?n = "nameSuffix env (now w0) (wseq w0 + 1) (tname t)" and ?p = "tpartial t"
  let ?q = "filepath_Join [receivedDir sr, ?n]" and ?w = "(closeFile (thandle t) w0)\<lparr>wseq := wseq w0 + 1\<rparr>"
  note fit = qinv_fit [OF inv t]
  have p: "?p \<in> own_names env sr i" "below (receivedDir sr) ?p"
    using fit own_partial partial_below inv by (auto simp: quota_fit_def qinv_def)
  have q: "?q \<in> own_names env sr i" using pl fit by (auto simp: own_names_def plain_finals_def quota_fit_def)
  have s0: "shrinks env sr i (wfs w) (wfs ?w)" using sh by simp
  obtain b w1 where h: "stillHolds ?p (tclaim t) ?w = (b, w1)" by (metis surj_pair)
  have s1: "shrinks env sr i (wfs w) (wfs w1)" using sh stillHolds_wrote [OF h, of 0] by simp
  obtain e2 fs2 where rn: "os_Rename ?p ?q (wfs w1) = (e2, fs2)" by (metis surj_pair)
  have s2: "shrinks env sr i (wfs w) fs2"
    using shrinks_trans [OF s1 shrinks_Rename [OF _ p q rn]] s1 by (simp add: shrinks_def)
  obtain e3 fs3 where rm: "os_Remove ?q fs2 = (e3, fs3)" by (metis surj_pair)
  have s3: "shrinks env sr i (wfs w) fs3"
    using shrinks_trans [OF s2 shrinks_Remove [OF _ q rm]] s2 by (simp add: shrinks_def)
  have fg: "quota_down env sr w sr1 w4" if "forget i sr v = (sr1, w4)" "shrinks env sr i (wfs w) (wfs v)" for v sr1 w4
    using down_discard [OF inv i that(2)] that(1) by blast
  show ?thesis
    using r h rn rm s0 s1 s2 s3 by (auto simp: doneCommit_def Let_def split: option.splits prod.splits bool.splits intro!: fg)
qed

lemma down_handleDone:
  assumes inv: "qinv env sr w" and i: "length i = 16" and pl: "plain_finals env"
    and r: "handleDone env i sr w = (f, sv, sr', w')"
  shows "quota_down env sr w sr' w'"
proof (cases "map_of (transfers sr) i")
  case None
  then show ?thesis using r down_same [OF inv, of w] by (simp add: handleDone_def)
next
  case (Some t)
  obtain b w1 where h: "stillHolds (tpartial t) (tclaim t) w = (b, w1)" by (metis surj_pair)
  obtain v w2 where dv: "doneVerify t w1 = (v, w2)" by (metis surj_pair)
  have same: "same_files (wfs w) (wfs w1)" "same_files (wfs w) (wfs w2)"
    using stillHolds_touched [OF h] doneVerify_touched [OF dv] same_files_trans by (auto simp: touched_def)
  have sh: "shrinks env sr i (wfs w) (wfs w1)" "shrinks env sr i (wfs w) (wfs w2)"
    using inv same shrinks_same by (auto simp: qinv_def)
  show ?thesis
    using r Some h dv down_discard [OF inv i sh(1)] down_discard [OF inv i sh(2)] down_same [OF inv same(2)]
      down_doneCommit [OF inv i Some pl sh(2)]
    by (auto simp: handleDone_def split: bool.splits sum.splits prod.splits if_splits)
qed

section \<open>CHUNK\<close>

text \<open>Without faults the file is as long as the cursor, and no write fails because the disk is full.\<close>

definition sized :: "recvTransfer \<Rightarrow> world \<Rightarrow> bool" where
  "sized t w \<longleftrightarrow> no_faults (wfs w) \<and> tfile t < length (store (wfs w)) \<and> fsize (wfs w) (tfile t) = int (tcursor t)"

definition not_full :: "werr option \<Rightarrow> bool" where
  "not_full r \<longleftrightarrow> (\<forall>e. r = Some e \<longrightarrow> \<not> isDiskFull e)"

lemma writeAt_sized:
  assumes "sized t w" and r: "writeAt t (tcursor t) d w = (r, t', w')"
  shows "sized t' w' \<and> not_full r"
proof -
  obtain b w1 where h: "stillHolds (tpartial t) (tclaim t) w = (b, w1)" by (metis surj_pair)
  have w1: "wfs w1 = wfs w" using stillHolds_wrote [OF h, of 0] by simp
  have len: "length (overwrite (fdata (store (wfs w) ! tfile t)) (tcursor t) d) = tcursor t + length d"
    using assms(1) by (simp add: overwrite_def sized_def fsize_def)
  show ?thesis
    using r h w1 assms(1) len
    by (auto simp: writeAt_def sized_def not_full_def isDiskFull_def closedErr_def diskFullErrors_def fsize_def file_WriteAt_def
        sys_ok set_data_def no_faults_def Let_def split: bool.splits if_splits)
qed

lemma drain_sized: "sized t w \<Longrightarrow> drain t w = (r, t', w') \<Longrightarrow> sized t' w' \<and> not_full r"
proof (induction t w rule: drain.induct)
  case (1 t w)
  show ?case
  proof (cases "map_of (tpending t) (tcursor t)")
    case None
    then show ?thesis using 1 by (simp add: drain.simps [of t w] not_full_def)
  next
    case (Some d)
    obtain r1 t1 w1 where w1: "writeAt (taken t d) (tcursor t) d w = (r1, t1, w1)" by (metis surj_pair)
    have s1: "sized t1 w1" "not_full r1"
      using writeAt_sized [of "taken t d" w d r1 t1 w1] w1 "1.prems"(1) by (simp_all add: taken_def sized_def)
    show ?thesis
    proof (cases r1)
      case None
      have dr: "drain t1 w1 = (r, t', w')"
        using "1.prems"(2) Some w1 None by (simp add: drain.simps [of t w] taken_def)
      show ?thesis
        using "1.IH" [OF Some refl, of r1 "(t1, w1)" t1 w1] w1 s1 None dr by (simp add: taken_def)
    next
      case (Some e)
      then show ?thesis
        using "1.prems"(2) \<open>map_of _ _ = Some d\<close> w1 s1 by (auto simp: drain.simps [of t w] taken_def)
    qed
  qed
qed

lemma placeChunk_sized:
  assumes s: "sized t w" and r: "placeChunk t off d w = (r, t', w')"
  shows "sized t' w' \<and> not_full r"
proof (cases "off = tcursor t")
  case True
  obtain r1 t1 w1 where w1: "writeAt t off d w = (r1, t1, w1)" by (metis surj_pair)
  note s1 = writeAt_sized [OF s w1 [unfolded True]]
  show ?thesis using r w1 True s1 drain_sized [of t1 w1 r t' w'] by (auto simp: placeChunk_def split: option.splits)
qed (use assms in \<open>auto simp: placeChunk_def sized_def not_full_def split: if_splits\<close>)

text \<open>A transfer that is put into the table, with its own files changed.\<close>

lemma qinv_put:
  assumes inv: "qinv env sr w" and i: "length i = 16" and c: "calm (wfs w')"
    and out: "outside (own_names env sr i) (wfs w) (wfs w')" and fit: "quota_fit env sr (wfs w') i t"
    and s: "srinv (sr\<lparr>transfers := aput i t (transfers sr)\<rparr>)"
  shows "qinv env (sr\<lparr>transfers := aput i t (transfers sr)\<rparr>) w'"
proof -
  let ?sr = "sr\<lparr>transfers := aput i t (transfers sr)\<rparr>"
  have "quota_fit env ?sr (wfs w') j u" if "(j, u) \<in> set (transfers ?sr)" for j u
    using that fit others_fit [OF inv i out, of ?sr j u] by (auto simp: quota_fit_def shared_partial_def partialDir_def)
  then show ?thesis using inv c s by (auto simp: qinv_def)
qed

lemma potential_put:
  "potential (sr\<lparr>transfers := aput i t (transfers sr)\<rparr>) w' =
     tree_bytes (receivedDir sr) (wfs w') + (int (tsize t) - int (tcursor t)) + owed (adel i (transfers sr))"
  by (simp add: potential_def owed_def aput_adel)

lemma down_chunk:
  assumes inv: "qinv env sr w" and t: "map_of (transfers sr) i = Some t"
    and fit: "off + length d \<le> tsize t" and r: "placeChunk t off d w = (r, t1, w1)"
  shows "quota_down env sr w (sr\<lparr>transfers := aput i t1 (transfers sr)\<rparr>) w1 \<and> not_full r"
proof -
  let ?sr = "sr\<lparr>transfers := aput i t1 (transfers sr)\<rparr>" and ?d = "receivedDir sr"
  note q = qinv_fit [OF inv t]
  have calm: "wf_fs (wfs w)" "one_name (wfs w)" "no_faults (wfs w)" and s: "srinv sr" using inv by (auto simp: qinv_def calm_def)
  have l: "lookup (wfs w) (tpartial t) = Some (tfile t)" and i: "length i = 16" and p: "below ?d (tpartial t)"
    using q inv partial_below by (auto simp: quota_fit_def qinv_def)
  have "(tpartial t, tfile t) \<in> set (names (wfs w))" using l by (simp add: lookup_def map_of_SomeD)
  then have "tfile t < length (store (wfs w))" using calm(1) by (auto simp: wf_fs_def)
  then have "sized t w" using q calm by (simp add: sized_def quota_fit_def)
  note sz = placeChunk_sized [OF this r]
  have wr: "wrote (tfile t) w w1" and st: "static t1 = static t" using placeChunk_wrote [OF r] by auto
  note n = wr [unfolded wrote_def]
  have grow: "tree_bytes ?d (wfs w1) = tree_bytes ?d (wfs w) - fsize (wfs w) (tfile t) + fsize (wfs w1) (tfile t)"
    "wf_fs (wfs w1)" "one_name (wfs w1)"
    using tree_grow [OF calm(1,2) l p] n by blast+
  then have c1: "calm (wfs w1)" using sz by (simp add: calm_def sized_def)
  have out: "outside (own_names env sr i) (wfs w) (wfs w1)"
    using outside_mono [OF outside_grow [OF calm(2) l]] n q own_partial by (fastforce simp: quota_fit_def)
  have fit1: "quota_fit env sr (wfs w1) i t1"
    using q sz st n by (auto simp: quota_fit_def static_def sized_def lookup_def)
  have s1: "srinv ?sr" using placeChunk_tinv [OF srinv_get [OF s t] fit r] s t by (intro srinv_aput) auto
  have "potential ?sr w1 = potential sr w"
    using grow(1) q sz st s owed_adel [of "transfers sr" i t] t
    by (simp add: potential_put) (simp add: potential_def quota_fit_def sized_def static_def srinv_def)
  then show ?thesis using qinv_put [OF inv i c1 out fit1 s1] sz by (simp add: quota_down_def)
qed

lemma down_handleChunk:
  assumes inv: "qinv env sr w" and i: "length i = 16" and r: "handleChunk i body sr w = (f, sr', w')"
  shows "quota_down env sr w sr' w'"
proof (cases "\<exists>o64 d t. decodeChunk body = Some (o64, d) \<and> map_of (transfers sr) i = Some t \<and>
    unat o64 + length d \<le> tsize t")
  case True
  then obtain o64 d t where b: "decodeChunk body = Some (o64, d)" and t: "map_of (transfers sr) i = Some t"
    and fit: "unat o64 + length d \<le> tsize t" by auto
  obtain q t1 w1 where pc: "placeChunk t (unat o64) d w = (q, t1, w1)" by (metis surj_pair)
  let ?sr1 = "sr\<lparr>transfers := aput i t1 (transfers sr)\<rparr>"
  have d1: "quota_down env sr w ?sr1 w1" and e: "not_full q" using down_chunk [OF inv t fit pc] by auto
  have q1: "qinv env ?sr1 w1" using d1 by (simp add: quota_down_def)
  have fail: "quota_down env ?sr1 w1 sr' w'" if "writeFailed i x ?sr1 w1 = (f, sr', w')" "q = Some x" for x
  proof (cases "x = TakenOver")
    case True
    have "shrinks env ?sr1 i (wfs w1) (wfs w1)" using q1 shrinks_same by (simp add: qinv_def)
    then show ?thesis
      using that True down_discard [OF q1 i, of w1 sr' w'] by (auto simp: writeFailed_def split: prod.splits)
  next
    case False
    then have "\<not> isDiskFull x" using e that(2) by (simp add: not_full_def)
    then show ?thesis using that False down_same [OF q1, of w1] by (simp add: writeFailed_def abandonIfDiskFull_def)
  qed
  show ?thesis
    using r [unfolded handleChunk_fits [OF b t fit pc]] d1 down_trans [OF d1] fail by (auto split: option.splits)
qed (use r down_same [OF inv, of w] in \<open>auto simp: handleChunk_def Let_def split: option.splits if_splits\<close>)

section \<open>INIT\<close>

lemma walk_entries:
  "no_faults fs \<Longrightarrow> (\<forall>p \<in> set ps. lookup fs p \<noteq> None) \<Longrightarrow> fst (walk_sizes ps fs) = map (\<lambda>p. (p, psize fs p)) ps"
proof (induction ps arbitrary: fs)
  case (Cons p ps)
  then obtain i where i: "lookup fs p = Some i" by auto
  let ?fs = "fs\<lparr>ops := Suc (ops fs)\<rparr>"
  have st: "os_Stat p fs = (Inr (fmod (store fs ! i), fsize fs i), ?fs)" by (rule Stat_no_faults [OF Cons.prems(1) i])
  have "no_faults ?fs" using Cons.prems(1) by simp
  then show ?case using Cons.IH [of ?fs] Cons.prems(2) st i by (auto simp: psize_def split: prod.splits)
qed simp

lemma sum_list_psize [simp]: "0 \<le> sum_list (map (psize fs) ps)"
  by (induction ps) (auto simp: psize_def fsize_def split: option.split intro: add_nonneg_nonneg)

lemma dirSizeExcluding_exact:
  assumes "calm fs" and "below dir p"
  shows "fst (dirSizeExcluding dir p fs) = tree_bytes dir fs - psize fs p" and "0 \<le> tree_bytes dir fs - psize fs p"
proof -
  let ?fs = "fs\<lparr>ops := Suc (ops fs)\<rparr>" and ?ps = "filter (below dir) (map fst (names fs))"
  have "\<forall>p \<in> set ?ps. lookup ?fs p \<noteq> None"
    by (auto simp: lookup_def map_of_eq_None_iff rev_image_eqI)
  then have "fst (WalkDir dir fs) = map (\<lambda>p. (p, psize fs p)) ?ps"
    using walk_entries [of ?fs ?ps] assms by (auto simp: WalkDir_def calm_def sys_ok no_faults_def psize_def)
  then have sum: "fst (dirSizeExcluding dir p fs) = sum_list (map (psize fs) (filter (\<lambda>q. q \<noteq> p) ?ps))"
    by (auto simp: dirSizeExcluding_def filter_map comp_def split: prod.split)
  note sum
  moreover have "sum_list (map (psize fs) xs) = psize fs p + sum_list (map (psize fs) (filter (\<lambda>q. q \<noteq> p) xs))"
    if "distinct xs" "p \<in> set xs" for xs
  proof -
    have "filter (\<lambda>q. q \<noteq> p) xs = remove1 p xs"
      using that(1) by (auto simp: distinct_remove1_removeAll removeAll_filter_not_eq intro: filter_cong)
    then show ?thesis using sum_list_map_remove1 [OF that(2), of "psize fs"] by simp
  qed
  moreover have "filter (\<lambda>q. q \<noteq> p) xs = xs \<and> psize fs p = 0" if "p \<notin> set ?ps" "xs = ?ps" for xs
  proof -
    have "p \<notin> fst ` set (names fs)" using that(1) assms(2) by auto
    then have "map_of (names fs) p = None" by (simp add: map_of_eq_None_iff)
    then have "psize fs p = 0" by (simp add: psize_def lookup_def)
    moreover have "filter (\<lambda>q. q \<noteq> p) ?ps = ?ps" using that(1) by (intro filter_True) blast
    ultimately show ?thesis by (simp only: that(2))
  qed
  ultimately show "fst (dirSizeExcluding dir p fs) = tree_bytes dir fs - psize fs p"
    using assms(1) by (cases "p \<in> set ?ps") (fastforce simp: tree_bytes_def calm_def wf_fs_def)+
  then show "0 \<le> tree_bytes dir fs - psize fs p"
    using sum sum_list_psize [of fs "filter (\<lambda>q. q \<noteq> p) ?ps"] by (simp only:)
qed

text \<open>What a passed quota gate says.\<close>

definition room_for :: "streamReceiver \<Rightarrow> string \<Rightarrow> nat \<Rightarrow> fsys \<Rightarrow> bool" where
  "room_for sr p sz fs \<longleftrightarrow> int sz \<le> quotaBytes sr \<and>
     (sz = 0 \<or> tree_bytes (receivedDir sr) fs - psize fs p + int sz \<le> quotaBytes sr)"

lemma admit_room:
  assumes "calm (wfs w)" and "below (receivedDir sr) p" and "0 < quotaBytes sr" and "admit env sr p sz w = (Inr b, w')"
  shows "room_for sr p sz (wfs w)"
  using assms(3,4) dirSizeExcluding_exact [OF assms(1,2)]
  by (auto simp: admit_def quotaGate_def room_for_def Let_def split: prod.splits sum.splits if_splits option.splits)

lemma room_same: "same_files a b \<Longrightarrow> room_for sr p sz b = room_for sr p sz a"
  using tree_same [of b a] by (auto simp: room_for_def same_files_def psize_def lookup_def fsize_def split: option.split)

text \<open>The file an INIT selects was admitted, in a world with the same files.\<close>

definition admitted :: "srEnv \<Rightarrow> streamReceiver \<Rightarrow> string \<Rightarrow> nat \<Rightarrow> fsys \<Rightarrow> bool" where
  "admitted env sr p sz fs \<longleftrightarrow> (\<exists>w b w'. same_files fs (wfs w) \<and> admit env sr p sz w = (Inr b, w'))"

lemma admitClaim_admits:
  assumes r: "admitClaim env shared sz part0 priv0 sr w = (Inr (part, priv, cl, prev, b), w')"
  shows "admitted env sr part sz (wfs w)"
proof -
  obtain r1 w1 where a1: "admit env sr part0 sz w = (r1, w1)" by (metis surj_pair)
  have l1: "same_files (wfs w) (wfs w1)" using admit_looked [OF a1] by (simp add: looked_def)
  obtain c1 p1 w2 where c1: "claimPartial part0 w1 = ((c1, p1), w2)" by (metis surj_pair)
  have w2: "w2 = w1" if "c1 = None" using claimPartial_cases [OF c1] that by simp
  have "admitted env sr part sz (wfs w)" if "admit env sr part sz w1 = (Inr b, w3)" for w3
    using that l1 by (auto simp: admitted_def)
  moreover have "admitted env sr part0 sz (wfs w)" if "r1 = Inr b'" for b'
    using a1 that by (auto simp: admitted_def intro: exI [of _ w])
  ultimately show ?thesis
    using r a1 c1 w2
    by (cases "randSuffix env 1") (auto simp: admitClaim_def privatePartial_def split: sum.splits option.splits prod.splits)
qed

lemma selectPartial_admits:
  assumes "selectPartial env shared sz prior sr w = (Inr (part, priv, cl, prev, b), w')"
  shows "admitted env sr part sz (wfs w)"
proof (cases prior)
  case None
  then show ?thesis
    using assms admitClaim_admits by (auto simp: selectPartial_def split: if_splits sum.splits)
next
  case (Some t)
  then show ?thesis
    using assms by (auto simp: selectPartial_def admitted_def split: sum.splits prod.splits intro: exI [of _ w])
qed

lemma admitted_room:
  assumes "calm fs" and "below (receivedDir sr) p" and "0 < quotaBytes sr" and "admitted env sr p sz fs"
  shows "room_for sr p sz fs"
  using assms admit_room [of _ sr p env sz] room_same calm_same unfolding admitted_def by metis

lemma selectPartial_same:
  assumes "selectPartial env shared sz prior sr w = (res, w')"
  shows "same_files (wfs w) (wfs w')"
proof (cases prior)
  case None
  then show ?thesis
    using assms selectPartial_new [of env shared sz sr w res w']
    by (auto simp: selected_new_def looked_def claimed_def split: sum.splits)
next
  case (Some t)
  then show ?thesis
    using assms admit_looked [of env sr "tpartial t" sz w]
    by (auto simp: selectPartial_def looked_def split: sum.splits prod.splits)
qed

lemma selectPartial_room:
  assumes inv: "qinv env sr w" and i: "length i = 16" and prior: "\<forall>t. prior = Some t \<longrightarrow> map_of (transfers sr) i = Some t"
    and r: "selectPartial env (shared_partial sr i) sz prior sr w = (Inr (part, priv, cl, prev, b), w')"
  shows "same_files (wfs w) (wfs w') \<and> (part, priv) \<in> partial_names env (shared_partial sr i) \<and> room_for sr part sz (wfs w)"
proof -
  have d: "receivedDir sr \<noteq> []" "calm (wfs w)" "0 < quotaBytes sr" using inv by (auto simp: qinv_def)
  have nm: "(part, priv) \<in> partial_names env (shared_partial sr i)"
  proof (cases prior)
    case None
    then show ?thesis using selectPartial_new [OF r [unfolded None]] by (auto simp: selected_new_def claimed_def)
  next
    case (Some t)
    then show ?thesis
      using r qinv_fit [OF inv, of i t] prior
      by (auto simp: selectPartial_def quota_fit_def split: sum.splits prod.splits)
  qed
  then show ?thesis
    using admitted_room [OF d(2) partial_below [OF d(1) i] d(3) selectPartial_admits [OF r]] selectPartial_same [OF r] by blast
qed

text \<open>A step of the receiver: the potential does not rise, or stays within the quota of every open transfer.\<close>

definition quota_step :: "srEnv \<Rightarrow> streamReceiver \<Rightarrow> world \<Rightarrow> streamReceiver \<Rightarrow> world \<Rightarrow> bool" where
  "quota_step env sr w sr' w' \<longleftrightarrow> qinv env sr' w' \<and> receivedDir sr' = receivedDir sr \<and> quotaBytes sr' = quotaBytes sr \<and>
     (potential sr' w' \<le> potential sr w \<or> potential sr' w' \<le> quotaBytes sr * int (length (transfers sr')))"

lemma down_step: "quota_down env sr w sr' w' \<Longrightarrow> quota_step env sr w sr' w'"
  by (simp add: quota_down_def quota_step_def)

lemma step_after: "quota_down env sr w sr1 w1 \<Longrightarrow> quota_step env sr1 w1 sr2 w2 \<Longrightarrow> quota_step env sr w sr2 w2"
  by (auto simp: quota_down_def quota_step_def)

lemma down_untouched:
  assumes "qinv env sr w" and "length i = 16" and "map_of (transfers sr) i = None" and "shrinks env sr i (wfs w) (wfs w')"
  shows "quota_down env sr w sr w'"
proof -
  have "adel i (transfers sr) = transfers sr"
    using assms(3) unfolding adel_def by (intro filter_True) (auto simp: map_of_eq_None_iff image_iff)
  then show ?thesis using down_drops [OF assms(1,2,4)] by simp
qed

text \<open>The opening of a \<^verbatim>\<open>.partial\<close>, without faults.\<close>

lemma tree_open:
  assumes "no_faults fs" and wf: "wf_fs fs" and on: "one_name fs" and o: "os_OpenCreate p fs = (r, fs')"
  obtains i where "r = Inr i" "lookup fs' p = Some i" "\<forall>q. q \<noteq> p \<longrightarrow> lookup fs' q = lookup fs q"
    "wf_fs fs'" "one_name fs'" "no_faults fs'" "tree_bytes d fs' = tree_bytes d fs" "fsize fs' i = psize fs p"
    "\<forall>j < length (store fs). store fs' ! j = store fs ! j" "length (store fs) \<le> length (store fs')"
proof (cases "lookup fs p")
  case None
  let ?n = "length (store fs)"
  have new: "p \<notin> fst ` set (names fs)" using None by (simp add: lookup_def map_of_eq_None_iff)
  have fs': "r = Inr ?n" "names fs' = (p, ?n) # names fs" "store fs' = store fs @ [\<lparr>fdata = [], fmod = fclock fs\<rparr>]"
    "opFault fs' = opFault fs"
    using o None assms(1) by (auto simp: os_OpenCreate_def sys_def no_faults_def lookup_def split: option.splits)
  have lt: "i < ?n" if "(q, i) \<in> set (names fs)" for q i using wf that by (auto simp: wf_fs_def)
  have w: "wf_fs fs'" using wf new by (auto simp: wf_fs_def fs' less_Suc_eq)
  moreover have "one_name fs'" using on lt by (force simp: one_name_def fs')
  moreover have "map (entry_bytes d fs') (names fs) = map (entry_bytes d fs) (names fs)"
    using lt by (auto simp: entry_bytes_def fsize_def fs' nth_append)
  then have "tree_bytes d fs' = tree_bytes d fs"
    by (simp add: tree_entries [OF w] tree_entries [OF wf] fs'(2) del: map_eq_conv) (simp add: entry_bytes_def fsize_def fs')
  ultimately show ?thesis
    using that [of ?n] fs' None assms(1) by (auto simp: lookup_def no_faults_def fsize_def nth_append psize_def)
next
  case (Some i)
  then have "r = Inr i" "fs' = fs\<lparr>ops := Suc (ops fs)\<rparr>"
    using o assms(1) by (auto simp: os_OpenCreate_def sys_def no_faults_def lookup_def split: option.splits)
  then show ?thesis
    using that [of i] assms Some by (auto simp: lookup_def no_faults_def wf_fs_def one_name_def tree_bytes_def psize_def fsize_def)
qed

lemma calm_open:
  assumes c: "calm fs" and o: "os_OpenCreate p fs = (r, fs')"
  obtains i where "r = Inr i" "lookup fs' p = Some i" "outside {p} fs fs'" "calm fs'"
    "tree_bytes d fs' = tree_bytes d fs" "psize fs' p = psize fs p"
proof -
  have calm: "no_faults fs" "wf_fs fs" "one_name fs" using c by (auto simp: calm_def)
  obtain i where i: "r = Inr i" "lookup fs' p = Some i" "\<forall>q. q \<noteq> p \<longrightarrow> lookup fs' q = lookup fs q"
    "wf_fs fs'" "one_name fs'" "no_faults fs'" "tree_bytes d fs' = tree_bytes d fs" "fsize fs' i = psize fs p"
    "\<forall>j < length (store fs). store fs' ! j = store fs ! j" by (rule tree_open [OF calm o])
  have "psize fs' q = psize fs q" if "q \<noteq> p" for q
  proof -
    have "j < length (store fs)" if "lookup fs q = Some j" for j
      using calm(2) that by (auto simp: wf_fs_def lookup_def dest!: map_of_SomeD)
    then show ?thesis using i(3,9) that by (auto simp: psize_def fsize_def split: option.split)
  qed
  then show ?thesis using that [of i] i by (simp add: outside_def calm_def psize_def)
qed

text \<open>The file of an accepted INIT, opened and cut: as long as the offset of the answer.\<close>

lemma opened:
  assumes c: "calm fs1" and l: "lookup fs1 p = Some ino" and b: "below d p"
    and st: "file_Stat p ino fs1 = (info, fs2)" and k: "k = resumeOffset info sz"
    and fs3: "fs3 = (if k = 0 then file_Truncate p ino fs2 else fs2)"
  shows "calm fs3 \<and> outside {p} fs1 fs3 \<and> lookup fs3 p = Some ino \<and> fsize fs3 ino = int k \<and>
    tree_bytes d fs3 = tree_bytes d fs1 - psize fs1 p + int k"
proof -
  have calm: "wf_fs fs1" "one_name fs1" "no_faults fs1" using c by (auto simp: calm_def)
  have "(p, ino) \<in> set (names fs1)" using l by (simp add: lookup_def map_of_SomeD)
  then have i: "ino < length (store fs1)" using calm(1) by (auto simp: wf_fs_def)
  have k': "k = (if fsize fs1 ino \<le> int sz then nat (fsize fs1 ino) else 0)" "fs2 = fs1\<lparr>ops := Suc (ops fs1)\<rparr>"
    using st calm k by (auto simp: file_Stat_def sys_ok resumeOffset_def fsize_def)
  have f: "names fs3 = names fs1" "length (store fs3) = length (store fs1)" "opFault fs3 = opFault fs1"
    "\<forall>j. j \<noteq> ino \<longrightarrow> store fs3 ! j = store fs1 ! j" "fsize fs3 ino = int k"
    using calm i k' by (auto simp: fs3 file_Truncate_def file_Truncate0_def sys_ok set_data_def no_faults_def fsize_def)
  note g = tree_grow [OF calm(1,2) l b f(1,2,4)]
  show ?thesis
    using g calm f outside_grow [OF calm(2) l f(1,4)] l by (simp add: calm_def no_faults_def psize_def lookup_def)
qed

text \<open>The transfer of an accepted INIT.\<close>

lemma step_put:
  assumes inv: "qinv env sr w" and i: "length i = 16" and c: "calm (wfs w')"
    and out: "outside (own_names env sr i) (wfs w) (wfs w')" and fit: "quota_fit env sr (wfs w') i t"
    and sr': "sr' = sr\<lparr>transfers := aput i t (transfers sr)\<rparr>" "srinv sr'"
    and tree: "tree_bytes (receivedDir sr) (wfs w') = tree_bytes (receivedDir sr) (wfs w) - psize (wfs w) p + int (tcursor t)"
    and room: "room_for sr p (tsize t) (wfs w)"
  shows "quota_step env sr w sr' w'"
proof -
  have s: "srinv sr" and inv': "qinv env sr' w'" using inv qinv_put [OF inv i c out fit] sr' by (auto simp: qinv_def)
  have pot: "potential sr' w' = tree_bytes (receivedDir sr) (wfs w) - psize (wfs w) p + int (tsize t) + owed (adel i (transfers sr))"
    using tree by (simp add: sr'(1) potential_put)
  have "potential sr' w' \<le> potential sr w" if "tsize t = 0"
    using pot that owed_adel_le [OF s, of i] by (simp add: potential_def psize_def fsize_def split: option.splits)
  moreover have "potential sr' w' \<le> quotaBytes sr * int (length (transfers sr'))" if "tsize t \<noteq> 0"
  proof -
    have "\<forall>(j, u) \<in> set (adel i (transfers sr)). int (tsize u) \<le> quotaBytes sr"
      using inv by (auto simp: qinv_def quota_fit_def)
    then have "owed (adel i (transfers sr)) \<le> quotaBytes sr * int (length (adel i (transfers sr)))" by (rule owed_le)
    then show ?thesis using pot room that by (simp add: room_for_def sr'(1) aput_adel algebra_simps)
  qed
  ultimately show ?thesis using inv' by (auto simp: quota_step_def sr'(1))
qed

lemma step_initOpen:
  assumes inv: "qinv env sr w" and i: "length i = 16" and nm: "(part, priv) \<in> partial_names env (shared_partial sr i)"
    and room: "room_for sr part sz (wfs w)"
    and r: "initOpen i sz hash name isNew part priv cl prev b sr w = (f, sr', w')"
  shows "quota_step env sr w sr' w'"
proof -
  let ?d = "receivedDir sr"
  have d: "?d \<noteq> []" and c: "calm (wfs w)" and s: "srinv sr" using inv by (auto simp: qinv_def)
  have own: "part \<in> own_names env sr i" and bel: "below ?d part" using own_partial partial_below [OF d i] nm by auto
  obtain q fs1 where o: "os_OpenCreate part (wfs w) = (q, fs1)" by (metis surj_pair)
  obtain ino where q: "q = Inr ino" and l1: "lookup fs1 part = Some ino" and o1: "outside {part} (wfs w) fs1"
    and c1: "calm fs1" and t1: "tree_bytes ?d fs1 = tree_bytes ?d (wfs w)" and z1: "psize fs1 part = psize (wfs w) part"
    by (rule calm_open [OF c o])
  have sh1: "shrinks env sr i (wfs w) fs1" using outside_mono [OF o1] own c1 t1 by (simp add: shrinks_def)
  show ?thesis
  proof (cases "map_of (transfers sr) i = None \<and> length (transfers sr) \<ge> maxConcurrentTransfers")
    case True
    obtain e fs2 where rm: "os_Remove part fs1 = (e, fs2)" by (metis surj_pair)
    have "shrinks env sr i (wfs w) (wfs w')" "sr' = sr"
      using r True sh1 shrinks_trans [OF sh1 shrinks_Remove [OF c1 own rm]] rm
      by (auto simp: initOpen_def o q openFile_def initFail_def unclaimPartial_def try_remove_def Let_def)
    then show ?thesis using down_step [OF down_untouched [OF inv i]] True by blast
  next
    case False
    obtain info fs2 where st: "file_Stat part ino fs1 = (info, fs2)" by (metis surj_pair)
    define k where "k = resumeOffset info sz"
    define fs3 where "fs3 = (if k = 0 then file_Truncate part ino fs2 else fs2)"
    define t where "t = \<lparr>thandle = length (handles w), tfile = ino, tpartial = part, tprivate = priv, tclaim = cl, tname = sanitizeBase name, tsize = sz,
      thash = hash, tcursor = k, tpending = [], tpendBytes = 0, tquotaBudget = b\<rparr>"
    have new: "sr' = sr\<lparr>transfers := aput i t (transfers sr)\<rparr>" "wfs w' = fs3"
      using r False by (auto simp: initOpen_def o q openFile_def st Let_def k_def fs3_def t_def)
    note op = opened [OF c1 l1 bel st k_def fs3_def]
    have out: "outside (own_names env sr i) (wfs w) (wfs w')"
      using outside_mono [OF outside_trans [OF o1, of fs3]] op own by (simp add: new)
    have fit: "quota_fit env sr (wfs w') i t"
      using op nm i room sanitize_no_slash by (simp add: quota_fit_def new t_def room_for_def)
    show ?thesis
      using step_put [OF inv i _ out fit new(1) initOpen_srinv [OF s r], of part] op t1 z1 room by (simp add: new(2) t_def)
  qed
qed

lemma step_handleInit:
  assumes inv: "qinv env sr w" and i: "length i = 16" and r: "handleInit env i body sr w = (f, sr', w')"
  shows "quota_step env sr w sr' w'"
proof (cases "decodeInit body")
  case None
  then show ?thesis using r down_step [OF down_same [OF inv]] by (simp add: handleInit_def)
next
  case (Some v)
  obtain sz hash v' name where v: "v = (sz, hash, v', name)" by (metis surj_pair)
  obtain fs1 where mk: "os_MkdirAll (partialDir sr) (wfs w) = (None, fs1)" "names fs1 = names (wfs w)"
    "store fs1 = store (wfs w)" "opFault fs1 = opFault (wfs w)"
    using inv by (auto simp: os_MkdirAll_def qinv_def calm_def sys_ok)
  obtain prior sr1 w1 where pr: "initPrior i sr (w\<lparr>wfs := fs1\<rparr>) = (prior, sr1, w1)" by (metis surj_pair)
  have w1: "names (wfs w1) = names (wfs w)" "store (wfs w1) = store (wfs w)" "opFault (wfs w1) = opFault (wfs w)"
    using pr mk stillHolds_wrote [of _ _ "w\<lparr>wfs := fs1\<rparr>" _ _ 0]
    by (auto simp: initPrior_def split: option.splits prod.splits bool.splits)
  have dw: "quota_down env sr w sr w1" by (rule down_alike [OF inv w1])
  then have inv1: "qinv env sr w1" by (simp add: quota_down_def)
  then have "shrinks env sr i (wfs w1) (wfs w1)" using shrinks_same by (simp add: qinv_def)
  then have d1: "quota_down env sr w sr1 w1"
    using initPrior_drops [OF pr] down_trans [OF dw down_drops [OF inv1 i]] dw by (auto simp: dropped_or_same_def)
  then have inv2: "qinv env sr1 w1" and dir: "partialDir sr1 = partialDir sr" by (auto simp: quota_down_def partialDir_def)
  have prior: "\<forall>t. prior = Some t \<longrightarrow> map_of (transfers sr1) i = Some t" using initPrior_cases [OF pr] by auto
  obtain s w2 where sel: "selectPartial env (shared_partial sr1 i) (unat sz) prior sr1 w1 = (s, w2)" by (metis surj_pair)
  have refused: "quota_step env sr w sr1 w2" if "s = Inl x" for x
    using step_after [OF d1 down_step [OF down_same [OF inv2 selectPartial_same]]] sel that by blast
  have opened: "quota_step env sr w sr' w'"
    if "s = Inr (part, priv, cl, prev, b)"
      "initOpen i (unat sz) hash name (prior = None) part priv cl prev b sr1 w2 = (f, sr', w')" for part priv cl prev b
  proof -
    note sr = selectPartial_room [OF inv2 i prior sel [unfolded that(1)]]
    have d2: "quota_down env sr1 w1 sr1 w2" using down_same [OF inv2] sr by blast
    then have "qinv env sr1 w2" by (simp add: quota_down_def)
    moreover have "room_for sr1 part (unat sz) (wfs w2)" using sr room_same by blast
    ultimately have "quota_step env sr1 w2 sr' w'" using step_initOpen [OF _ i _ _ that(2)] sr by blast
    then show ?thesis using step_after [OF down_trans [OF d1 d2]] by blast
  qed
  show ?thesis
    using r Some v mk(1) pr sel refused opened down_step [OF d1]
    by (auto simp: handleInit_def shared_partial_def dir split: if_splits sum.splits prod.splits)
qed

section \<open>Frames\<close>

lemma step_HandleFrame:
  assumes inv: "qinv env sr w" and pl: "plain_finals env" and r: "HandleFrame env f sr w = (a, sv, sr', w')"
  shows "quota_step env sr w sr' w'"
proof (cases "decodeStreamFrame (Some f)")
  case None
  then show ?thesis using r down_step [OF down_same [OF inv]] by (simp add: HandleFrame_def)
next
  case (Some v)
  obtain kind i body where v: "v = (kind, i, body)" by (metis surj_pair)
  have i: "length i = 16" using decode_stream_sound Some v by blast
  have "shrinks env sr i (wfs w) (wfs w)" using inv shrinks_same by (simp add: qinv_def)
  then have dis: "discard i sr w = (sr', w') \<Longrightarrow> quota_down env sr w sr' w'" using down_discard [OF inv i] by blast
  show ?thesis
    using r Some v step_handleInit [OF inv i] down_step [OF down_handleChunk [OF inv i]] down_step [OF down_same [OF inv, of w]]
      down_step [OF down_handleDone [OF inv i pl]] down_step [OF dis]
    by (auto simp: HandleFrame_def split: prod.splits if_splits)
qed

text \<open>The largest number of transfers open at once during a run.\<close>

fun most_open :: "srEnv \<Rightarrow> Frame list \<Rightarrow> streamReceiver \<Rightarrow> world \<Rightarrow> nat" where
  "most_open env [] sr w = length (transfers sr)"
| "most_open env (f # fs) sr w =
     (case HandleFrame env f sr w of (_, _, sr1, w1) \<Rightarrow> max (length (transfers sr)) (most_open env fs sr1 w1))"

lemma most_open_here: "length (transfers sr) \<le> most_open env fs sr w"
  by (cases fs) (auto split: prod.splits)

lemma most_open_64: "srinv sr \<Longrightarrow> most_open env fs sr w \<le> maxConcurrentTransfers"
proof (induction fs arbitrary: sr w)
  case (Cons f fs)
  obtain a sv sr1 w1 where h: "HandleFrame env f sr w = (a, sv, sr1, w1)" by (metis surj_pair)
  show ?case using Cons.IH [OF HandleFrame_srinv [OF Cons.prems h]] Cons.prems by (simp add: h srinv_def)
qed (simp add: srinv_def)

lemma run_potential:
  assumes "qinv env sr w" and pl: "plain_finals env" and "handle_all env fs sr w = (as, sv, sr', w')"
  shows "qinv env sr' w' \<and> receivedDir sr' = receivedDir sr \<and>
    potential sr' w' \<le> max (potential sr w) (quotaBytes sr * int (most_open env fs sr w))"
  using assms(1,3)
proof (induction fs arbitrary: sr w as sv)
  case (Cons f fs)
  obtain a sv1 sr1 w1 where h: "HandleFrame env f sr w = (a, sv1, sr1, w1)" by (metis surj_pair)
  obtain as2 sv2 where h2: "handle_all env fs sr1 w1 = (as2, sv2, sr', w')"
    using Cons.prems(2) h by (auto split: prod.splits)
  have st: "quota_step env sr w sr1 w1" by (rule step_HandleFrame [OF Cons.prems(1) pl h])
  then have q1: "qinv env sr1 w1" and d: "receivedDir sr1 = receivedDir sr" "quotaBytes sr1 = quotaBytes sr"
    by (auto simp: quota_step_def)
  let ?q = "quotaBytes sr" and ?m = "most_open env fs sr1 w1"
  have q: "0 < ?q" using Cons.prems(1) by (simp add: qinv_def)
  have "potential sr1 w1 \<le> max (potential sr w) (?q * int ?m)"
  proof -
    have "?q * int (length (transfers sr1)) \<le> ?q * int ?m"
      using q most_open_here [of sr1 env fs w1] by (intro mult_left_mono) auto
    then show ?thesis using st by (auto simp: quota_step_def)
  qed
  moreover have "?q * int ?m \<le> ?q * int (most_open env (f # fs) sr w)" using q by (simp add: h)
  ultimately show ?case using Cons.IH [OF q1 h2] d by auto
qed (simp add: potential_def)

text \<open>
  C9. The quota of the stream receiver.  A receiver with a quota, given any frames by any peer,
  on a file system without failures, never has more bytes below its directory than were there
  before or than the quota times the number of transfers that were open at once, which is at most
  64; so with one transfer at a time the bytes stay within the quota.
\<close>

theorem stream_quota:
  assumes "0 < q" and "dir \<noteq> []" and "plain_finals env"
    and "no_faults (wfs w)" and "wf_fs (wfs w)" and "one_name (wfs w)"
    and run: "handle_all env fs (newReceiver dir q) w = (as, sv, sr, w')"
  shows "tree_bytes dir (wfs w') \<le>
      max (tree_bytes dir (wfs w)) (q * int (most_open env fs (newReceiver dir q) w)) \<and>
    most_open env fs (newReceiver dir q) w \<le> 64"
proof -
  let ?sr = "newReceiver dir q"
  have s0: "srinv ?sr" by (simp add: srinv_def newReceiver_def)
  have q0: "qinv env ?sr w" using assms s0 by (simp add: qinv_def calm_def newReceiver_def)
  note r = run_potential [OF q0 assms(3) run]
  have "0 \<le> owed (transfers sr)"
    using r by (intro owed_nonneg) (auto simp: qinv_def srinv_def tinv_def)
  then show ?thesis
    using r most_open_64 [OF s0, of env fs w] assms(1)
    by (auto simp: potential_def newReceiver_def owed_def maxConcurrentTransfers_def)
qed

text \<open>
  The budget of a transfer is measured at its INIT and counts what is on disk, not what other
  open transfers were promised: two transfers of two bytes each, under a quota of three, end with
  four bytes on disk.
\<close>

definition demo_id2 :: bytes where
  "demo_id2 = demo_id[0 := 1]"

definition demo_both :: "Frame list" where
  "demo_both = [init_frame demo_id [7, 8] ''f'', init_frame demo_id2 [7, 8] ''g'',
     chunk_frame demo_id (0, [7, 8]), chunk_frame demo_id2 (0, [7, 8])]"

definition demo_path :: "bytes \<Rightarrow> string" where
  "demo_path i = filepath_Join [filepath_Join [''/r'', ''.partial''], hex i]"

definition demo_qsr :: "(bytes \<times> recvTransfer) list \<Rightarrow> streamReceiver" where
  "demo_qsr ts = \<lparr>receivedDir = ''/r'', quotaBytes = 3, transfers = ts\<rparr>"

definition demo_qt :: "nat \<Rightarrow> string \<Rightarrow> nat \<Rightarrow> recvTransfer" where
  "demo_qt k name cur = \<lparr>thandle = k, tfile = k, tpartial = demo_path (if k = 0 then demo_id else demo_id2),
     tprivate = False, tclaim = Some k, tname = name, tsize = 2, thash = sha256 [7, 8], tcursor = cur, tpending = [],
     tpendBytes = 0, tquotaBudget = 3 - int cur\<rparr>"

definition demo_qw :: "bytes list \<Rightarrow> nat \<Rightarrow> world" where
  "demo_qw cs n =
     \<lparr>wfs = \<lparr>names = rev (zip (map demo_path (take (length cs) [demo_id, demo_id2])) [0, 1]),
         dirs = [filepath_Clean (filepath_Join [''/r'', ''.partial''])],
         store = map (\<lambda>c. \<lparr>fdata = c, fmod = 0\<rparr>) cs, fclock = 0, ops = n, opFault = (\<lambda>_ _. None), shortWrite = (\<lambda>_. 0)\<rparr>,
       claims = replicate (length cs) 0, active = map_of (zip (map demo_path (take (length cs) [demo_id, demo_id2])) [0, 1]),
       wseq = 0, handles = replicate (length cs) True\<rparr>"

lemma demo_ids: "length demo_id = 16" "length demo_id2 = 16" "demo_id2 \<noteq> demo_id" "demo_id \<noteq> demo_id2"
  by (simp_all add: demo_id_def demo_id2_def)

lemma demo_shared: "shared_partial (demo_qsr ts) i = demo_path i"
  by (simp add: shared_partial_def partialDir_def demo_qsr_def demo_path_def)

lemma demo_paths:
  "below ''/r'' (demo_path demo_id)" "below ''/r'' (demo_path demo_id2)"
  "demo_path demo_id2 \<noteq> demo_path demo_id" "demo_path demo_id \<noteq> demo_path demo_id2"
proof -
  have p: "(demo_path j, False) \<in> partial_names demo_env (shared_partial (demo_qsr []) j)" for j
    by (simp add: partial_names_def demo_shared)
  have d: "receivedDir (demo_qsr []) = ''/r''" by (simp add: demo_qsr_def)
  show "below ''/r'' (demo_path demo_id)" "below ''/r'' (demo_path demo_id2)"
    using partial_below [OF _ demo_ids(1) p] partial_below [OF _ demo_ids(2) p] d by simp_all
  show "demo_path demo_id2 \<noteq> demo_path demo_id" "demo_path demo_id \<noteq> demo_path demo_id2"
    using own_names_apart [OF _ demo_ids(1,2,3) p] own_partial [OF p, of demo_id] d by auto
qed

lemmas demo_q_simps = demo_init_simps demo_ids demo_paths demo_qt_def demo_qw_def demo_qsr_def demo_path_def [symmetric]
  dirSizeExcluding_def WalkDir_def os_Stat_def

lemma demo_q1:
  "HandleFrame demo_env (init_frame demo_id [7, 8] ''f'') (newReceiver ''/r'' 3) demo_world =
     (Some (encodeOffset streamKindInitAck demo_id 0), [], demo_qsr [(demo_id, demo_qt 0 ''f'' 0)], demo_qw [[]] 5)"
  by (simp add: demo_q_simps)

lemma demo_q2:
  "HandleFrame demo_env (init_frame demo_id2 [7, 8] ''g'') (demo_qsr [(demo_id, demo_qt 0 ''f'' 0)]) (demo_qw [[]] 5) =
     (Some (encodeOffset streamKindInitAck demo_id2 0), [], demo_qsr [(demo_id2, demo_qt 1 ''g'' 0), (demo_id, demo_qt 0 ''f'' 0)],
      demo_qw [[], []] 11)"
  by (simp add: demo_q_simps List.insert_def) (simp add: fun_upd_twist [OF demo_paths(3)])

lemmas demo_chunk_simps = chunk_frame_def HandleFrame_chunk handleChunk_def decodeChunk_def chunkBody_def codec_simps Let_def
  placeChunk_def writeAt_def stillHolds_def file_WriteAt_def sys_def set_data_def overwrite_def drain.simps aput_def
  demo_ids demo_paths demo_qsr_def demo_qt_def demo_qw_def isOpen_def

lemma demo_q3:
  "HandleFrame demo_env (chunk_frame demo_id (0, [7, 8]))
     (demo_qsr [(demo_id2, demo_qt 1 ''g'' 0), (demo_id, demo_qt 0 ''f'' 0)]) (demo_qw [[], []] 11) =
     (Some (encodeOffset streamKindAck demo_id 2), [], demo_qsr [(demo_id, demo_qt 0 ''f'' 2), (demo_id2, demo_qt 1 ''g'' 0)],
      demo_qw [[7, 8], []] 12)"
  by (simp add: demo_chunk_simps)

lemma demo_q4:
  "HandleFrame demo_env (chunk_frame demo_id2 (0, [7, 8]))
     (demo_qsr [(demo_id, demo_qt 0 ''f'' 2), (demo_id2, demo_qt 1 ''g'' 0)]) (demo_qw [[7, 8], []] 12) =
     (Some (encodeOffset streamKindAck demo_id2 2), [], demo_qsr [(demo_id2, demo_qt 1 ''g'' 2), (demo_id, demo_qt 0 ''f'' 2)],
      demo_qw [[7, 8], [7, 8]] 13)"
  by (simp add: demo_chunk_simps)

lemma quota_shared:
  "\<exists>sr w. handle_all demo_env demo_both (newReceiver ''/r'' 3) demo_world =
     ([Some (encodeOffset streamKindInitAck demo_id 0), Some (encodeOffset streamKindInitAck demo_id2 0),
       Some (encodeOffset streamKindAck demo_id 2), Some (encodeOffset streamKindAck demo_id2 2)], [], sr, w) \<and>
     tree_bytes ''/r'' (wfs w) = 4 \<and> most_open demo_env demo_both (newReceiver ''/r'' 3) demo_world = 2"
proof -
  have "tree_bytes ''/r'' (wfs (demo_qw [[7, 8], [7, 8]] 13)) = 4"
    by (simp add: demo_qw_def tree_bytes_def psize_def lookup_def fsize_def demo_paths)
  then show ?thesis
    by (simp add: demo_both_def demo_q1 demo_q2 demo_q3 demo_q4 del: One_nat_def) (simp add: newReceiver_def demo_qsr_def)
qed

theorem stream_quota_witness:
  "\<exists>as sv sr w. handle_all demo_env demo_both (newReceiver ''/r'' 3) demo_world = (as, sv, sr, w) \<and>
     tree_bytes ''/r'' (wfs w) = 4 \<and> tree_bytes ''/r'' (wfs w) \<le> 3 * 2"
proof -
  obtain as sr w where r: "handle_all demo_env demo_both (newReceiver ''/r'' 3) demo_world = (as, [], sr, w)"
    and t: "tree_bytes ''/r'' (wfs w) = 4" and m: "most_open demo_env demo_both (newReceiver ''/r'' 3) demo_world = 2"
    using quota_shared by metis
  have "plain_finals demo_env" using demo_friendly by (simp add: friendly_def plain_finals_def)
  then have "tree_bytes ''/r'' (wfs w) \<le> 3 * 2"
    using stream_quota [OF _ _ _ _ _ _ r] m
    by (simp add: demo_world_def no_faults_def wf_fs_def one_name_def tree_bytes_def)
  then show ?thesis using r t by blast
qed

end
