(* ===== verification/DiskSpace.thy ===== *)
theory DiskSpace
  imports StreamQuota
begin

text \<open>
  The free space of the volume a receiver writes to, \<^verbatim>\<open>filestream_disk_unix.go\<close> and
  \<^verbatim>\<open>filestream_disk_other.go\<close>, the error codes of a full volume per platform, and what the disk gate
  of INIT guarantees with them.  The system call \<^verbatim>\<open>statfs\<close> is a parameter: the count of available
  blocks and the block size of a directory, as integers in the range of their fields, or its error.
\<close>

type_synonym statfs = "string \<Rightarrow> (int \<times> int) option"

text \<open>A count that is signed on FreeBSD: negative there once the reserve of root is in use.\<close>

definition blocksAvailable :: "int \<Rightarrow> u64" where
  "blocksAvailable n = (if n < 0 then 0 else word_of_int n)"

definition platformFreeDiskBytes :: "statfs \<Rightarrow> string \<Rightarrow> u64 \<times> bool" where
  "platformFreeDiskBytes st dir =
     (case st dir of
        None \<Rightarrow> (0, False)
      | Some (bavail, bsize) \<Rightarrow> (blocksAvailable bavail * word_of_int bsize, True))"

text \<open>The same function where \<^verbatim>\<open>statfs\<close> has no such fields.\<close>

definition platformFreeDiskBytes_other :: "string \<Rightarrow> u64 \<times> bool" where
  "platformFreeDiskBytes_other dir = (0, False)"

text \<open>The second result says whether the first is known: the form in which a receiver is given it.\<close>

definition known :: "u64 \<times> bool \<Rightarrow> nat option" where
  "known r = (case r of (n, ok) \<Rightarrow> if ok then Some (unat n) else None)"

text \<open>The codes of a full volume where the names of the Unix errors do not exist.\<close>

definition diskFullErrors_windows :: "nat list" where
  "diskFullErrors_windows = [112, 39]"

definition diskFullErrors_plan9 :: "nat list" where
  "diskFullErrors_plan9 = []"

section \<open>Facts\<close>

text \<open>The product wraps around at 64 bits, which can only make the known space smaller.\<close>

lemma free_bound:
  assumes "0 \<le> z" and "known (platformFreeDiskBytes (\<lambda>_. Some (a, z)) dir) = Some n"
  shows "int n \<le> max 0 a * z"
proof (cases "a < 0")
  case False
  have "(word_of_int a * word_of_int z :: u64) = word_of_int (a * z)" by (rule wi_hom_mult)
  moreover have "int n = uint (word_of_int a * word_of_int z :: u64)"
    using assms(2) False by (auto simp: known_def platformFreeDiskBytes_def blocksAvailable_def)
  ultimately have "int n = (a * z) mod 2 ^ 64" by (simp only: uint_word_of_int) simp
  then show ?thesis using False assms(1) zmod_le_nonneg_dividend [of "a * z" "2 ^ 64"] by simp
qed (use assms in \<open>simp add: known_def platformFreeDiskBytes_def blocksAvailable_def\<close>)

text \<open>Where a file of \<open>n\<close> bytes resumes.\<close>

definition resumed :: "int \<Rightarrow> nat \<Rightarrow> nat" where
  "resumed n sz = (if n \<le> int sz then nat n else 0)"

lemma diskGate_passes:
  assumes free: "freeDiskBytes env (wfs w) (filepath_Dir p) = Some free" and r: "diskGate env p sz w = (None, w')"
    and nf: "no_faults (wfs w)"
  shows "sz - resumed (psize (wfs w) p) sz + diskReserveBytes \<le> free"
proof -
  have "resumeOffset (fst (os_Stat p (wfs w))) sz = resumed (psize (wfs w) p) sz"
    using nf by (auto simp: os_Stat_def sys_ok resumeOffset_def psize_def lookup_def fsize_def resumed_def split: option.splits)
  then show ?thesis using r free by (auto simp: diskGate_def Let_def split: prod.splits if_splits)
qed

lemma admitted_reserve:
  assumes free: "\<And>fs d. freeDiskBytes env fs d = Some free" and nf: "no_faults fs" and a: "admitted env sr p sz fs"
  shows "sz - resumed (psize fs p) sz + diskReserveBytes \<le> free"
proof -
  obtain w b w' where w: "same_files fs (wfs w)" "admit env sr p sz w = (Inr b, w')" using a by (auto simp: admitted_def)
  obtain r1 w1 where q: "quotaGate sr p sz w = (r1, w1)" by (metis surj_pair)
  have s1: "same_files fs (wfs w1)" using quotaGate_looked [OF q] w(1) same_files_trans by (auto simp: looked_def)
  have g: "diskGate env p sz w1 = (None, w')" using w(2) q by (auto simp: admit_def split: sum.splits prod.splits option.splits)
  have "psize (wfs w1) p = psize fs p" using s1 by (simp add: psize_def same_files_def lookup_def fsize_def split: option.split)
  then show ?thesis using diskGate_passes [OF free g] nf s1 by (simp add: same_files_def no_faults_def)
qed

text \<open>An accepted INIT, after the file was selected.\<close>

lemma initOpen_resumes:
  assumes c: "calm (wfs w)" and r: "initOpen i sz hash name isNew part priv cl prev b sr w = (f, sr', w')"
    and acc: "f = encodeOffset streamKindInitAck i off" and big: "sz < 2 ^ 64"
  shows "\<exists>t. map_of (transfers sr') i = Some t \<and> tsize t = sz \<and> tcursor t = resumed (psize (wfs w) part) sz \<and>
    unat off = tcursor t"
proof -
  obtain q fs1 where o: "os_OpenCreate part (wfs w) = (q, fs1)" by (metis surj_pair)
  obtain ino where q: "q = Inr ino" and l1: "lookup fs1 part = Some ino" and c1: "calm fs1"
    and z1: "psize fs1 part = psize (wfs w) part" by (rule calm_open [OF c o])
  have notfail: "initFail i m a p pv cl pr w' = (f, w'') \<Longrightarrow> False" for m a p pv cl pr w' w''
    by (simp add: initFail_def acc complete_err_def encodeComplete_def encodeOffset_def encodeStreamFrame_def mkFrame_def)
  obtain info fs2 where st: "file_Stat part ino fs1 = (info, fs2)" by (metis surj_pair)
  have k: "resumeOffset info sz = resumed (psize (wfs w) part) sz"
  proof -
    have "psize (wfs w) part = fsize fs1 ino" using z1 l1 by (simp add: psize_def)
    then show ?thesis
      using st c1 by (auto simp: file_Stat_def sys_ok calm_def resumeOffset_def resumed_def fsize_def)
  qed
  let ?k = "resumed (psize (wfs w) part) sz"
  have "?k \<le> sz" by (simp add: resumed_def nat_le_iff)
  then have "unat (word_of_nat ?k :: u64) = ?k" using big by (simp add: unat_of_nat)
  moreover have "f = encodeOffset streamKindInitAck i (word_of_nat ?k)"
    "\<exists>t. map_of (transfers sr') i = Some t \<and> tsize t = sz \<and> tcursor t = ?k"
    using r by (auto simp: initOpen_def o q st k Let_def split: if_splits prod.splits dest: notfail)
  moreover have "off = word_of_nat ?k"
    using calculation(2) offset_body.enc_inject [of "word_of_nat ?k" off]
    by (simp add: acc encodeOffset_def encodeStreamFrame_def mkFrame_def)
  ultimately show ?thesis by auto
qed

lemma handleInit_reserve:
  assumes c: "calm (wfs w)" and free: "\<And>fs d. freeDiskBytes env fs d = Some free"
    and r: "handleInit env i body sr w = (encodeOffset streamKindInitAck i off, sr', w')"
  shows "\<exists>t. map_of (transfers sr') i = Some t \<and> unat off = tcursor t \<and> tsize t - tcursor t + diskReserveBytes \<le> free"
proof -
  let ?f = "encodeOffset streamKindInitAck i off"
  have err: "complete_err i m \<noteq> ?f" for m
    by (simp add: complete_err_def encodeComplete_def encodeOffset_def encodeStreamFrame_def mkFrame_def)
  obtain sz hash v' name where v: "decodeInit body = Some (sz, hash, v', name)"
    using r err by (cases "decodeInit body") (auto simp: handleInit_def)
  obtain fs1 where mk: "os_MkdirAll (partialDir sr) (wfs w) = (None, fs1)" "names fs1 = names (wfs w)"
    "store fs1 = store (wfs w)" "opFault fs1 = opFault (wfs w)"
    using c by (auto simp: os_MkdirAll_def calm_def sys_ok)
  obtain prior sr1 w1 where pr: "initPrior i sr (w\<lparr>wfs := fs1\<rparr>) = (prior, sr1, w1)" by (metis surj_pair)
  have w1: "wfs w1 = fs1"
    using pr stillHolds_wrote [of _ _ "w\<lparr>wfs := fs1\<rparr>" _ _ 0]
    by (auto simp: initPrior_def split: option.splits prod.splits bool.splits)
  have c1: "calm (wfs w1)" using c mk w1 by (simp add: calm_def no_faults_def wf_fs_def one_name_def)
  obtain s w2 where sel: "selectPartial env (shared_partial sr i) (unat sz) prior sr1 w1 = (s, w2)" by (metis surj_pair)
  obtain part priv cl prev b where s: "s = Inr (part, priv, cl, prev, b)"
    and op: "initOpen i (unat sz) hash name (prior = None) part priv cl prev b sr1 w2 = (?f, sr', w')"
    using r by (auto simp: handleInit_def v mk(1) pr sel [unfolded shared_partial_def] err [simplified] split: if_splits sum.splits)
  have same: "same_files (wfs w1) (wfs w2)" using selectPartial_same [OF sel] .
  have z: "psize (wfs w2) part = psize (wfs w1) part"
    using same by (simp add: psize_def same_files_def lookup_def fsize_def split: option.split)
  have "unat sz < 2 ^ 64" by (rule order_less_le_trans [OF unsigned_less]) simp
  then obtain t where "map_of (transfers sr') i = Some t" "tsize t = unat sz"
    "tcursor t = resumed (psize (wfs w1) part) (unat sz)" "unat off = tcursor t"
    using initOpen_resumes [OF _ op refl] c1 calm_same [OF same] z by auto
  moreover have "unat sz - resumed (psize (wfs w1) part) (unat sz) + diskReserveBytes \<le> free"
    using admitted_reserve [OF free _ selectPartial_admits [OF sel [unfolded s]]] c1 by (simp add: calm_def)
  ultimately show ?thesis by auto
qed

text \<open>
  C17. The disk reserve.  When a receiver on a volume with \<open>bavail\<close> blocks of \<open>bsize\<close> bytes
  available answers an INIT with an offset, the bytes that are still missing from the file fit on
  the volume with 16 MiB to spare.  The count of blocks may be negative, and its product with the
  block size may exceed 64 bits; in the first case no INIT is accepted, and in the second the gate
  only becomes stricter.
\<close>

theorem disk_reserve:
  assumes "no_faults (wfs w)" and "wf_fs (wfs w)" and "one_name (wfs w)" and i: "length i = 16" and bs: "0 \<le> bsize"
    and env: "freeDiskBytes env = (\<lambda>_ d. known (platformFreeDiskBytes (\<lambda>_. Some (bavail, bsize)) d))"
    and r: "HandleFrame env (encodeStreamFrame streamKindInit i body) sr w =
      (Some (encodeOffset streamKindInitAck i off), sv, sr', w')"
  shows "\<exists>t. map_of (transfers sr') i = Some t \<and> unat off = tcursor t \<and>
    int (tsize t - tcursor t) + 16 * 2 ^ 20 \<le> max 0 bavail * bsize"
proof -
  obtain n where n: "\<And>d. known (platformFreeDiskBytes (\<lambda>_. Some (bavail, bsize)) d) = Some n"
    by (simp add: known_def platformFreeDiskBytes_def)
  then have free: "freeDiskBytes env fs d = Some n" for fs d by (simp add: env)
  have h: "handleInit env i body sr w = (encodeOffset streamKindInitAck i off, sr', w')"
    using r by (auto simp: HandleFrame_def decode_stream [OF i] split: prod.splits)
  have "calm (wfs w)" using assms by (simp add: calm_def)
  then obtain t where "map_of (transfers sr') i = Some t" "unat off = tcursor t"
    "tsize t - tcursor t + diskReserveBytes \<le> n"
    using handleInit_reserve [OF _ free h] by blast
  then show ?thesis using free_bound [OF bs n] by (intro exI [of _ t]) (simp add: diskReserveBytes_def)
qed

text \<open>A volume with a thousand blocks of 64 KiB takes the two bytes.\<close>

definition demo_denv :: srEnv where
  "demo_denv = demo_env\<lparr>freeDiskBytes := (\<lambda>_ d. known (platformFreeDiskBytes (\<lambda>_. Some (1000, 65536)) d))\<rparr>"

theorem disk_reserve_witness:
  "\<exists>sr w t. HandleFrame demo_denv (init_frame demo_id [7, 8] ''f'') demo_sr demo_world =
     (Some (encodeOffset streamKindInitAck demo_id 0), [], sr, w) \<and> map_of (transfers sr) demo_id = Some t \<and>
     int (tsize t - tcursor t) + 16 * 2 ^ 20 \<le> 1000 * 65536"
proof -
  let ?b = "initBody (word_of_nat 2) (sha256 [7, 8]) (word_of_nat StreamChunkSize) ''f''"
  obtain sr w where r: "HandleFrame demo_denv (encodeStreamFrame streamKindInit demo_id ?b) demo_sr demo_world =
      (Some (encodeOffset streamKindInitAck demo_id 0), [], sr, w)"
    by (simp add: demo_init_simps demo_ids demo_denv_def known_def platformFreeDiskBytes_def blocksAvailable_def
        os_Stat_def diskReserveBytes_def)
  have f: "init_frame demo_id [7, 8] ''f'' = encodeStreamFrame streamKindInit demo_id ?b"
    by (simp add: init_frame_def encodeInit_def)
  have "\<exists>t. map_of (transfers sr) demo_id = Some t \<and> int (tsize t - tcursor t) + 16 * 2 ^ 20 \<le> 1000 * 65536"
    using disk_reserve [OF _ _ _ demo_ids(1) _ _ r, of 65536 1000]
    by (auto simp: demo_denv_def demo_world_def no_faults_def wf_fs_def one_name_def)
  then show ?thesis using r f by metis
qed

end
