(* ===== verification/StreamSender.thy ===== *)
theory StreamSender
  imports StreamCodec Client
begin

text \<open>
  The sending side of the chunked file transfer, third part of \<^verbatim>\<open>filestream.go\<close>: the hash pass,
  the negotiation, the loop that sends chunks inside a window, and the goroutine that reads
  acknowledgements.  The two goroutines share the acknowledged offset and two channels of
  capacity one; \<open>sstep_any\<close> interleaves the steps of the first (\<open>fstep\<close>, and \<open>expire\<close> for its
  timers) with those of the second (\<open>streamReadLoop\<close>).  The offset and the acknowledged offset are machine words, whose difference wraps.
\<close>

section \<open>The file that is sent\<close>

text \<open>
  An \<^verbatim>\<open>io.ReadSeeker\<close> over a fixed content.  The outcome of the \<open>n\<close>-th call is \<open>srcFault n\<close>; a
  failing read delivers at most \<open>srcShort n\<close> bytes first.
\<close>

record source =
  scontent :: bytes
  spos :: nat
  scalls :: nat
  srcFault :: "nat \<Rightarrow> string option"
  srcShort :: "nat \<Rightarrow> nat"

datatype srcerr = SrcEOF | SrcUnexpectedEOF | SrcErr string

definition src_call :: "source \<Rightarrow> string option \<times> source" where
  "src_call r = (srcFault r (scalls r), r\<lparr>scalls := Suc (scalls r)\<rparr>)"

text \<open>\<^verbatim>\<open>io.Copy\<close> of everything that is left.\<close>

definition src_Copy :: "source \<Rightarrow> (string + bytes) \<times> source" where
  "src_Copy r =
     (case src_call r of
        (Some e, r1) \<Rightarrow> (Inl e, r1)
      | (None, r1) \<Rightarrow> (Inr (drop (spos r) (scontent r)), r1\<lparr>spos := max (spos r) (length (scontent r))\<rparr>))"

definition src_Seek :: "nat \<Rightarrow> source \<Rightarrow> string option \<times> source" where
  "src_Seek n r = (case src_call r of (Some e, r1) \<Rightarrow> (Some e, r1) | (None, r1) \<Rightarrow> (None, r1\<lparr>spos := n\<rparr>))"

text \<open>\<^verbatim>\<open>io.ReadFull\<close> into a buffer of \<open>n\<close> bytes: what was read, and the error.\<close>

definition src_ReadFull :: "nat \<Rightarrow> source \<Rightarrow> (bytes \<times> srcerr option) \<times> source" where
  "src_ReadFull n r =
     (let rest = drop (spos r) (scontent r) in
      case src_call r of
        (Some e, r1) \<Rightarrow>
          let b = take (min (srcShort r (scalls r)) (n - 1)) rest in ((b, Some (SrcErr e)), r1\<lparr>spos := spos r + length b\<rparr>)
      | (None, r1) \<Rightarrow>
          let b = take n rest in
          ((b, if length b = n then None else if b = [] then Some SrcEOF else Some SrcUnexpectedEOF),
           r1\<lparr>spos := spos r + length b\<rparr>))"

section \<open>Results and state\<close>

record StreamResult =
  BytesSent :: int
  BytesResumed :: int
  TotalBytes :: int
  Sha256Hex :: string
  OK :: bool
  Message :: string

datatype termErr = ReadTerm error | ReceiverAbort string

record streamTerminal =
  terminalErr :: "termErr option"
  completeOK :: bool
  completeMsg :: string
  complete :: bool

datatype sendErr =
    InitBuilderRequired
  | NegativeSize
  | HashFile string
  | SeekFile string
  | BuildInit string
  | SendInit error
  | ErrStreamUnsupported
  | SeekResume string
  | WindowErr termErr
  | WindowAborted string
  | WindowClosed
  | AckTimeout u64 u64
  | ReadChunk u64 srcerr
  | SendChunk u64 error
  | SendDone error
  | TransferFailed termErr
  | CompleteTimeout

type_synonym sendOutcome = "sendErr + StreamResult"

text \<open>Where the sending goroutine stands: in its loop, waiting for COMPLETE, or returned.\<close>

datatype sphase = Sending | Awaiting | Returned sendOutcome

record sender =
  qid :: bytes
  qhash :: bytes
  qsize :: int
  qresume :: u64
  qsrc :: source
  qoffset :: u64
  qacked :: u64
  qnotify :: bool
  qdone :: "streamTerminal option"
  qreading :: bool
  qconn :: conn
  qphase :: sphase

definition errOrTimeout :: "streamTerminal \<Rightarrow> sendErr" where
  "errOrTimeout t =
     (case terminalErr t of
        Some e \<Rightarrow> WindowErr e
      | None \<Rightarrow> if complete t \<and> \<not> completeOK t then WindowAborted (completeMsg t) else WindowClosed)"

section \<open>Negotiation\<close>

text \<open>\<open>None\<close> stands for a read that did not end before the timer.\<close>

definition recvFrameTimeout :: "u32 \<Rightarrow> bool \<Rightarrow> reader \<Rightarrow> Frame option \<times> reader" where
  "recvFrameTimeout mx timedOut r =
     (if timedOut then (None, r) else case ReadFrame mx r of (Inl _, r1) \<Rightarrow> (None, r1) | (Inr f, r1) \<Rightarrow> (Some f, r1))"

type_synonym streamInitBuilder = "bytes \<Rightarrow> u64 \<Rightarrow> bytes \<Rightarrow> u32 \<Rightarrow> string \<Rightarrow> string + Frame"

text \<open>The answer to INIT: the resume offset, clamped to the size, or the end of the transfer.\<close>

definition initAnswer :: "bytes \<Rightarrow> bytes \<Rightarrow> int \<Rightarrow> Frame option \<Rightarrow> sendOutcome + u64" where
  "initAnswer i hash sz ack =
     (case decodeStreamFrame ack of
        None \<Rightarrow> Inl (Inl ErrStreamUnsupported)
      | Some (kind, gotID, body) \<Rightarrow>
          if kind = streamKindComplete \<and> gotID = i
          then Inl (Inr \<lparr>BytesSent = 0, BytesResumed = 0, TotalBytes = sz, Sha256Hex = hex hash, OK = False,
                         Message = snd (decodeComplete body)\<rparr>)
          else if kind \<noteq> streamKindInitAck \<or> gotID \<noteq> i then Inl (Inl ErrStreamUnsupported)
          else let off = (case decodeOffset body of None \<Rightarrow> 0 | Some x \<Rightarrow> x)
               in Inr (if off > word_of_int sz then word_of_int sz else off))"

text \<open>
  \<open>streamSendWithInit\<close> up to the start of the loops: an outcome, or the state in which the two
  goroutines start; with the connection as it is then.
\<close>

definition streamSendWithInit ::
  "u32 \<Rightarrow> streamInitBuilder option \<Rightarrow> bool \<Rightarrow> conn \<Rightarrow> string \<Rightarrow> source \<Rightarrow> int \<Rightarrow> (sendOutcome + sender) \<times> conn" where
  "streamSendWithInit mx build timedOut c name r sz =
     (case build of
        None \<Rightarrow> (Inl (Inl InitBuilderRequired), c)
      | Some buildInit \<Rightarrow>
          if sz < 0 then (Inl (Inl NegativeSize), c)
          else case src_Copy r of
            (Inl e, _) \<Rightarrow> (Inl (Inl (HashFile e)), c)
          | (Inr content, r1) \<Rightarrow>
              let fullHash = sha256 content; i = take transferIDLen fullHash in
              (case src_Seek 0 r1 of
                 (Some e, _) \<Rightarrow> (Inl (Inl (SeekFile e)), c)
               | (None, r2) \<Rightarrow>
                   (case buildInit i (word_of_int sz) fullHash (word_of_nat StreamChunkSize) name of
                      Inl e \<Rightarrow> (Inl (Inl (BuildInit e)), c)
                    | Inr init \<Rightarrow>
                        (case WriteFrame mx (cwr c) init of
                           (Some e, w) \<Rightarrow> (Inl (Inl (SendInit e)), c\<lparr>cwr := w\<rparr>)
                         | (None, w) \<Rightarrow>
                             (case recvFrameTimeout mx timedOut (crd c) of
                                (ack, rd) \<Rightarrow>
                                  let c1 = \<lparr>crd = rd, cwr = w\<rparr> in
                                  (case initAnswer i fullHash sz ack of
                                     Inl out \<Rightarrow> (Inl out, c1)
                                   | Inr resumeOff \<Rightarrow>
                                       (case src_Seek (unat resumeOff) r2 of
                                          (Some e, _) \<Rightarrow> (Inl (Inl (SeekResume e)), c1)
                                        | (None, r3) \<Rightarrow>
                                            (Inr \<lparr>qid = i, qhash = fullHash, qsize = sz, qresume = resumeOff, qsrc = r3,
                                                  qoffset = resumeOff, qacked = resumeOff, qnotify = False, qdone = None,
                                                  qreading = True, qconn = c1, qphase = Sending\<rparr>, c1))))))))"

definition streamSend :: "u32 \<Rightarrow> bool \<Rightarrow> conn \<Rightarrow> string \<Rightarrow> source \<Rightarrow> int \<Rightarrow> (sendOutcome + sender) \<times> conn" where
  "streamSend mx timedOut c name r sz =
     streamSendWithInit mx (Some (\<lambda>i declared hash chunk n. Inr (encodeInit i declared hash chunk n))) timedOut c name r sz"

definition SendFileStream :: "u32 \<Rightarrow> bool \<Rightarrow> conn \<Rightarrow> string \<Rightarrow> source \<Rightarrow> int \<Rightarrow> (sendOutcome + sender) \<times> conn" where
  "SendFileStream mx timedOut c name r sz = streamSend mx timedOut c name r sz"

section \<open>The sending loop\<close>

definition windowBytes :: u64 where
  "windowBytes = word_of_nat (streamWindow * StreamChunkSize)"

definition gateOpen :: "sender \<Rightarrow> bool" where
  "gateOpen s \<longleftrightarrow> \<not> windowBytes \<le> qoffset s - qacked s"

definition moreToSend :: "sender \<Rightarrow> bool" where
  "moreToSend s \<longleftrightarrow> qoffset s < word_of_int (qsize s)"

definition returns :: "sendOutcome \<Rightarrow> sender \<Rightarrow> sender" where
  "returns out s = s\<lparr>qphase := Returned out\<rparr>"

definition put_frame :: "u32 \<Rightarrow> Frame \<Rightarrow> sender \<Rightarrow> error option \<times> sender" where
  "put_frame mx f s =
     (case WriteFrame mx (cwr (qconn s)) f of (r, w) \<Rightarrow> (r, s\<lparr>qconn := (qconn s)\<lparr>cwr := w\<rparr>\<rparr>))"

definition sendDone :: "u32 \<Rightarrow> sender \<Rightarrow> sender" where
  "sendDone mx s =
     (case put_frame mx (encodeStreamFrame streamKindDone (qid s) []) s of
        (Some e, s1) \<Rightarrow> returns (Inl (SendDone e)) s1
      | (None, s1) \<Rightarrow> s1\<lparr>qphase := Awaiting\<rparr>)"

text \<open>One iteration behind the window gate; a file that ends early ends the loop.\<close>

definition sendChunk :: "u32 \<Rightarrow> sender \<Rightarrow> sender" where
  "sendChunk mx s =
     (case src_ReadFull StreamChunkSize (qsrc s) of
        ((b, rerr), r1) \<Rightarrow>
          let s1 = s\<lparr>qsrc := r1\<rparr> in
          if b = [] \<and> rerr = Some SrcEOF then sendDone mx s1
          else if b = [] \<and> rerr \<noteq> None then returns (Inl (ReadChunk (qoffset s) (the rerr))) s1
          else (case put_frame mx (encodeChunk (qid s) (qoffset s) b) s1 of
                  (Some e, s2) \<Rightarrow> returns (Inl (SendChunk (qoffset s) e)) s2
                | (None, s2) \<Rightarrow>
                    let s3 = s2\<lparr>qoffset := qoffset s2 + word_of_nat (length b)\<rparr> in
                    (case rerr of
                       Some (SrcErr e) \<Rightarrow> returns (Inl (ReadChunk (qoffset s3) (SrcErr e))) s3
                     | _ \<Rightarrow> s3)))"

definition finalResult :: "sender \<Rightarrow> streamTerminal \<Rightarrow> sendOutcome" where
  "finalResult s t =
     (case terminalErr t of
        Some e \<Rightarrow> Inl (TransferFailed e)
      | None \<Rightarrow> Inr \<lparr>BytesSent = sint (qoffset s - qresume s), BytesResumed = sint (qresume s), TotalBytes = qsize s,
                     Sha256Hex = hex (qhash s), OK = completeOK t, Message = completeMsg t\<rparr>)"

section \<open>The reading goroutine\<close>

definition advanceAcked :: "u64 \<Rightarrow> sender \<Rightarrow> sender" where
  "advanceAcked off s = s\<lparr>qacked := if off \<le> qacked s then qacked s else off, qnotify := True\<rparr>"

definition terminates :: "streamTerminal \<Rightarrow> sender \<Rightarrow> sender" where
  "terminates t s = s\<lparr>qdone := Some t, qreading := False\<rparr>"

definition readFailed :: "termErr \<Rightarrow> bool \<Rightarrow> streamTerminal" where
  "readFailed e compl = \<lparr>terminalErr = Some e, completeOK = False, completeMsg = [], complete = compl\<rparr>"

definition readCompleted :: "bytes \<Rightarrow> streamTerminal" where
  "readCompleted body =
     (case decodeComplete body of (ok, msg) \<Rightarrow> \<lparr>terminalErr = None, completeOK = ok, completeMsg = msg, complete = True\<rparr>)"

text \<open>One iteration of \<open>streamReadLoop\<close>.\<close>

definition streamReadLoop :: "u32 \<Rightarrow> sender \<Rightarrow> sender" where
  "streamReadLoop mx s =
     (case ReadFrame mx (crd (qconn s)) of
        (res, rd) \<Rightarrow>
          let s1 = s\<lparr>qconn := (qconn s)\<lparr>crd := rd\<rparr>\<rparr> in
          (case res of
             Inl e \<Rightarrow> terminates (readFailed (ReadTerm e) False) s1
           | Inr f \<Rightarrow>
               (case decodeStreamFrame (Some f) of
                  None \<Rightarrow> s1
                | Some (kind, gotID, body) \<Rightarrow>
                    if gotID \<noteq> qid s then s1
                    else if kind = streamKindAck then
                      (case decodeOffset body of None \<Rightarrow> s1 | Some off \<Rightarrow> advanceAcked off s1)
                    else if kind = streamKindComplete then terminates (readCompleted body) s1
                    else if kind = streamKindAbort
                    then terminates (readFailed (ReceiverAbort (string_of body)) True) s1
                    else s1)))"

section \<open>Both goroutines\<close>

text \<open>The steps of the sending goroutine, and its two timers.\<close>

inductive fstep :: "u32 \<Rightarrow> sender \<Rightarrow> sender \<Rightarrow> bool" for mx where
  chunk: "qphase s = Sending \<Longrightarrow> moreToSend s \<Longrightarrow> gateOpen s \<Longrightarrow> fstep mx s (sendChunk mx s)"
| finish: "qphase s = Sending \<Longrightarrow> \<not> moreToSend s \<Longrightarrow> fstep mx s (sendDone mx s)"
| woken: "qphase s = Sending \<Longrightarrow> moreToSend s \<Longrightarrow> \<not> gateOpen s \<Longrightarrow> qnotify s \<Longrightarrow> fstep mx s (s\<lparr>qnotify := False\<rparr>)"
| ended: "qphase s = Sending \<Longrightarrow> moreToSend s \<Longrightarrow> \<not> gateOpen s \<Longrightarrow> qdone s = Some t \<Longrightarrow>
    fstep mx s (returns (Inl (errOrTimeout t)) (s\<lparr>qdone := None\<rparr>))"
| completed: "qphase s = Awaiting \<Longrightarrow> qdone s = Some t \<Longrightarrow>
    fstep mx s (returns (finalResult s t) (s\<lparr>qdone := None\<rparr>))"

inductive expire :: "sender \<Rightarrow> sender \<Rightarrow> bool" where
  ack_timer: "qphase s = Sending \<Longrightarrow> moreToSend s \<Longrightarrow> \<not> gateOpen s \<Longrightarrow>
    expire s (returns (Inl (AckTimeout (qoffset s) (qacked s))) s)"
| complete_timer: "qphase s = Awaiting \<Longrightarrow> expire s (returns (Inl CompleteTimeout) s)"

inductive_cases fstepE: "fstep mx s s'"
inductive_cases expireE: "expire s s'"

text \<open>A step of either goroutine.\<close>

definition sstep_any :: "u32 \<Rightarrow> sender \<Rightarrow> sender \<Rightarrow> bool" where
  "sstep_any mx s s' \<longleftrightarrow> fstep mx s s' \<or> expire s s' \<or> qreading s \<and> s' = streamReadLoop mx s"

end
