(* ===== verification/SenderProps.thy ===== *)
theory SenderProps
  imports StreamSender StreamDelivery
begin

text \<open>
  What the sender of a chunked transfer puts on the wire, in every interleaving of its two
  goroutines, whatever the peer answers and whatever the reads of the file do; and the bound on
  the bytes in flight.
\<close>

section \<open>Steps of each goroutine\<close>

text \<open>The part of the state that only the sending goroutine changes.\<close>

definition sending_part :: "sender \<Rightarrow> (bytes \<times> bytes \<times> int \<times> u64) \<times> source \<times> u64 \<times> sphase \<times> writer" where
  "sending_part s = ((qid s, qhash s, qsize s, qresume s), qsrc s, qoffset s, qphase s, cwr (qconn s))"

lemma streamReadLoop_keeps: "sending_part (streamReadLoop mx s) = sending_part s"
  by (simp add: streamReadLoop_def sending_part_def Let_def terminates_def advanceAcked_def
      split: prod.split sum.split option.split)

lemma streamReadLoop_acked: "qacked s \<le> qacked (streamReadLoop mx s)"
  by (auto simp: streamReadLoop_def Let_def terminates_def advanceAcked_def split: prod.split sum.split option.split)

text \<open>A write that fails has put a part of the frame on the wire.\<close>

lemma Write_prefix: "Write b w = (r, w') \<Longrightarrow> \<exists>p. prefix p b \<and> sent w' = sent w @ p"
  by (auto simp: Write_def sent_def take_is_prefix split: option.splits if_splits)

lemma WriteFrame_prefix:
  assumes "WriteFrame mx w f = (r, w')"
  shows "\<exists>p. prefix p (frameBytes mx f) \<and> sent w' = sent w @ p"
proof (cases "framePayload mx f")
  case (Inl e)
  then show ?thesis using assms by (intro exI [of _ "[]"]) (simp add: WriteFrame_def)
next
  case (Inr x)
  obtain t q where x: "x = (t, q)" by (cases x)
  obtain r1 w1 where h: "Write (frameHeader t q) w = (r1, w1)" by (metis surj_pair)
  obtain r2 w2 where q: "Write q w1 = (r2, w2)" by (metis surj_pair)
  show ?thesis
  proof (cases "length q \<le> singleWriteMax \<or> r1 \<noteq> None")
    case True
    then show ?thesis
      using assms Inr x h Write_prefix [OF h] Write_prefix [of "frameHeader t q @ q" w _ w']
      by (cases "length q \<le> singleWriteMax")
        (auto simp: WriteFrame_def frameBytes_def map_prod_def intro: prefix_prefix split: prod.splits)
  next
    case False
    then have "w' = w2" using assms Inr x h q by (auto simp: WriteFrame_def map_prod_def)
    moreover have "sent w1 = sent w @ frameHeader t q" using Write_ok [of "frameHeader t q" w w1] h False by (simp add: sent_def)
    ultimately show ?thesis using Write_prefix [OF q] Inr x by (auto simp: frameBytes_def)
  qed
qed

lemma put_frame_cases:
  assumes "put_frame mx f s = (r, s')"
  shows "\<exists>w p. s' = s\<lparr>qconn := (qconn s)\<lparr>cwr := w\<rparr>\<rparr> \<and> sent w = sent (cwr (qconn s)) @ p \<and> prefix p (frameBytes mx f) \<and>
    (r = None \<longrightarrow> p = frameBytes mx f)"
proof -
  obtain w where w: "WriteFrame mx (cwr (qconn s)) f = (r, w)" and s': "s' = s\<lparr>qconn := (qconn s)\<lparr>cwr := w\<rparr>\<rparr>"
    using assms by (auto simp: put_frame_def split: prod.splits)
  show ?thesis
    using s' WriteFrame_prefix [OF w] WriteFrame_sent [of mx "cwr (qconn s)" f w] w by (cases r) auto
qed

lemma sendDone_cases:
  obtains (failed) e w p where "sendDone mx s = returns (Inl (SendDone e)) (s\<lparr>qconn := (qconn s)\<lparr>cwr := w\<rparr>\<rparr>)"
      "sent w = sent (cwr (qconn s)) @ p" "prefix p (frameBytes mx (done_frame (qid s)))"
  | (sent) w where "sendDone mx s = s\<lparr>qconn := (qconn s)\<lparr>cwr := w\<rparr>, qphase := Awaiting\<rparr>"
      "sent w = sent (cwr (qconn s)) @ frameBytes mx (done_frame (qid s))"
proof -
  obtain r s1 where p: "put_frame mx (done_frame (qid s)) s = (r, s1)" by (metis surj_pair)
  obtain w q where w: "s1 = s\<lparr>qconn := (qconn s)\<lparr>cwr := w\<rparr>\<rparr>" "sent w = sent (cwr (qconn s)) @ q"
    "prefix q (frameBytes mx (done_frame (qid s)))" "r = None \<longrightarrow> q = frameBytes mx (done_frame (qid s))"
    using put_frame_cases [OF p] by blast
  show thesis
    using p w that by (cases r) (simp_all add: sendDone_def done_frame_def)
qed

lemma take_piece: "off \<le> length c \<Longrightarrow> piece c (off, take k (drop off c))"
  by (cases "length c - off \<le> k") (auto simp: piece_def)

text \<open>What a read of the next chunk gives, faults included.\<close>

lemma src_ReadFull_cases:
  assumes "src_ReadFull n r = ((b, e), r')"
  shows "scontent r' = scontent r \<and> srcFault r' = srcFault r \<and> spos r' = spos r + length b \<and> length b \<le> n \<and>
    (b \<noteq> [] \<longrightarrow> piece (scontent r) (spos r, b)) \<and> (e = Some SrcEOF \<longrightarrow> length (scontent r) \<le> spos r \<or> n = 0) \<and>
    (e = None \<longrightarrow> length b = n)"
proof -
  have p: "piece (scontent r) (spos r, take k (drop (spos r) (scontent r)))" if "take k (drop (spos r) (scontent r)) \<noteq> []" for k
    by (rule take_piece) (use that in auto)
  show ?thesis
    using assms p p [of "length (scontent r)"] by (auto simp: src_ReadFull_def src_call_def Let_def split: option.splits if_splits)
qed

text \<open>
  The ways an iteration ends: a read or a write that fails, the end of the file, or one chunk more
  on the wire.  A read error after some bytes sends these bytes first.
\<close>

definition next_chunk :: "sender \<Rightarrow> bytes \<Rightarrow> source \<Rightarrow> bool" where
  "next_chunk s b r1 \<longleftrightarrow> scontent r1 = scontent (qsrc s) \<and> srcFault r1 = srcFault (qsrc s) \<and>
     spos r1 = spos (qsrc s) + length b \<and> b \<noteq> [] \<and> length b \<le> StreamChunkSize \<and> piece (scontent (qsrc s)) (spos (qsrc s), b)"

definition chunk_gone :: "sender \<Rightarrow> bytes \<Rightarrow> source \<Rightarrow> writer \<Rightarrow> sender" where
  "chunk_gone s b r1 w = s\<lparr>qsrc := r1, qconn := (qconn s)\<lparr>cwr := w\<rparr>, qoffset := qoffset s + word_of_nat (length b)\<rparr>"

lemma sendChunk_cases:
  obtains (no_read) e r1 where "sendChunk mx s = returns (Inl (ReadChunk (qoffset s) e)) (s\<lparr>qsrc := r1\<rparr>)"
      "scontent r1 = scontent (qsrc s)"
  | (no_write) e b r1 w p where
      "sendChunk mx s = returns (Inl (SendChunk (qoffset s) e)) (s\<lparr>qsrc := r1, qconn := (qconn s)\<lparr>cwr := w\<rparr>\<rparr>)"
      "next_chunk s b r1" "sent w = sent (cwr (qconn s)) @ p" "prefix p (frameBytes mx (encodeChunk (qid s) (qoffset s) b))"
  | (cut_read) e b r1 w where
      "sendChunk mx s = returns (Inl (ReadChunk (qoffset s + word_of_nat (length b)) e)) (chunk_gone s b r1 w)"
      "next_chunk s b r1" "sent w = sent (cwr (qconn s)) @ frameBytes mx (encodeChunk (qid s) (qoffset s) b)"
  | (eof) r1 where "sendChunk mx s = sendDone mx (s\<lparr>qsrc := r1\<rparr>)" "scontent r1 = scontent (qsrc s)" "spos r1 = spos (qsrc s)"
      "length (scontent (qsrc s)) \<le> spos (qsrc s)"
  | (sent) b r1 w where "sendChunk mx s = chunk_gone s b r1 w" "next_chunk s b r1"
      "sent w = sent (cwr (qconn s)) @ frameBytes mx (encodeChunk (qid s) (qoffset s) b)"
proof -
  obtain b e r1 where r: "src_ReadFull StreamChunkSize (qsrc s) = ((b, e), r1)" by (metis surj_pair)
  note rd = src_ReadFull_cases [OF r]
  have ne: "StreamChunkSize \<noteq> 0" by (simp add: StreamChunkSize_def)
  let ?s1 = "s\<lparr>qsrc := r1\<rparr>"
  show thesis
  proof (cases "b = []")
    case True
    have "e \<noteq> None" using rd True ne by auto
    then show thesis
      using True r rd ne eof [of r1] no_read [of _ r1] by (cases "e = Some SrcEOF") (auto simp: sendChunk_def)
  next
    case False
    then have nx: "next_chunk s b r1" using rd by (simp add: next_chunk_def)
    obtain q s2 where p: "put_frame mx (encodeChunk (qid s) (qoffset s) b) ?s1 = (q, s2)" by (metis surj_pair)
    obtain w x where w: "s2 = ?s1\<lparr>qconn := (qconn s)\<lparr>cwr := w\<rparr>\<rparr>" "sent w = sent (cwr (qconn s)) @ x"
      "prefix x (frameBytes mx (encodeChunk (qid s) (qoffset s) b))"
      "q = None \<longrightarrow> x = frameBytes mx (encodeChunk (qid s) (qoffset s) b)"
      using put_frame_cases [OF p] by auto
    consider y where "q = Some y" | y where "q = None" "e = Some (SrcErr y)"
      | "q = None" "\<forall>y. e \<noteq> Some (SrcErr y)" by (cases q) auto
    then show thesis
    proof cases
      case 1
      then show thesis using False r p w(1) no_write [OF _ nx w(2,3)] by (simp add: sendChunk_def)
    next
      case 2
      then show thesis
        using False r p w cut_read [OF _ nx, of "SrcErr y" w] by (simp add: sendChunk_def chunk_gone_def Let_def)
    next
      case 3
      then have "sendChunk mx s = chunk_gone s b r1 w"
        using False r p w(1) by (simp add: sendChunk_def chunk_gone_def Let_def split: option.split srcerr.split)
      then show thesis using sent [OF _ nx] w 3(1) by simp
    qed
  qed
qed

section \<open>The wire\<close>

text \<open>Chunks in a row: each starts where the one before ends, none is empty or too long.\<close>

fun in_row :: "nat \<Rightarrow> (nat \<times> bytes) list \<Rightarrow> nat \<Rightarrow> bool" where
  "in_row a [] b \<longleftrightarrow> a = b"
| "in_row a ((off, d) # ps) b \<longleftrightarrow> off = a \<and> d \<noteq> [] \<and> length d \<le> StreamChunkSize \<and> in_row (a + length d) ps b"

lemma in_row_append: "in_row a (ps @ qs) b \<longleftrightarrow> (\<exists>m. in_row a ps m \<and> in_row m qs b)"
  by (induction a ps b rule: in_row.induct) auto

lemma in_row_le: "in_row a ps b \<Longrightarrow> a \<le> b"
  by (induction a ps b rule: in_row.induct) auto


definition chunks_on_wire :: "u32 \<Rightarrow> bytes \<Rightarrow> (nat \<times> bytes) list \<Rightarrow> bytes" where
  "chunks_on_wire mx i ps = concat (map (frameBytes mx \<circ> chunk_frame i) ps)"

text \<open>
  What follows the chunks on the wire: nothing in the loop, DONE after it.  An error leaves
  nothing, a part of the next chunk or, at the end of the file, a part of DONE; an error of a read
  leaves exactly the chunks up to the offset it reports.
\<close>

definition file_over :: "bytes \<Rightarrow> sender \<Rightarrow> bool" where
  "file_over c s \<longleftrightarrow> qsize s \<le> int (unat (qoffset s)) \<or> length c \<le> unat (qoffset s)"

definition cut_tail :: "u32 \<Rightarrow> bytes \<Rightarrow> sender \<Rightarrow> bytes \<Rightarrow> bool" where
  "cut_tail mx c s left \<longleftrightarrow> left = [] \<or> file_over c s \<and> prefix left (frameBytes mx (done_frame (qid s))) \<or>
     (\<exists>b. b \<noteq> [] \<and> length b \<le> StreamChunkSize \<and> piece c (unat (qoffset s), b) \<and>
        prefix left (frameBytes mx (chunk_frame (qid s) (unat (qoffset s), b))))"

definition wire_tail :: "u32 \<Rightarrow> bytes \<Rightarrow> sender \<Rightarrow> bytes \<Rightarrow> bool" where
  "wire_tail mx c s left =
     (case qphase s of
        Sending \<Rightarrow> left = []
      | Awaiting \<Rightarrow> left = frameBytes mx (done_frame (qid s)) \<and> file_over c s
      | Returned (Inr _) \<Rightarrow> left = frameBytes mx (done_frame (qid s)) \<and> file_over c s
      | Returned (Inl e) \<Rightarrow> cut_tail mx c s left \<and>
          (case e of ReadChunk off _ \<Rightarrow> off = qoffset s \<and> left = [] | SendChunk off _ \<Rightarrow> off = qoffset s | _ \<Rightarrow> True))"

text \<open>The state of the wire at any time.\<close>

definition on_course :: "u32 \<Rightarrow> bytes \<Rightarrow> bytes \<Rightarrow> sender \<Rightarrow> (nat \<times> bytes) list \<Rightarrow> bool" where
  "on_course mx c base s ps \<longleftrightarrow>
     (\<exists>left. sent (cwr (qconn s)) = base @ chunks_on_wire mx (qid s) ps @ left \<and> wire_tail mx c s left) \<and>
     in_row (unat (qresume s)) ps (unat (qoffset s)) \<and> (\<forall>e \<in> set ps. piece c e) \<and>
     (qphase s = Sending \<longrightarrow> spos (qsrc s) = unat (qoffset s)) \<and>
     (\<forall>r. qphase s = Returned (Inr r) \<longrightarrow> BytesSent r = int (unat (qoffset s) - unat (qresume s)) \<and>
        BytesResumed r = int (unat (qresume s)) \<and> TotalBytes r = qsize s \<and> Sha256Hex r = hex (qhash s))"

definition good_size :: "bytes \<Rightarrow> sender \<Rightarrow> bool" where
  "good_size c s \<longleftrightarrow> scontent (qsrc s) = c \<and> length c < 2 ^ 63 \<and> 0 \<le> qsize s \<and> qsize s < 2 ^ 63 \<and>
     int (unat (qresume s)) \<le> qsize s"

definition sender_ok :: "u32 \<Rightarrow> bytes \<Rightarrow> bytes \<Rightarrow> sender \<Rightarrow> bool" where
  "sender_ok mx c base s \<longleftrightarrow> good_size c s \<and> (\<exists>ps. on_course mx c base s ps)"

text \<open>An error that is returned while nothing is being written.\<close>

lemma returned_ok:
  assumes "good_size c s" and o: "on_course mx c base s ps" and ph: "qphase s = Sending \<or> qphase s = Awaiting"
    and e: "\<And>off x. e \<noteq> ReadChunk off x" "\<And>off x. e \<noteq> SendChunk off x"
  shows "sender_ok mx c base (returns (Inl e) (s\<lparr>qdone := d\<rparr>))"
proof -
  obtain left where left: "sent (cwr (qconn s)) = base @ chunks_on_wire mx (qid s) ps @ left" "wire_tail mx c s left"
    using o by (auto simp: on_course_def)
  let ?s = "returns (Inl e) (s\<lparr>qdone := d\<rparr>)"
  have "cut_tail mx c ?s left" using left(2) ph by (auto simp: wire_tail_def cut_tail_def returns_def file_over_def)
  then have "wire_tail mx c ?s left" using e by (simp add: wire_tail_def returns_def split: sendErr.split)
  then have "on_course mx c base ?s ps" using o left(1) by (auto simp: on_course_def returns_def)
  then show ?thesis using assms(1) by (auto simp: sender_ok_def good_size_def returns_def)
qed

lemma moreToSend_iff: "good_size c s \<Longrightarrow> moreToSend s \<longleftrightarrow> int (unat (qoffset s)) < qsize s"
  by (auto simp: moreToSend_def good_size_def word_less_def uint_word_of_int)

lemma on_course_offset:
  assumes "on_course mx c base s ps" and "good_size c s"
  shows "unat (qoffset s) < 2 ^ 63"
proof (cases ps rule: rev_cases)
  case Nil
  then have "int (unat (qoffset s)) < 2 ^ 63" using assms unfolding on_course_def good_size_def by auto
  then show ?thesis by (simp only: of_nat_less_numeral_power_cancel_iff)
next
  case (snoc qs e)
  obtain off d where e: "e = (off, d)" by (cases e)
  have "in_row (unat (qresume s)) (qs @ [(off, d)]) (unat (qoffset s))" "piece c (off, d)"
    using assms snoc e by (simp_all add: on_course_def)
  then have "unat (qoffset s) = off + length d" "off + length d \<le> length c"
    by (auto simp: in_row_append piece_def)
  then show ?thesis using assms(2) by (simp add: good_size_def)
qed

lemma sendDone_ok:
  assumes g: "good_size c s" and o: "on_course mx c base s ps" and ph: "qphase s = Sending" and e: "file_over c s"
  shows "sender_ok mx c base (sendDone mx s)"
proof -
  have w: "sent (cwr (qconn s)) = base @ chunks_on_wire mx (qid s) ps" using o ph by (simp add: on_course_def wire_tail_def)
  have "on_course mx c base (sendDone mx s) ps"
  proof (cases rule: sendDone_cases [of mx s])
    case (failed e' w' p)
    then have "wire_tail mx c (sendDone mx s) p" using e by (simp add: wire_tail_def cut_tail_def file_over_def returns_def)
    then show ?thesis using o w failed by (auto simp: on_course_def returns_def)
  next
    case (sent w')
    then have "wire_tail mx c (sendDone mx s) (frameBytes mx (done_frame (qid s)))" using e by (simp add: wire_tail_def file_over_def)
    then show ?thesis using o w sent by (auto simp: on_course_def)
  qed
  moreover have "good_size c (sendDone mx s)"
    by (rule sendDone_cases [of mx s]) (use g in \<open>simp_all add: good_size_def returns_def\<close>)
  ultimately show ?thesis by (auto simp: sender_ok_def)
qed

text \<open>A chunk that has been written, and what it adds to the row.\<close>

lemma chunk_gone_ok:
  assumes g: "good_size c s" and o: "on_course mx c base s ps" and ph: "qphase s = Sending" and nx: "next_chunk s b r1"
    and w: "sent w = sent (cwr (qconn s)) @ frameBytes mx (encodeChunk (qid s) (qoffset s) b)"
  shows "good_size c (chunk_gone s b r1 w)" and "on_course mx c base (chunk_gone s b r1 w) (ps @ [(unat (qoffset s), b)])"
proof -
  have pos: "spos (qsrc s) = unat (qoffset s)" using o ph by (simp add: on_course_def)
  have pc: "piece c (unat (qoffset s), b)" using nx g pos by (simp add: good_size_def next_chunk_def)
  then have le: "unat (qoffset s) + length b \<le> length c" by (simp add: piece_def)
  have u: "unat (qoffset s + word_of_nat (length b)) = unat (qoffset s) + length b"
    using le g by (simp add: good_size_def unat_word_ariths unat_of_nat)
  have "chunk_frame (qid s) (unat (qoffset s), b) = encodeChunk (qid s) (qoffset s) b"
    by (simp add: chunk_frame_def)
  then show "on_course mx c base (chunk_gone s b r1 w) (ps @ [(unat (qoffset s), b)])"
    using o nx w pos pc ph u
    by (auto simp: on_course_def wire_tail_def chunk_gone_def next_chunk_def chunks_on_wire_def in_row_append)
  show "good_size c (chunk_gone s b r1 w)" using g nx by (simp add: good_size_def chunk_gone_def next_chunk_def)
qed

lemma sendChunk_ok:
  assumes g: "good_size c s" and o: "on_course mx c base s ps" and ph: "qphase s = Sending"
  shows "sender_ok mx c base (sendChunk mx s)"
proof -
  have w0: "sent (cwr (qconn s)) = base @ chunks_on_wire mx (qid s) ps" using o ph by (simp add: on_course_def wire_tail_def)
  show ?thesis
  proof (cases rule: sendChunk_cases [of mx s])
    case (no_read e r1)
    have "on_course mx c base (sendChunk mx s) ps"
      using o w0 by (simp add: no_read(1) on_course_def returns_def wire_tail_def cut_tail_def)
    moreover have "good_size c (sendChunk mx s)" using g no_read by (simp add: good_size_def returns_def)
    ultimately show ?thesis by (auto simp: sender_ok_def)
  next
    case (no_write e b r1 w p)
    have "piece c (unat (qoffset s), b)" "b \<noteq> []" "length b \<le> StreamChunkSize"
      using no_write(2) g o ph by (auto simp: good_size_def on_course_def next_chunk_def)
    then have "wire_tail mx c (sendChunk mx s) p"
      using no_write(4) by (auto simp: no_write(1) wire_tail_def cut_tail_def returns_def chunk_frame_def)
    then have "on_course mx c base (sendChunk mx s) ps"
      using o w0 no_write(3) by (auto simp: no_write(1) on_course_def returns_def)
    moreover have "good_size c (sendChunk mx s)" using g no_write(1,2) by (simp add: good_size_def returns_def next_chunk_def)
    ultimately show ?thesis by (auto simp: sender_ok_def)
  next
    case (cut_read e b r1 w)
    note cg = chunk_gone_ok [OF g o ph cut_read(2,3)]
    have "qphase (chunk_gone s b r1 w) = Sending" using ph by (simp add: chunk_gone_def)
    then have "on_course mx c base (sendChunk mx s) (ps @ [(unat (qoffset s), b)])"
      using cg(2) by (simp add: cut_read(1) on_course_def returns_def wire_tail_def cut_tail_def) (simp add: chunk_gone_def)
    moreover have "good_size c (sendChunk mx s)" using cg(1) by (simp add: cut_read(1) good_size_def returns_def)
    ultimately show ?thesis by (auto simp: sender_ok_def)
  next
    case (eof r1)
    have "good_size c (s\<lparr>qsrc := r1\<rparr>)" "on_course mx c base (s\<lparr>qsrc := r1\<rparr>) ps" "file_over c (s\<lparr>qsrc := r1\<rparr>)"
      using g o eof ph by (auto simp: good_size_def on_course_def wire_tail_def file_over_def)
    then show ?thesis using sendDone_ok [of c "s\<lparr>qsrc := r1\<rparr>" mx base ps] eof(1) ph by simp
  next
    case (sent b r1 w)
    then show ?thesis using chunk_gone_ok [OF g o ph sent(2,3)] unfolding sender_ok_def by auto
  qed
qed

lemma result_ok:
  assumes g: "good_size c s" and o: "on_course mx c base s ps" and ph: "qphase s = Awaiting"
  shows "sender_ok mx c base (returns (finalResult s t) (s\<lparr>qdone := None\<rparr>))"
proof (cases "terminalErr t")
  case None
  note off = on_course_offset [OF o g]
  have le: "unat (qresume s) \<le> unat (qoffset s)" using o in_row_le by (auto simp: on_course_def)
  have "sint (qoffset s - qresume s) = int (unat (qoffset s) - unat (qresume s))" "sint (qresume s) = int (unat (qresume s))"
    using off le sint_small [of "qoffset s - qresume s"] sint_small [of "qresume s"] unat_sub [of "qresume s" "qoffset s"]
    by (auto simp: word_le_nat_alt)
  then have "on_course mx c base (returns (finalResult s t) (s\<lparr>qdone := None\<rparr>)) ps"
    using o ph None by (auto simp: on_course_def returns_def finalResult_def wire_tail_def file_over_def)
  then show ?thesis using g by (auto simp: sender_ok_def good_size_def returns_def)
next
  case (Some e)
  then show ?thesis using returned_ok [OF g o, of "TransferFailed e" None] ph by (simp add: finalResult_def)
qed

lemma sender_ok_cong:
  assumes "sending_part s' = sending_part s"
  shows "sender_ok mx c base s' = sender_ok mx c base s"
proof -
  have f: "file_over c s' = file_over c s" using assms by (simp add: sending_part_def file_over_def)
  then have "cut_tail mx c s' = cut_tail mx c s" using assms by (simp add: sending_part_def cut_tail_def fun_eq_iff)
  with f have "wire_tail mx c s' = wire_tail mx c s" using assms by (simp add: sending_part_def wire_tail_def fun_eq_iff split: sphase.split sum.split sendErr.split)
  then show ?thesis using assms by (simp add: sending_part_def sender_ok_def good_size_def on_course_def)
qed

lemma sender_okE:
  assumes "sender_ok mx c base s"
  obtains ps where "good_size c s" and "on_course mx c base s ps"
  using assms by (auto simp: sender_ok_def)

lemma sstep_any_ok:
  assumes "sstep_any mx s s'" and ok: "sender_ok mx c base s"
  shows "sender_ok mx c base s'"
proof -
  obtain ps where g: "good_size c s" and o: "on_course mx c base s ps" using ok by (rule sender_okE)
  from assms(1) consider "fstep mx s s'" | "expire s s'" | (reads) "s' = streamReadLoop mx s" by (auto simp: sstep_any_def)
  then show ?thesis
  proof cases
    case 1
    then show ?thesis
    proof cases
      case chunk
      then show ?thesis using sendChunk_ok [OF g o] by simp
    next
      case finish
      then have "file_over c s" using moreToSend_iff [OF g] by (simp add: file_over_def)
      then show ?thesis using sendDone_ok [OF g o finish(2)] finish(1) by blast
    next
      case woken
      then show ?thesis using ok sender_ok_cong [of s' s] by (simp add: sending_part_def)
    next
      case (ended t)
      then show ?thesis
        using returned_ok [OF g o, of "errOrTimeout t" None] by (auto simp: errOrTimeout_def split: option.splits)
    next
      case (completed t)
      then show ?thesis using result_ok [OF g o] by simp
    qed
  next
    case 2
    then show ?thesis
      by cases (use returned_ok [OF g o, of _ "qdone s"] in simp_all)
  next
    case reads
    then show ?thesis using ok sender_ok_cong [OF streamReadLoop_keeps] by simp
  qed
qed

section \<open>The window\<close>

definition windowLimit :: nat where
  "windowLimit = streamWindow * StreamChunkSize"

lemma windowBytes_unat: "unat windowBytes = windowLimit"
  by (simp add: windowBytes_def windowLimit_def streamWindow_def StreamChunkSize_def)

lemma gate_honest:
  assumes "gateOpen s" and "qacked s \<le> qoffset s"
  shows "unat (qoffset s) - unat (qacked s) < windowLimit"
  using assms unat_sub [OF assms(2)] windowBytes_unat by (simp add: gateOpen_def not_le word_less_nat_alt)

text \<open>
  The difference wraps when the peer acknowledges more than was sent.  The gate then stays closed,
  unless the acknowledged offset is close to the end of the range.
\<close>

lemma gate_ahead:
  assumes "qoffset s < qacked s"
  shows "gateOpen s \<longleftrightarrow> 2 ^ 64 + unat (qoffset s) < windowLimit + unat (qacked s)"
proof -
  have "unat (qoffset s - qacked s) = 2 ^ 64 + unat (qoffset s) - unat (qacked s)"
    using assms by (simp add: unat_sub_if_size word_less_nat_alt word_size)
  moreover have "unat (qacked s) < 2 ^ 64" using unsigned_less [of "qacked s"] by simp
  ultimately show ?thesis using windowBytes_unat by (auto simp: gateOpen_def not_le word_less_nat_alt)
qed

definition in_window :: "sender \<Rightarrow> bool" where
  "in_window s \<longleftrightarrow> (qacked s \<le> qoffset s \<longrightarrow> unat (qoffset s) - unat (qacked s) < windowLimit + StreamChunkSize)"

lemma sent_in_window:
  assumes off: "unat (qoffset s) < 2 ^ 63" and gate: "gateOpen s" and n: "n \<le> StreamChunkSize"
    and s': "qoffset s' = qoffset s + word_of_nat n" "qacked s' = qacked s"
  shows "in_window s'"
proof (cases "qacked s \<le> qoffset s")
  case True
  have lt: "unat (qoffset s) - unat (qacked s) < windowLimit" by (rule gate_honest [OF gate True])
  have "unat (qoffset s') = unat (qoffset s) + n"
    using off n s' by (simp add: unat_word_ariths unat_of_nat StreamChunkSize_def)
  moreover have "unat (qoffset s) + n - unat (qacked s) < windowLimit + StreamChunkSize" using lt n by arith
  ultimately show ?thesis by (simp add: in_window_def s'(2))
next
  case False
  then have "2 ^ 64 + unat (qoffset s) < windowLimit + unat (qacked s)" using gate gate_ahead by (simp add: not_le)
  moreover have "unat (qoffset s') = unat (qoffset s) + n"
    using off n s' by (simp add: unat_word_ariths unat_of_nat StreamChunkSize_def)
  ultimately have "unat (qoffset s') < unat (qacked s')"
    using n s' off by (simp add: windowLimit_def streamWindow_def StreamChunkSize_def)
  then show ?thesis by (simp add: in_window_def word_le_nat_alt)
qed

lemma reads_in_window: "in_window s \<Longrightarrow> in_window (streamReadLoop mx s)"
  using streamReadLoop_acked [of s mx] streamReadLoop_keeps [of mx s]
  by (auto simp: in_window_def sending_part_def word_le_nat_alt)

lemma sendDone_keeps: "qoffset (sendDone mx s) = qoffset s" "qacked (sendDone mx s) = qacked s"
  by (rule sendDone_cases [of mx s]; simp add: returns_def)+

lemma sstep_any_window:
  assumes "sstep_any mx s s'" and ok: "sender_ok mx c base s" and w: "in_window s"
    and live: "\<And>e. qphase s' \<noteq> Returned (Inl e)"
  shows "in_window s'"
proof -
  from assms(1) consider "fstep mx s s'" | "expire s s'" | (reads) "s' = streamReadLoop mx s" by (auto simp: sstep_any_def)
  then show ?thesis
  proof cases
    case 1
    then show ?thesis
    proof cases
      case chunk
      obtain ps where g: "good_size c s" "on_course mx c base s ps" using ok by (rule sender_okE)
      show ?thesis
      proof (cases rule: sendChunk_cases [of mx s])
        case (no_read e)
        then show ?thesis using live [of "ReadChunk (qoffset s) e"] chunk(1) by (simp add: returns_def)
      next
        case (no_write e)
        then show ?thesis using live [of "SendChunk (qoffset s) e"] chunk(1) by (simp add: returns_def)
      next
        case (cut_read e b)
        then show ?thesis
          using live [of "ReadChunk (qoffset s + word_of_nat (length b)) e"] chunk(1) by (simp add: returns_def)
      next
        case (eof r1)
        then show ?thesis using w chunk(1) by (simp add: in_window_def sendDone_keeps)
      next
        case (sent b r1 wr)
        show ?thesis
          by (rule sent_in_window [OF on_course_offset [OF g(2,1)] chunk(4), of "length b"])
            (use sent(2) in \<open>simp_all add: chunk(1) sent(1) chunk_gone_def next_chunk_def\<close>)
      qed
    qed (use w in \<open>simp_all add: in_window_def sendDone_keeps returns_def\<close>)
  next
    case 2
    then show ?thesis by cases (use w in \<open>simp_all add: in_window_def returns_def\<close>)
  next
    case reads
    then show ?thesis using w reads_in_window by simp
  qed
qed

section \<open>Properties\<close>

definition negotiated :: "u32 \<Rightarrow> conn \<Rightarrow> string \<Rightarrow> source \<Rightarrow> int \<Rightarrow> sender \<Rightarrow> bool" where
  "negotiated mx c name r sz s \<longleftrightarrow> (\<exists>timedOut c1. streamSend mx timedOut c name r sz = (Inr s, c1))"

definition init_of :: "source \<Rightarrow> int \<Rightarrow> string \<Rightarrow> Frame" where
  "init_of r sz name =
     (let h = sha256 (drop (spos r) (scontent r))
      in encodeInit (take 16 h) (word_of_int sz) h (word_of_nat StreamChunkSize) name)"

lemma initAnswer_le:
  assumes "initAnswer i h sz a = Inr off" and "0 \<le> sz" and "sz < 2 ^ 63"
  shows "int (unat off) \<le> sz"
proof -
  have "off \<le> word_of_int sz"
    using assms(1) by (auto simp: initAnswer_def Let_def not_less split: option.splits if_splits)
  then have "uint off \<le> uint (word_of_int sz :: u64)" by (simp add: word_le_def)
  then show ?thesis using assms(2,3) by (simp add: uint_word_of_int)
qed

text \<open>The state in which the loops start.\<close>

lemma negotiated_start:
  assumes "negotiated mx c name r sz s" and len: "length (scontent r) < 2 ^ 63" and sz: "sz < 2 ^ 63"
  shows "good_size (scontent r) s \<and> qsize s = sz \<and> qhash s = sha256 (drop (spos r) (scontent r)) \<and>
    qid s = take 16 (qhash s) \<and> qoffset s = qresume s \<and> qacked s = qresume s \<and>
    on_course mx (scontent r) (sent (cwr c) @ frameBytes mx (init_of r sz name)) s []"
proof -
  obtain timedOut c1 where st: "streamSend mx timedOut c name r sz = (Inr s, c1)"
    using assms(1) by (auto simp: negotiated_def)
  let ?h = "sha256 (drop (spos r) (scontent r))"
  obtain r1 r2 r3 w rd ack off where 1: "src_Copy r = (Inr (drop (spos r) (scontent r)), r1)" "src_Seek 0 r1 = (None, r2)"
    "WriteFrame mx (cwr c) (init_of r sz name) = (None, w)" "initAnswer (take 16 ?h) ?h sz ack = Inr off"
    "src_Seek (unat off) r2 = (None, r3)" "0 \<le> sz"
    "s = \<lparr>qid = take 16 ?h, qhash = ?h, qsize = sz, qresume = off, qsrc = r3, qoffset = off, qacked = off, qnotify = False,
          qdone = None, qreading = True, qconn = \<lparr>crd = rd, cwr = w\<rparr>, qphase = Sending\<rparr>"
    using st by (auto simp: streamSend_def streamSendWithInit_def Let_def init_of_def src_Copy_def
        split: if_splits prod.splits sum.splits option.splits)
  have r3: "scontent r3 = scontent r" "spos r3 = unat off"
    using 1(1,2,5) by (auto simp: src_Copy_def src_Seek_def src_call_def split: option.splits)
  have "int (unat off) \<le> sz" by (rule initAnswer_le [OF 1(4,6) sz])
  then show ?thesis
    using len sz r3 1(6) WriteFrame_sent [OF 1(3)]
    by (simp add: 1(7) good_size_def on_course_def wire_tail_def chunks_on_wire_def)
qed

lemma run_ok:
  assumes "negotiated mx c name r sz s0" and "length (scontent r) < 2 ^ 63" and "sz < 2 ^ 63"
    and run: "(sstep_any mx)\<^sup>*\<^sup>* s0 s"
  shows "sender_ok mx (scontent r) (sent (cwr c) @ frameBytes mx (init_of r sz name)) s \<and>
    ((\<forall>e. qphase s \<noteq> Returned (Inl e)) \<longrightarrow> in_window s)"
proof -
  note st = negotiated_start [OF assms(1-3)]
  let ?base = "sent (cwr c) @ frameBytes mx (init_of r sz name)"
  have ph: "sstep_any mx a b \<Longrightarrow> qphase a = Returned (Inl e) \<Longrightarrow> qphase b = Returned (Inl e)" for a b e
    using streamReadLoop_keeps [of mx a] by (auto simp: sstep_any_def sending_part_def elim!: fstepE expireE)
  from run show ?thesis
  proof induction
    case base
    show ?case using st by (auto simp: sender_ok_def in_window_def windowLimit_def streamWindow_def StreamChunkSize_def)
  next
    case (step a b)
    then show ?case using sstep_any_ok [OF step(2)] sstep_any_window [OF step(2)] ph [OF step(2)] by blast
  qed
qed





text \<open>An example: a file of two bytes, and a peer that has nothing of it yet.\<close>

definition demo_source :: source where
  "demo_source = \<lparr>scontent = [7, 8], spos = 0, scalls = 0, srcFault = (\<lambda>_. None), srcShort = (\<lambda>_. 0)\<rparr>"

definition demo_tid :: bytes where
  "demo_tid = take 16 (sha256 [7, 8])"

definition demo_peer :: "Frame list \<Rightarrow> conn" where
  "demo_peer fs = \<lparr>crd = \<lparr>rbuf = concat (map (frameBytes 65536) fs), rend = EOF\<rparr>, cwr = demo_writer\<rparr>"

definition demo_initAck :: Frame where
  "demo_initAck = encodeOffset streamKindInitAck demo_tid 0"

lemma stream_fits:
  assumes "length i = 16" and "length body + 17 \<le> unat mx"
  shows "fits mx (encodeStreamFrame k i body)"
  using assms by (simp add: fits_def wf_frame_def wf_body_def untagged_def framePayload_def wirePayload_def encodeStreamFrame_def)

lemma stream_payload: "framePayload mx (encodeStreamFrame k i body) = Inr (TypeFileStream, k # i @ body)"
  by (simp add: framePayload_def wirePayload_def encodeStreamFrame_def)

lemma stream_write:
  "wlimit w = None \<Longrightarrow> \<exists>w'. WriteFrame mx w (encodeStreamFrame k i body) = (None, w') \<and> wlimit w' = None"
  by (rule WriteFrame_open [OF stream_payload])

lemma length_demo_tid: "length demo_tid = 16"
  by (simp add: demo_tid_def)

lemma offset_decode [simp]: "decodeOffset (PutUint64 x) = Some x"
  by (rule offset_body.dec_enc) simp

text \<open>A negotiation that succeeds.\<close>

lemma negotiate_ok:
  assumes src: "\<forall>n. srcFault r n = None" and sz: "0 \<le> sz" and w: "wlimit (cwr c) = None"
    and i: "i = take 16 (sha256 (drop (spos r) (scontent r)))"
    and rd: "ReadFrame mx (crd c) = (Inr (encodeOffset streamKindInitAck i off), rd)"
    and off: "off \<le> word_of_int sz"
  shows "\<exists>wr r3. streamSend mx False c name r sz =
      (Inr \<lparr>qid = i, qhash = sha256 (drop (spos r) (scontent r)), qsize = sz, qresume = off, qsrc = r3, qoffset = off,
            qacked = off, qnotify = False, qdone = None, qreading = True, qconn = \<lparr>crd = rd, cwr = wr\<rparr>, qphase = Sending\<rparr>,
       \<lparr>crd = rd, cwr = wr\<rparr>) \<and> wlimit wr = None \<and> sent wr = sent (cwr c) @ frameBytes mx (init_of r sz name) \<and>
      scontent r3 = scontent r \<and> spos r3 = unat off \<and> (\<forall>n. srcFault r3 n = None)"
proof -
  have l: "length i = 16" by (simp add: i)
  obtain t p where p: "framePayload mx (init_of r sz name) = Inr (t, p)"
    by (simp add: init_of_def Let_def encodeInit_def stream_payload)
  obtain wr where wr: "WriteFrame mx (cwr c) (init_of r sz name) = (None, wr)" "wlimit wr = None"
    using WriteFrame_open [OF p w] by blast
  have "initAnswer i (sha256 (drop (spos r) (scontent r))) sz (Some (encodeOffset streamKindInitAck i off)) = Inr off"
    using off l by (auto simp: initAnswer_def encodeOffset_def decode_stream)
  then show ?thesis
    using src sz wr rd WriteFrame_sent [OF wr(1)]
    by (simp add: streamSend_def streamSendWithInit_def src_Copy_def src_Seek_def src_call_def Let_def
        recvFrameTimeout_def i [symmetric] init_of_def [of r sz name, symmetric, unfolded Let_def i [symmetric]])
qed

lemma demo_negotiated:
  "\<exists>s. negotiated 65536 (demo_peer [demo_initAck]) ''f'' demo_source 2 s \<and> qid s = demo_tid \<and> qresume s = 0 \<and> qoffset s = 0 \<and>
     qacked s = 0 \<and> qsize s = 2 \<and> qphase s = Sending \<and> wlimit (cwr (qconn s)) = None \<and>
     scontent (qsrc s) = [7, 8] \<and> spos (qsrc s) = 0 \<and> (\<forall>n. srcFault (qsrc s) n = None)"
proof -
  have f: "fits 65536 demo_initAck"
    by (simp add: demo_initAck_def encodeOffset_def stream_fits length_demo_tid codec_simps)
  have "ReadFrame 65536 (crd (demo_peer [demo_initAck])) = (Inr demo_initAck, \<lparr>rbuf = [], rend = EOF\<rparr>)"
    using ReadFrame_frameBytes [OF f, of "[]" EOF] by (simp add: demo_peer_def)
  then show ?thesis
    using negotiate_ok [of demo_source 2 "demo_peer [demo_initAck]" demo_tid 65536 0 _ "''f''"]
    by (fastforce simp: negotiated_def demo_source_def demo_peer_def demo_writer_def demo_tid_def demo_initAck_def)
qed

lemma demo_chunk_sent:
  "\<exists>s0 s. negotiated 65536 (demo_peer [demo_initAck]) ''f'' demo_source 2 s0 \<and> (sstep_any 65536)\<^sup>*\<^sup>* s0 s \<and>
     qphase s = Sending \<and> qoffset s = 2 \<and> qacked s = 0 \<and> qresume s0 = 0"
proof -
  obtain s where s: "negotiated 65536 (demo_peer [demo_initAck]) ''f'' demo_source 2 s" "qid s = demo_tid" "qresume s = 0"
    "qoffset s = 0" "qacked s = 0" "qsize s = 2" "qphase s = Sending" "wlimit (cwr (qconn s)) = None"
    "scontent (qsrc s) = [7, 8]" "spos (qsrc s) = 0" "\<forall>n. srcFault (qsrc s) n = None"
    using demo_negotiated by blast
  have "0 < unat windowBytes" by (simp add: windowBytes_unat windowLimit_def streamWindow_def StreamChunkSize_def)
  then have g: "gateOpen s" using s by (simp add: gateOpen_def word_le_nat_alt)
  have m: "moreToSend s" using s by (simp add: moreToSend_def)
  have "sstep_any 65536 s (sendChunk 65536 s)" using fstep.chunk [OF s(7) m g] by (simp add: sstep_any_def)
  moreover obtain w where "WriteFrame 65536 (cwr (qconn s)) (encodeChunk demo_tid 0 [7, 8]) = (None, w)"
    using stream_write [OF s(8)] unfolding encodeChunk_def by blast
  then have "qphase (sendChunk 65536 s) = Sending" "qoffset (sendChunk 65536 s) = 2" "qacked (sendChunk 65536 s) = 0"
    using s by (simp_all add: sendChunk_def src_ReadFull_def src_call_def StreamChunkSize_def Let_def put_frame_def)
  ultimately show ?thesis using s(1,3) by blast
qed



text \<open>
  C39. The window.  In every state the loops can reach without an error, if the peer has
  acknowledged no more than was sent, fewer than 16 chunks of 48 KiB plus one are unacknowledged.
\<close>

theorem sender_window:
  assumes "negotiated mx c name r sz s0" and "length (scontent r) < 2 ^ 63" and "sz < 2 ^ 63"
    and "(sstep_any mx)\<^sup>*\<^sup>* s0 s" and "\<forall>e. qphase s \<noteq> Returned (Inl e)" and "qacked s \<le> qoffset s"
  shows "unat (qoffset s) - unat (qacked s) < 17 * (48 * 1024)"
  using run_ok [OF assms(1-4)] assms(5,6)
  by (simp add: in_window_def windowLimit_def streamWindow_def StreamChunkSize_def)

theorem sender_window_witness:
  "\<exists>s0 s. negotiated 65536 (demo_peer [demo_initAck]) ''f'' demo_source 2 s0 \<and> (sstep_any 65536)\<^sup>*\<^sup>* s0 s \<and>
     qoffset s = 2 \<and> qacked s = 0 \<and> unat (qoffset s) - unat (qacked s) < 17 * (48 * 1024)"
proof -
  obtain s0 s where s: "negotiated 65536 (demo_peer [demo_initAck]) ''f'' demo_source 2 s0" "(sstep_any 65536)\<^sup>*\<^sup>* s0 s"
    "qphase s = Sending" "qoffset s = 2" "qacked s = 0" using demo_chunk_sent by blast
  then show ?thesis
    using sender_window [OF s(1) _ _ s(2)] by (intro exI [of _ s0] exI [of _ s]) (simp add: demo_source_def)
qed

text \<open>A peer that acknowledges more than was sent closes the gate: the difference wraps.\<close>

theorem over_ack_closes_gate:
  assumes "qoffset s < qacked s" and "unat (qacked s) \<le> 2 ^ 63"
  shows "\<not> gateOpen s"
  using assms gate_ahead [OF assms(1)] by (simp add: windowLimit_def streamWindow_def StreamChunkSize_def)

end
