(* ===== verification/Negotiation.thy ===== *)
theory Negotiation
  imports SenderProps
begin

text \<open>
  The start of a chunked transfer: what the sender concludes from each answer to its INIT, and
  what the receiver of this package can answer.
\<close>

section \<open>What the receiver answers\<close>

definition init_answers :: "bytes \<Rightarrow> Frame \<Rightarrow> bool" where
  "init_answers i f \<longleftrightarrow> (\<exists>off. f = encodeOffset streamKindInitAck i off) \<or> (\<exists>msg. f = complete_err i msg)"

lemma initOpen_answers:
  "initOpen i sz hash name isNew part priv claim prev b sr w = (f, sr', w') \<Longrightarrow> init_answers i f"
  by (auto simp: initOpen_def initFail_def init_answers_def Let_def split: prod.splits sum.splits if_splits)

lemma handleInit_answers: "handleInit env i body sr w = (f, sr', w') \<Longrightarrow> init_answers i f"
  by (auto simp: handleInit_def split: prod.splits sum.splits option.splits if_splits intro: initOpen_answers)
    (auto simp: init_answers_def)

lemma init_answered:
  assumes "length i = 16" and "HandleFrame env (encodeInit i sz hash chunk name) sr w = (a, sv, sr', w')"
  shows "\<exists>f. a = Some f \<and> init_answers i f"
  using assms handleInit_answers
  by (auto simp: HandleFrame_def encodeInit_def decode_stream split: prod.splits)

section \<open>What the sender makes of it\<close>

text \<open>A file that can be read and a connection that can be written: the answer decides.\<close>

lemma streamSend_answer:
  assumes src: "\<forall>n. srcFault r n = None" and sz: "0 \<le> sz" and w: "wlimit (cwr c) = None"
    and h: "h = sha256 (drop (spos r) (scontent r))" and rd: "recvFrameTimeout mx timedOut (crd c) = (ack, rd)"
  shows "\<exists>wr. sent wr = sent (cwr c) @ frameBytes mx (init_of r sz name) \<and>
    (case initAnswer (take 16 h) h sz ack of
       Inl out \<Rightarrow> streamSend mx timedOut c name r sz = (Inl out, \<lparr>crd = rd, cwr = wr\<rparr>)
     | Inr off \<Rightarrow> \<exists>s. streamSend mx timedOut c name r sz = (Inr s, \<lparr>crd = rd, cwr = wr\<rparr>) \<and> qresume s = off \<and> qoffset s = off)"
proof -
  obtain t p where p: "framePayload mx (init_of r sz name) = Inr (t, p)"
    by (simp add: init_of_def Let_def encodeInit_def stream_payload)
  obtain wr where wr: "WriteFrame mx (cwr c) (init_of r sz name) = (None, wr)"
    using WriteFrame_open [OF p w] by blast
  show ?thesis
    using src sz wr rd WriteFrame_sent [OF wr(1)]
    by (intro exI [of _ wr])
      (simp add: streamSend_def streamSendWithInit_def src_Copy_def src_Seek_def src_call_def Let_def
        h [symmetric] init_of_def [of r sz name, unfolded Let_def h [symmetric]] split: sum.split)
qed

text \<open>The answers that mean a peer without the protocol.\<close>

definition foreign :: "bytes \<Rightarrow> Frame option \<Rightarrow> bool" where
  "foreign i ack \<longleftrightarrow> (case decodeStreamFrame ack of None \<Rightarrow> True
     | Some (kind, j, _) \<Rightarrow> j \<noteq> i \<or> kind \<noteq> streamKindComplete \<and> kind \<noteq> streamKindInitAck)"

lemma foreign_unsupported: "foreign i ack \<Longrightarrow> initAnswer i h sz ack = Inl (Inl ErrStreamUnsupported)"
  by (auto simp: foreign_def initAnswer_def split: option.splits prod.splits)

lemma refusal_reported:
  "length i = 16 \<Longrightarrow> initAnswer i h sz (Some (complete_err i msg)) =
     Inl (Inr \<lparr>BytesSent = 0, BytesResumed = 0, TotalBytes = sz, Sha256Hex = hex h, OK = False, Message = msg\<rparr>)"
  by (simp add: initAnswer_def complete_err_def encodeComplete_def decode_stream completeBody_def decodeComplete_def)

lemma ack_accepted:
  "length i = 16 \<Longrightarrow> initAnswer i h sz (Some (encodeOffset streamKindInitAck i off)) =
     Inr (if off > word_of_int sz then word_of_int sz else off)"
  by (simp add: initAnswer_def encodeOffset_def decode_stream)

text \<open>
  C16. The negotiation.  The sender puts the INIT on the wire and nothing else.  If the receiver of
  this package answers, then either it accepts and the sender starts at its offset, at most the
  size, or it refuses and the sender returns the reason it gave, without an error and so without
  a second attempt.  If the answer does not come in time, cannot be read, or is not an answer to
  this INIT, the sender returns the error that makes its caller fall back to one frame.
\<close>

theorem negotiation:
  assumes "\<forall>n. srcFault r n = None" and "0 \<le> sz" and "wlimit (cwr c) = None"
    and "recvFrameTimeout mx timedOut (crd c) = (ack, rd)"
    and "h = sha256 (drop (spos r) (scontent r))" and "i = take 16 h"
    and "streamSend mx timedOut c name r sz = (out, c')"
  shows "sent (cwr c') = sent (cwr c) @ frameBytes mx (init_of r sz name) \<and>
    (HandleFrame env (init_of r sz name) sr w = (ack, sv, sr', w') \<longrightarrow>
       (\<exists>off s. ack = Some (encodeOffset streamKindInitAck i off) \<and> out = Inr s \<and>
          qresume s = min off (word_of_int sz) \<and> qoffset s = qresume s) \<or>
       (\<exists>msg. ack = Some (complete_err i msg) \<and>
          out = Inl (Inr \<lparr>BytesSent = 0, BytesResumed = 0, TotalBytes = sz, Sha256Hex = hex h, OK = False, Message = msg\<rparr>))) \<and>
    (foreign i ack \<longrightarrow> out = Inl (Inl ErrStreamUnsupported))"
proof -
  have l: "length i = 16" using assms(5,6) by simp
  obtain wr where wr: "sent wr = sent (cwr c) @ frameBytes mx (init_of r sz name)"
    "case initAnswer i h sz ack of
       Inl out \<Rightarrow> streamSend mx timedOut c name r sz = (Inl out, \<lparr>crd = rd, cwr = wr\<rparr>)
     | Inr off \<Rightarrow> \<exists>s. streamSend mx timedOut c name r sz = (Inr s, \<lparr>crd = rd, cwr = wr\<rparr>) \<and> qresume s = off \<and> qoffset s = off"
    using streamSend_answer [OF assms(1-3,5,4)] assms(6) by blast
  have c': "sent (cwr c') = sent (cwr c) @ frameBytes mx (init_of r sz name)"
    using wr assms(7) by (auto split: sum.splits)
  have accepted: "\<exists>s. out = Inr s \<and> qresume s = min off (word_of_int sz) \<and> qoffset s = qresume s"
    if "ack = Some (encodeOffset streamKindInitAck i off)" for off
    using wr(2) [unfolded that ack_accepted [OF l]] assms(7) by (auto simp: min_def)
  have refused: "out = Inl (Inr \<lparr>BytesSent = 0, BytesResumed = 0, TotalBytes = sz, Sha256Hex = hex h, OK = False, Message = msg\<rparr>)"
    if "ack = Some (complete_err i msg)" for msg
    using wr(2) [unfolded that refusal_reported [OF l]] assms(7) by simp
  have other: "out = Inl (Inl ErrStreamUnsupported)" if "foreign i ack"
    using wr(2) assms(7) by (simp add: foreign_unsupported [OF that])
  have "\<exists>f. ack = Some f \<and> init_answers i f" if "HandleFrame env (init_of r sz name) sr w = (ack, sv, sr', w')"
    using init_answered [OF l] that assms(5,6) unfolding init_of_def Let_def by blast
  then show ?thesis using c' accepted refused other unfolding init_answers_def by blast
qed

lemma demo_tid_init:
  "\<exists>sr w. HandleFrame demo_env (init_frame demo_tid [7, 8] ''f'') demo_sr demo_world =
     (Some (encodeOffset streamKindInitAck demo_tid 0), [], sr, w)"
  by (simp add: demo_init_simps length_demo_tid)

theorem negotiation_witness:
  "\<exists>s c'. streamSend 65536 False (demo_peer [demo_initAck]) ''f'' demo_source 2 = (Inr s, c') \<and> qresume s = 0 \<and>
     fst (streamSend 65536 True (demo_peer [demo_initAck]) ''f'' demo_source 2) = Inl (Inl ErrStreamUnsupported)"
proof -
  obtain sr w where h: "HandleFrame demo_env (init_of demo_source 2 ''f'') demo_sr demo_world = (Some demo_initAck, [], sr, w)"
    using demo_tid_init by (auto simp: init_of_def init_frame_def demo_source_def demo_initAck_def demo_tid_def Let_def)
  have src: "\<forall>n. srcFault demo_source n = None" "wlimit (cwr (demo_peer [demo_initAck])) = None"
    "drop (spos demo_source) (scontent demo_source) = [7, 8]"
    by (simp_all add: demo_source_def demo_peer_def demo_writer_def)
  have f: "fits 65536 demo_initAck"
    by (simp add: demo_initAck_def encodeOffset_def stream_fits length_demo_tid codec_simps)
  have rd: "recvFrameTimeout 65536 False (crd (demo_peer [demo_initAck])) = (Some demo_initAck, \<lparr>rbuf = [], rend = EOF\<rparr>)"
    using ReadFrame_frameBytes [OF f, of "[]" EOF] by (simp add: recvFrameTimeout_def demo_peer_def)
  have late: "recvFrameTimeout 65536 True (crd (demo_peer [demo_initAck])) = (None, crd (demo_peer [demo_initAck]))"
    "foreign demo_tid None"
    by (simp_all add: recvFrameTimeout_def foreign_def decodeStreamFrame_def)
  obtain o1 c1 o2 c2 where s: "streamSend 65536 False (demo_peer [demo_initAck]) ''f'' demo_source 2 = (o1, c1)"
    "streamSend 65536 True (demo_peer [demo_initAck]) ''f'' demo_source 2 = (o2, c2)" by (metis surj_pair)
  have no: "demo_initAck \<noteq> complete_err demo_tid msg" for msg
    by (simp add: demo_initAck_def encodeOffset_def complete_err_def encodeComplete_def encodeStreamFrame_def mkFrame_def)
  have off: "off = 0" if "demo_initAck = encodeOffset streamKindInitAck demo_tid off" for off
    using arg_cong [OF that, of "\<lambda>f. decodeOffset (drop 17 (Payload f))"]
    by (simp add: demo_initAck_def encodeOffset_def encodeStreamFrame_def length_demo_tid)
  have tid: "demo_tid = take 16 (sha256 (drop (spos demo_source) (scontent demo_source)))"
    by (simp add: src(3) demo_tid_def)
  have sz: "(0 :: int) \<le> 2" by simp
  obtain x s' where x: "demo_initAck = encodeOffset streamKindInitAck demo_tid x" "o1 = Inr s'" "qresume s' = min x (word_of_int 2)"
    using negotiation [OF src(1) sz src(2) rd refl tid s(1), THEN conjunct2, THEN conjunct1, THEN mp, OF h] no
    by (metis option.inject)
  have "o2 = Inl (Inl ErrStreamUnsupported)"
    using negotiation [OF src(1) sz src(2) late(1) refl tid s(2)] late(2) by blast
  then show ?thesis using s x off [OF x(1)] by (simp add: min_def)
qed

end
