(* ===== verification/StreamTransfer.thy ===== *)
theory StreamTransfer
  imports Negotiation
begin

text \<open>
  Sender and receiver of a chunked transfer joined by a connection: bytes on their way to the
  receiver, answers on their way back, and any interleaving of the two goroutines of the sender
  with the receiver.  Without faults and timers every run ends, and ends with the file delivered.
\<close>

section \<open>The joined system\<close>

record link =
  lsnd :: sender
  lup :: bytes
  lsr :: streamReceiver
  lworld :: world
  lsaved :: saved

definition wire_of :: "sender \<Rightarrow> bytes" where
  "wire_of s = sent (cwr (qconn s))"

abbreviation answers_of :: "sender \<Rightarrow> bytes" where
  "answers_of s \<equiv> rbuf (crd (qconn s))"

definition give_answer :: "u32 \<Rightarrow> Frame option \<Rightarrow> sender \<Rightarrow> sender" where
  "give_answer mx a s =
     (let rd = crd (qconn s); bs = (case a of None \<Rightarrow> [] | Some g \<Rightarrow> frameBytes mx g)
      in s\<lparr>qconn := (qconn s)\<lparr>crd := rd\<lparr>rbuf := rbuf rd @ bs\<rparr>\<rparr>\<rparr>)"

inductive lstep :: "srEnv \<Rightarrow> u32 \<Rightarrow> link \<Rightarrow> link \<Rightarrow> bool" for env mx where
  forward: "fstep mx (lsnd x) s \<Longrightarrow>
    lstep env mx x (x\<lparr>lsnd := s, lup := lup x @ drop (length (wire_of (lsnd x))) (wire_of s)\<rparr>)"
| backward: "qreading (lsnd x) \<Longrightarrow> answers_of (lsnd x) \<noteq> [] \<Longrightarrow>
    lstep env mx x (x\<lparr>lsnd := streamReadLoop mx (lsnd x)\<rparr>)"
| receive: "ReadFrame mx \<lparr>rbuf = lup x, rend = EOF\<rparr> = (Inr f, rd) \<Longrightarrow>
    HandleFrame env f (lsr x) (lworld x) = (a, sv, sr, w) \<Longrightarrow>
    lstep env mx x (x\<lparr>lsnd := give_answer mx a (lsnd x), lup := rbuf rd, lsr := sr, lworld := w,
      lsaved := lsaved x @ sv\<rparr>)"

inductive_cases lstepE: "lstep env mx x y"

section \<open>The invariant\<close>

text \<open>Sizes: a frame of a full chunk is within the frame cap, the content within 63 bits.\<close>

definition roomy :: "u32 \<Rightarrow> bytes \<Rightarrow> bytes \<Rightarrow> bool" where
  "roomy mx i c \<longleftrightarrow> StreamChunkSize + 25 \<le> unat mx \<and> length c < 2 ^ 63 \<and> length i = 16 \<and> i = take 16 (sha256 c)"

definition acks_on_wire :: "u32 \<Rightarrow> bytes \<Rightarrow> nat list \<Rightarrow> bytes" where
  "acks_on_wire mx i as = concat (map (\<lambda>a. frameBytes mx (encodeOffset streamKindAck i (word_of_nat a))) as)"

text \<open>The sender while nothing has gone wrong.\<close>

definition healthy :: "bytes \<Rightarrow> bytes \<Rightarrow> u64 \<Rightarrow> sender \<Rightarrow> bool" where
  "healthy i c off s \<longleftrightarrow> qid s = i \<and> qhash s = sha256 c \<and> qsize s = int (length c) \<and> qresume s = off \<and>
     scontent (qsrc s) = c \<and> (\<forall>n. srcFault (qsrc s) n = None) \<and> wlimit (cwr (qconn s)) = None \<and>
     rend (crd (qconn s)) = EOF \<and> unat (qoffset s) \<le> length c \<and> unat off \<le> unat (qoffset s)"

text \<open>The transfer on the side of the receiver: in step with the content, nothing held back.\<close>

definition receiving :: "srEnv \<Rightarrow> string \<Rightarrow> string \<Rightarrow> bytes \<Rightarrow> bytes \<Rightarrow> streamReceiver \<Rightarrow> world \<Rightarrow> recvTransfer \<Rightarrow> bool" where
  "receiving env dir name i c sr w t \<longleftrightarrow> map_of (transfers sr) i = Some t \<and> synced c t w \<and> tpending t = [] \<and>
     no_faults (wfs w) \<and> thash t = sha256 c \<and> tname t = sanitizeBase name \<and> receivedDir sr = dir \<and>
     (tpartial t, tprivate t) \<in> partial_names env (shared_partial sr i) \<and> lookup (wfs w) (tpartial t) = Some (tfile t)"

text \<open>
  While the transfer goes on: \<open>qs\<close> are the chunks on their way, \<open>as\<close> the acknowledgements on
  their way back.
\<close>

definition going ::
  "srEnv \<Rightarrow> u32 \<Rightarrow> string \<Rightarrow> string \<Rightarrow> bytes \<Rightarrow> bytes \<Rightarrow> u64 \<Rightarrow> link \<Rightarrow> recvTransfer \<Rightarrow> (nat \<times> bytes) list \<Rightarrow> nat list \<Rightarrow> bool" where
  "going env mx dir name i c off x t qs as \<longleftrightarrow>
     healthy i c off (lsnd x) \<and> receiving env dir name i c (lsr x) (lworld x) t \<and>
     qreading (lsnd x) \<and> qdone (lsnd x) = None \<and> lsaved x = [] \<and>
     (qphase (lsnd x) = Sending \<and> spos (qsrc (lsnd x)) = unat (qoffset (lsnd x)) \<or>
      qphase (lsnd x) = Awaiting \<and> unat (qoffset (lsnd x)) = length c) \<and>
     lup x = chunks_on_wire mx i qs @ (if qphase (lsnd x) = Sending then [] else frameBytes mx (done_frame i)) \<and>
     in_row (tcursor t) qs (unat (qoffset (lsnd x))) \<and> (\<forall>e \<in> set qs. piece c e) \<and>
     answers_of (lsnd x) = acks_on_wire mx i as \<and> sorted (unat (qacked (lsnd x)) # as) \<and>
     last (unat (qacked (lsnd x)) # as) = tcursor t"

text \<open>The file is stored and reported.\<close>

definition delivered :: "srEnv \<Rightarrow> string \<Rightarrow> string \<Rightarrow> bytes \<Rightarrow> link \<Rightarrow> bool" where
  "delivered env dir name c x \<longleftrightarrow> (\<exists>n q. let final = nameSuffix env n q (sanitizeBase name); path = filepath_Join [dir, final] in
     lsaved x = [(final, path, length c)] \<and>
     map_option (\<lambda>ino. fdata (store (wfs (lworld x)) ! ino)) (lookup (wfs (lworld x)) path) = Some c)"

definition completed_ok :: streamTerminal where
  "completed_ok = \<lparr>terminalErr = None, completeOK = True, completeMsg = [], complete = True\<rparr>"

text \<open>After DONE: COMPLETE is behind the last acknowledgements, or has been read.\<close>

definition closing :: "srEnv \<Rightarrow> u32 \<Rightarrow> string \<Rightarrow> string \<Rightarrow> bytes \<Rightarrow> bytes \<Rightarrow> u64 \<Rightarrow> link \<Rightarrow> nat list option \<Rightarrow> bool" where
  "closing env mx dir name i c off x rest \<longleftrightarrow>
     healthy i c off (lsnd x) \<and> delivered env dir name c x \<and> lup x = [] \<and>
     qphase (lsnd x) = Awaiting \<and> unat (qoffset (lsnd x)) = length c \<and>
     (case rest of
        Some as \<Rightarrow> qreading (lsnd x) \<and> qdone (lsnd x) = None \<and>
          answers_of (lsnd x) = acks_on_wire mx i as @ frameBytes mx (encodeComplete i True [])
      | None \<Rightarrow> \<not> qreading (lsnd x) \<and> qdone (lsnd x) = Some completed_ok \<and> answers_of (lsnd x) = [])"

definition success :: "srEnv \<Rightarrow> string \<Rightarrow> string \<Rightarrow> bytes \<Rightarrow> u64 \<Rightarrow> link \<Rightarrow> bool" where
  "success env dir name c off x \<longleftrightarrow> delivered env dir name c x \<and> lup x = [] \<and>
     \<not> qreading (lsnd x) \<and>
     qphase (lsnd x) = Returned (Inr \<lparr>BytesSent = int (length c - unat off), BytesResumed = int (unat off),
       TotalBytes = int (length c), Sha256Hex = hex (sha256 c), OK = True, Message = []\<rparr>)"

text \<open>The states of a run, with a bound on the steps that are left.\<close>

inductive progress ::
  "srEnv \<Rightarrow> u32 \<Rightarrow> string \<Rightarrow> string \<Rightarrow> bytes \<Rightarrow> bytes \<Rightarrow> u64 \<Rightarrow> nat \<Rightarrow> link \<Rightarrow> bool" for env mx dir name i c off where
  going: "going env mx dir name i c off x t qs as \<Longrightarrow>
    progress env mx dir name i c off
      (4 * (length c - unat (qoffset (lsnd x))) + 3 * length qs + 2 * length as + of_bool (qnotify (lsnd x)) +
       (if qphase (lsnd x) = Sending then 8 else 4)) x"
| closing: "closing env mx dir name i c off x rest \<Longrightarrow>
    progress env mx dir name i c off
      (1 + (case rest of None \<Rightarrow> 0 | Some as \<Rightarrow> 2 * length as + 2) + of_bool (qnotify (lsnd x))) x"
| success: "success env dir name c off x \<Longrightarrow> progress env mx dir name i c off 0 x"

section \<open>Reading from the two directions\<close>

lemma chunk_fits:
  assumes "roomy mx i c" and "length d \<le> StreamChunkSize"
  shows "fits mx (chunk_frame i (off, d))"
  using assms by (auto simp: chunk_frame_def encodeChunk_def chunkBody_def codec_simps roomy_def intro!: stream_fits)

lemma small_fits:
  assumes "roomy mx i c" and "length body \<le> 8"
  shows "fits mx (encodeStreamFrame k i body)"
  using assms by (intro stream_fits) (auto simp: roomy_def StreamChunkSize_def)

lemma read_next:
  assumes "fits mx f" and "rbuf rd = frameBytes mx f @ rest" and "rend rd = e"
  shows "ReadFrame mx rd = (Inr f, \<lparr>rbuf = rest, rend = e\<rparr>)"
proof -
  have "rd = \<lparr>rbuf = frameBytes mx f @ rest, rend = e\<rparr>" using assms(2,3) by simp
  then show ?thesis using ReadFrame_frameBytes [OF assms(1)] by metis
qed

lemma fits_not_Nil: "fits mx f \<Longrightarrow> frameBytes mx f \<noteq> []"
  by (erule fits_payload) (metis append_is_Nil_conv length_frameHeader list.size(3) zero_neq_numeral)

lemma read_empty: "ReadFrame mx \<lparr>rbuf = [], rend = e\<rparr> \<noteq> (Inr f, rd)"
  using ReadFrame_safe [of mx "\<lparr>rbuf = [], rend = e\<rparr>" f rd] by auto

text \<open>One acknowledgement, and COMPLETE, in the reading goroutine.\<close>

lemma reads_ack:
  assumes room: "roomy mx i c" and h: "healthy i c off s"
    and b: "answers_of s = frameBytes mx (encodeOffset streamKindAck i (word_of_nat a)) @ rest"
  shows "streamReadLoop mx s =
    advanceAcked (word_of_nat a) (s\<lparr>qconn := (qconn s)\<lparr>crd := \<lparr>rbuf = rest, rend = EOF\<rparr>\<rparr>\<rparr>)"
proof -
  have "fits mx (encodeOffset streamKindAck i (word_of_nat a))"
    using small_fits [OF room] by (simp add: encodeOffset_def codec_simps)
  then have "ReadFrame mx (crd (qconn s)) = (Inr (encodeOffset streamKindAck i (word_of_nat a)), \<lparr>rbuf = rest, rend = EOF\<rparr>)"
    using b h by (intro read_next) (auto simp: healthy_def)
  then show ?thesis
    using room h by (simp add: streamReadLoop_def encodeOffset_def decode_stream roomy_def healthy_def)
qed

lemma reads_complete:
  assumes room: "roomy mx i c" and h: "healthy i c off s"
    and b: "answers_of s = frameBytes mx (encodeComplete i True []) @ rest"
  shows "streamReadLoop mx s = terminates completed_ok (s\<lparr>qconn := (qconn s)\<lparr>crd := \<lparr>rbuf = rest, rend = EOF\<rparr>\<rparr>\<rparr>)"
proof -
  have "fits mx (encodeComplete i True [])"
    using small_fits [OF room] by (simp add: encodeComplete_def completeBody_def)
  then have "ReadFrame mx (crd (qconn s)) = (Inr (encodeComplete i True []), \<lparr>rbuf = rest, rend = EOF\<rparr>)"
    using b h by (intro read_next) (auto simp: healthy_def)
  then show ?thesis
    using room h by (simp add: streamReadLoop_def encodeComplete_def decode_stream roomy_def healthy_def readCompleted_def
        completeBody_def decodeComplete_def completed_ok_def)
qed

section \<open>The sending goroutine\<close>

lemma sendChunk_fine:
  assumes h: "healthy i c off s" and pos: "spos (qsrc s) = unat (qoffset s)" and m: "unat (qoffset s) < length c"
    and big: "length c < 2 ^ 63"
  shows "\<exists>b w r1. sendChunk mx s = s\<lparr>qsrc := r1, qconn := (qconn s)\<lparr>cwr := w\<rparr>, qoffset := qoffset s + word_of_nat (length b)\<rparr> \<and>
    scontent r1 = c \<and> (\<forall>n. srcFault r1 n = None) \<and> spos r1 = unat (qoffset s) + length b \<and> wlimit w = None \<and>
    sent w = wire_of s @ frameBytes mx (chunk_frame i (unat (qoffset s), b)) \<and> b \<noteq> [] \<and> length b \<le> StreamChunkSize \<and>
    piece c (unat (qoffset s), b) \<and> unat (qoffset s + word_of_nat (length b)) = unat (qoffset s) + length b"
proof -
  let ?b = "take StreamChunkSize (drop (unat (qoffset s)) c)"
  have cs: "0 < StreamChunkSize" by (simp add: StreamChunkSize_def)
  have ne: "?b \<noteq> []" using m cs by simp
  let ?r = "(qsrc s)\<lparr>scalls := Suc (scalls (qsrc s)), spos := unat (qoffset s) + length ?b\<rparr>"
  have r: "\<exists>e. src_ReadFull StreamChunkSize (qsrc s) = ((?b, e), ?r) \<and> (e = None \<or> e = Some SrcUnexpectedEOF)"
    using h pos ne by (simp add: src_ReadFull_def src_call_def healthy_def Let_def)
  obtain w where w: "WriteFrame mx (cwr (qconn s)) (encodeChunk i (qoffset s) ?b) = (None, w)" "wlimit w = None"
    using stream_write [of "cwr (qconn s)"] h unfolding encodeChunk_def healthy_def by blast
  have cf: "chunk_frame i (unat (qoffset s), ?b) = encodeChunk i (qoffset s) ?b" by (simp add: chunk_frame_def)
  have pc: "piece c (unat (qoffset s), ?b)" using m by (intro take_piece) simp
  then have le: "unat (qoffset s) + length ?b \<le> length c" by (simp add: piece_def)
  have u: "unat (qoffset s + word_of_nat (length ?b)) = unat (qoffset s) + length ?b"
    using le big by (simp add: unat_word_ariths unat_of_nat)
  have "sendChunk mx s = s\<lparr>qsrc := ?r, qconn := (qconn s)\<lparr>cwr := w\<rparr>, qoffset := qoffset s + word_of_nat (length ?b)\<rparr>"
    using r w(1) h ne by (auto simp: sendChunk_def Let_def put_frame_def healthy_def)
  then show ?thesis
    using w(2) WriteFrame_sent [OF w(1)] cf pc u ne h
    by (intro exI [of _ ?b] exI [of _ w] exI [of _ ?r]) (simp add: healthy_def wire_of_def)
qed

lemma sendDone_fine:
  assumes h: "healthy i c off s"
  shows "\<exists>w. sendDone mx s = s\<lparr>qconn := (qconn s)\<lparr>cwr := w\<rparr>, qphase := Awaiting\<rparr> \<and> wlimit w = None \<and>
    sent w = wire_of s @ frameBytes mx (done_frame i)"
proof -
  obtain w where w: "WriteFrame mx (cwr (qconn s)) (done_frame i) = (None, w)" "wlimit w = None"
    using stream_write [of "cwr (qconn s)"] h unfolding done_frame_def healthy_def by blast
  then show ?thesis
    using h WriteFrame_sent [OF w(1)] by (auto simp: sendDone_def put_frame_def healthy_def done_frame_def wire_of_def)
qed

section \<open>Steps\<close>

definition going_left :: "bytes \<Rightarrow> link \<Rightarrow> (nat \<times> bytes) list \<Rightarrow> nat list \<Rightarrow> nat" where
  "going_left c x qs as = 4 * (length c - unat (qoffset (lsnd x))) + 3 * length qs + 2 * length as +
     of_bool (qnotify (lsnd x)) + (if qphase (lsnd x) = Sending then 8 else 4)"

lemma going_progress:
  "going env mx dir name i c off x t qs as \<Longrightarrow> progress env mx dir name i c off (going_left c x qs as) x"
  unfolding going_left_def by (rule progress.going)

lemma going_more:
  assumes "going env mx dir name i c off x t qs as" and "length c < 2 ^ 63"
  shows "moreToSend (lsnd x) \<longleftrightarrow> unat (qoffset (lsnd x)) < length c"
proof -
  have "unat (word_of_nat (length c) :: u64) = length c" using assms(2) by (simp add: unat_of_nat)
  then show ?thesis using assms(1) by (simp add: going_def healthy_def moreToSend_def word_less_nat_alt)
qed

lemma going_forward:
  assumes room: "roomy mx i c" and g: "going env mx dir name i c off x t qs as" and f: "fstep mx (lsnd x) s"
    and y: "y = x\<lparr>lsnd := s, lup := lup x @ drop (length (wire_of (lsnd x))) (wire_of s)\<rparr>"
  shows "\<exists>m < going_left c x qs as. progress env mx dir name i c off m y"
proof -
  have h: "healthy i c off (lsnd x)" and big: "length c < 2 ^ 63" using g room by (simp_all add: going_def roomy_def)
  note more = going_more [OF g big]
  from f show ?thesis
  proof cases
    case chunk
    have pos: "spos (qsrc (lsnd x)) = unat (qoffset (lsnd x))" using g chunk(2) by (simp add: going_def)
    obtain b w r1 where s: "s = (lsnd x)\<lparr>qsrc := r1, qconn := (qconn (lsnd x))\<lparr>cwr := w\<rparr>,
        qoffset := qoffset (lsnd x) + word_of_nat (length b)\<rparr>" and w: "wlimit w = None"
        "sent w = wire_of (lsnd x) @ frameBytes mx (chunk_frame i (unat (qoffset (lsnd x)), b))"
      and r: "scontent r1 = c" "\<forall>n. srcFault r1 n = None" "spos r1 = unat (qoffset (lsnd x)) + length b"
      and b: "b \<noteq> []" "length b \<le> StreamChunkSize" "piece c (unat (qoffset (lsnd x)), b)"
      and u: "unat (qoffset (lsnd x) + word_of_nat (length b)) = unat (qoffset (lsnd x)) + length b"
      using sendChunk_fine [OF h pos _ big, of mx] more chunk(1,3) by auto
    have le: "unat (qoffset (lsnd x)) + length b \<le> length c" using b(3) by (simp add: piece_def)
    let ?qs = "qs @ [(unat (qoffset (lsnd x)), b)]"
    have "going env mx dir name i c off y t ?qs as"
      using g chunk(2) w r b u le
      by (auto simp: y s going_def healthy_def in_row_append chunks_on_wire_def wire_of_def)
    moreover have "going_left c y ?qs as < going_left c x qs as"
      using le b(1) u chunk(2) by (cases b) (auto simp: going_left_def y s)
    ultimately show ?thesis using going_progress by blast
  next
    case finish
    obtain w where s: "s = (lsnd x)\<lparr>qconn := (qconn (lsnd x))\<lparr>cwr := w\<rparr>, qphase := Awaiting\<rparr>" and w: "wlimit w = None"
      "sent w = wire_of (lsnd x) @ frameBytes mx (done_frame i)"
      using sendDone_fine [OF h, of mx] finish(1) by auto
    have "unat (qoffset (lsnd x)) = length c" using more finish(3) h by (simp add: healthy_def)
    then have "going env mx dir name i c off y t qs as"
      using g finish(2) w by (auto simp: y s going_def healthy_def wire_of_def)
    moreover have "going_left c y qs as < going_left c x qs as" using finish(2) by (simp add: going_left_def y s)
    ultimately show ?thesis using going_progress by blast
  next
    case woken
    have "going env mx dir name i c off y t qs as"
      using g by (auto simp: y woken(1) going_def healthy_def wire_of_def)
    moreover have "going_left c y qs as < going_left c x qs as" using woken by (simp add: going_left_def y)
    ultimately show ?thesis using going_progress by blast
  qed (use g in \<open>simp_all add: going_def\<close>)
qed

lemma advance_to: "qacked s \<le> z \<Longrightarrow> advanceAcked z s = s\<lparr>qacked := z, qnotify := True\<rparr>"
  by (cases s) (auto simp: advanceAcked_def)

lemma le_last: "sorted xs \<Longrightarrow> z \<in> set xs \<Longrightarrow> z \<le> last xs" for xs :: "nat list"
  by (induction xs) auto

lemma going_backward:
  assumes room: "roomy mx i c" and g: "going env mx dir name i c off x t qs as" and ne: "answers_of (lsnd x) \<noteq> []"
    and y: "y = x\<lparr>lsnd := streamReadLoop mx (lsnd x)\<rparr>"
  shows "\<exists>m < going_left c x qs as. progress env mx dir name i c off m y"
proof -
  have h: "healthy i c off (lsnd x)" using g by (simp add: going_def)
  obtain a as' where as: "as = a # as'" using g ne by (cases as) (auto simp: going_def acks_on_wire_def)
  have b: "answers_of (lsnd x) = frameBytes mx (encodeOffset streamKindAck i (word_of_nat a)) @ acks_on_wire mx i as'"
    using g as by (simp add: going_def acks_on_wire_def)
  have so: "sorted (unat (qacked (lsnd x)) # a # as')" and la: "last (a # as') = tcursor t" using g as by (simp_all add: going_def)
  have "a \<le> tcursor t" using le_last [of "a # as'" a] so la by simp
  moreover have "tcursor t \<le> length c" using g by (auto simp: going_def receiving_def synced_def tinv_def)
  ultimately have a: "unat (word_of_nat a :: u64) = a" using room by (auto simp: roomy_def unat_of_nat)
  note rd = reads_ack [OF room h b]
  have ack: "qacked (lsnd x) \<le> word_of_nat a" using so a by (simp add: word_le_nat_alt)
  have rd': "streamReadLoop mx (lsnd x) = (lsnd x)\<lparr>qconn := (qconn (lsnd x))\<lparr>crd := \<lparr>rbuf = acks_on_wire mx i as', rend = EOF\<rparr>\<rparr>,
      qacked := word_of_nat a, qnotify := True\<rparr>" using rd ack by (simp add: advance_to)
  have "sorted (a # as')" using so by simp
  then have "going env mx dir name i c off y t qs as'"
    using g la a by (auto simp: y rd' going_def healthy_def)
  moreover have "going_left c y qs as' < going_left c x qs as" by (simp add: going_left_def y rd' as)
  ultimately show ?thesis using going_progress by blast
qed

text \<open>A chunk that continues the file is written at once.\<close>

lemma receiving_chunk:
  assumes room: "roomy mx i c" and r: "receiving env dir name i c sr w t" and d: "piece c (tcursor t, d)"
    and hf: "HandleFrame env (chunk_frame i (tcursor t, d)) sr w = (a, sv, sr', w')"
  shows "\<exists>t'. receiving env dir name i c sr' w' t' \<and> tcursor t' = tcursor t + length d \<and> sv = [] \<and>
    a = Some (encodeOffset streamKindAck i (word_of_nat (tcursor t')))"
proof -
  have i: "length i = 16" and big: "length c < 2 ^ 64" using room by (simp_all add: roomy_def)
  have t: "map_of (transfers sr) i = Some t" "synced c t w" "no_faults (wfs w)" "tpending t = []"
    using r by (simp_all add: receiving_def)
  obtain t' where pc: "placeChunk t (tcursor t) d w = (None, t', w')" and sr': "sr' = sr\<lparr>transfers := aput i t' (transfers sr)\<rparr>"
    and a: "a = Some (encodeOffset streamKindAck i (word_of_nat (tcursor t')))" "sv = []"
    and s: "synced c t' w'" "static t' = static t" "wrote (tfile t) w w'"
    using chunk_synced [OF i t(1-3) d big hf] by blast
  obtain r1 t1 w1 where w1: "writeAt t (tcursor t) d w = (r1, t1, w1)" by (metis surj_pair)
  have r1: "r1 = None" using writeAt_synced [OF t(2,3) d w1] by simp
  have "tpending t1 = []" "tcursor t1 = tcursor t + length d" using writeAt_fields [OF w1] t(4) r1 by simp_all
  then have "t' = t1" using pc w1 r1 by (simp add: placeChunk_def drain.simps [of t1 w1])
  then have "tpending t' = []" "tcursor t' = tcursor t + length d"
    using \<open>tpending t1 = []\<close> \<open>tcursor t1 = tcursor t + length d\<close> by simp_all
  moreover have "receiving env dir name i c sr' w' t'"
    using r s \<open>tpending t' = []\<close> wrote_wf [OF s(3)]
    by (auto simp: receiving_def sr' static_def shared_partial_def partialDir_def)
  ultimately show ?thesis using a by blast
qed

lemma receiving_done:
  assumes room: "roomy mx i c" and env: "friendly env" and dir: "dir \<noteq> []"
    and r: "receiving env dir name i c sr w t" and full: "tcursor t = length c"
    and hf: "HandleFrame env (done_frame i) sr w = (a, sv, sr', w')"
  shows "a = Some (encodeComplete i True []) \<and> (\<forall>x. lsaved x = sv \<longrightarrow> lworld x = w' \<longrightarrow> delivered env dir name c x)"
proof -
  have i: "length i = 16" using room by (simp add: roomy_def)
  have t: "map_of (transfers sr) i = Some t" "synced c t w" "no_faults (wfs w)" "thash t = sha256 c" "tname t = sanitizeBase name"
    "receivedDir sr = dir" "(tpartial t, tprivate t) \<in> partial_names env (shared_partial sr i)"
    "lookup (wfs w) (tpartial t) = Some (tfile t)"
    using r by (simp_all add: receiving_def)
  have pn: "plain_name (final_name env t w)"
    using env sanitize_no_slash [of name] t(5) by (simp add: friendly_def final_name_def)
  have ne: "final_path env sr t w \<noteq> tpartial t" using final_not_partial [OF _ i t(7) pn] dir t(6) by simp
  obtain w2 where "HandleFrame env (done_frame i) sr w = (Some (encodeComplete i True []),
      [(final_name env t w, final_path env sr t w, length c)], sr\<lparr>transfers := adel i (transfers sr)\<rparr>, w2)"
    "lookup (wfs w2) (final_path env sr t w) = Some (tfile t)" "fdata (store (wfs w2) ! tfile t) = c"
    using done_delivers [OF i _ t(3,1,2) full t(4,8) ne, of "[]"] env unfolding friendly_def done_frame_def by blast
  then show ?thesis
    using hf t(5,6) by (auto simp: delivered_def final_path_def final_name_def Let_def)
qed

lemma give_answer_sel:
  "answers_of (give_answer mx (Some g) s) = answers_of s @ frameBytes mx g" "healthy i c off (give_answer mx a s) = healthy i c off s"
  "qphase (give_answer mx a s) = qphase s" "qoffset (give_answer mx a s) = qoffset s" "qacked (give_answer mx a s) = qacked s"
  "qnotify (give_answer mx a s) = qnotify s" "qdone (give_answer mx a s) = qdone s" "qreading (give_answer mx a s) = qreading s"
  "qsrc (give_answer mx a s) = qsrc s"
  by (simp_all add: give_answer_def healthy_def Let_def)

lemma going_receive:
  assumes room: "roomy mx i c" and env: "friendly env" and dir: "dir \<noteq> []"
    and g: "going env mx dir name i c off x t qs as"
    and rd: "ReadFrame mx \<lparr>rbuf = lup x, rend = EOF\<rparr> = (Inr f, r)"
    and hf: "HandleFrame env f (lsr x) (lworld x) = (a, sv, sr, w)"
    and y: "y = x\<lparr>lsnd := give_answer mx a (lsnd x), lup := rbuf r, lsr := sr, lworld := w, lsaved := lsaved x @ sv\<rparr>"
  shows "\<exists>m < going_left c x qs as. progress env mx dir name i c off m y"
proof (cases qs)
  case (Cons e qs')
  obtain d where e: "e = (tcursor t, d)" using g Cons by (cases e) (simp add: going_def)
  have d: "piece c (tcursor t, d)" "d \<noteq> []" "length d \<le> StreamChunkSize" "in_row (tcursor t + length d) qs' (unat (qoffset (lsnd x)))"
    using g Cons e by (auto simp: going_def)
  let ?rest = "chunks_on_wire mx i qs' @ (if qphase (lsnd x) = Sending then [] else frameBytes mx (done_frame i))"
  have "lup x = frameBytes mx (chunk_frame i (tcursor t, d)) @ ?rest" using g Cons e by (simp add: going_def chunks_on_wire_def)
  then have f: "f = chunk_frame i (tcursor t, d)" "rbuf r = ?rest"
    using rd read_next [OF chunk_fits [OF room d(3)], of "\<lparr>rbuf = lup x, rend = EOF\<rparr>"] by auto
  have "receiving env dir name i c (lsr x) (lworld x) t" using g by (simp add: going_def)
  then obtain t' where t': "receiving env dir name i c sr w t'" "tcursor t' = tcursor t + length d" "sv = []"
    "a = Some (encodeOffset streamKindAck i (word_of_nat (tcursor t')))"
    using receiving_chunk [OF room _ d(1)] hf f(1) by blast
  have le: "z \<le> tcursor t + length d" if "z \<in> set (unat (qacked (lsnd x)) # as)" for z
    using g le_last [OF _ that] by (simp add: going_def)
  have "going env mx dir name i c off y t' qs' (as @ [tcursor t'])"
    using g Cons t' d f(2) le by (auto simp: y going_def give_answer_sel acks_on_wire_def sorted_append)
  moreover have "going_left c y qs' (as @ [tcursor t']) < going_left c x qs as"
    by (simp add: going_left_def y give_answer_sel Cons)
  ultimately show ?thesis using going_progress by blast
next
  case Nil
  have ph: "qphase (lsnd x) \<noteq> Sending" using g rd read_empty by (auto simp: going_def Nil chunks_on_wire_def)
  then have aw: "qphase (lsnd x) = Awaiting" "unat (qoffset (lsnd x)) = length c" and lup: "lup x = frameBytes mx (done_frame i) @ []"
    using g by (auto simp: going_def Nil chunks_on_wire_def)
  have "fits mx (done_frame i)" unfolding done_frame_def by (rule small_fits [OF room]) simp
  then have f: "f = done_frame i" "rbuf r = []"
    using rd read_next [of mx "done_frame i" "\<lparr>rbuf = lup x, rend = EOF\<rparr>"] lup by auto
  have rc: "receiving env dir name i c (lsr x) (lworld x) t" and full: "tcursor t = length c"
    using g aw by (simp_all add: going_def Nil)
  have a: "a = Some (encodeComplete i True [])" "delivered env dir name c y"
    using receiving_done [OF room env dir rc full] hf f(1) g by (auto simp: y going_def)
  have "closing env mx dir name i c off y (Some as)"
    using g a aw f(2) by (simp add: closing_def y give_answer_sel going_def)
  from progress.closing [OF this] show ?thesis
    using ph by (intro exI conjI) (auto simp: going_left_def y give_answer_sel Nil)
qed

lemma closing_step:
  assumes room: "roomy mx i c" and cl: "closing env mx dir name i c off x rest" and st: "lstep env mx x y"
    and n: "n = 1 + (case rest of None \<Rightarrow> 0 | Some as \<Rightarrow> 2 * length as + 2) + of_bool (qnotify (lsnd x))"
  shows "\<exists>m < n. progress env mx dir name i c off m y"
proof -
  have h: "healthy i c off (lsnd x)" and dv: "delivered env dir name c x" and aw: "qphase (lsnd x) = Awaiting"
      "unat (qoffset (lsnd x)) = length c" "lup x = []"
    using cl by (simp_all add: closing_def)
  have dv': "delivered env dir name c (x\<lparr>lsnd := s, lup := u\<rparr>)" "delivered env dir name c (x\<lparr>lsnd := s\<rparr>)" for s u
    using dv by (simp_all add: delivered_def)
  from st show ?thesis
  proof cases
    case (forward s)
    then obtain t where t: "qdone (lsnd x) = Some t" "s = returns (finalResult (lsnd x) t) ((lsnd x)\<lparr>qdone := None\<rparr>)"
      using aw(1) by (auto elim!: fstepE)
    have rest: "rest = None" "t = completed_ok" using cl t(1) by (auto simp: closing_def split: option.splits)
    have le: "unat off \<le> length c" "length c < 2 ^ 63" using h aw room by (simp_all add: healthy_def roomy_def)
    then have "unat (qoffset (lsnd x) - off) = length c - unat off"
      using unat_sub [of off "qoffset (lsnd x)"] aw(2) by (simp add: word_le_nat_alt)
    then have off: "sint (qoffset (lsnd x) - off) = int (length c - unat off)" "sint off = int (unat off)"
      using le sint_small [of "qoffset (lsnd x) - off"] sint_small [of off] by simp_all
    have "success env dir name c off y"
      using cl t(2) rest h aw off dv'
      by (simp add: forward success_def closing_def returns_def finalResult_def completed_ok_def healthy_def wire_of_def)
    then show ?thesis using progress.success n by (intro exI [of _ 0]) simp
  next
    case backward
    obtain as where as: "rest = Some as" using cl backward by (auto simp: closing_def split: option.splits)
    show ?thesis
    proof (cases as)
      case Nil
      have rd: "streamReadLoop mx (lsnd x) =
          terminates completed_ok ((lsnd x)\<lparr>qconn := (qconn (lsnd x))\<lparr>crd := \<lparr>rbuf = [], rend = EOF\<rparr>\<rparr>\<rparr>)"
        by (rule reads_complete [OF room h]) (use cl as Nil in \<open>simp add: closing_def acks_on_wire_def\<close>)
      have "closing env mx dir name i c off y None"
        using cl dv' by (simp add: backward rd closing_def terminates_def healthy_def)
      from progress.closing [OF this] show ?thesis
        by (intro exI conjI) (auto simp: n as Nil backward rd terminates_def)
    next
      case (Cons a as')
      let ?s = "(lsnd x)\<lparr>qconn := (qconn (lsnd x))\<lparr>crd := \<lparr>rbuf = acks_on_wire mx i as' @ frameBytes mx (encodeComplete i True []),
          rend = EOF\<rparr>\<rparr>\<rparr>"
      have rd: "streamReadLoop mx (lsnd x) = advanceAcked (word_of_nat a) ?s"
        by (rule reads_ack [OF room h]) (use cl as Cons in \<open>simp add: closing_def acks_on_wire_def\<close>)
      have "closing env mx dir name i c off y (Some as')"
        using cl as dv' by (simp add: backward rd closing_def advanceAcked_def healthy_def)
      from progress.closing [OF this] show ?thesis
        by (intro exI conjI) (auto simp: n as Cons backward rd advanceAcked_def)
    qed
  next
    case (receive f r a sv sr w)
    then show ?thesis using aw(3) read_empty by auto
  qed
qed

lemma progress_step:
  assumes room: "roomy mx i c" and env: "friendly env" and dir: "dir \<noteq> []"
    and p: "progress env mx dir name i c off n x" and st: "lstep env mx x y"
  shows "\<exists>m < n. progress env mx dir name i c off m y"
  using p
proof cases
  case (going t qs as)
  have n: "n = going_left c x qs as" using going(1) by (simp add: going_left_def)
  from st show ?thesis
  proof cases
    case (forward s)
    then show ?thesis using going_forward [OF room going(2)] n by blast
  next
    case backward
    then show ?thesis using going_backward [OF room going(2)] n by blast
  next
    case (receive f r a sv sr w)
    then show ?thesis using going_receive [OF room env dir going(2)] n by blast
  qed
next
  case (closing rest)
  then show ?thesis using closing_step [OF room closing(2) st] by blast
next
  case success
  then show ?thesis using st read_empty by (auto simp: success_def elim!: lstepE fstepE)
qed

text \<open>A run that cannot go on has succeeded.\<close>

lemma going_goes_on:
  assumes g: "going env mx dir name i c off x t qs as" and room: "roomy mx i c"
  shows "\<exists>y. lstep env mx x y"
proof -
  let ?s = "lsnd x"
  have receives: "\<exists>y. lstep env mx x y" if "fits mx f" "lup x = frameBytes mx f @ rest" for f rest
    using lstep.receive [OF read_next [OF that(1)], of x rest EOF env] that(2) by (metis prod_cases4 reader.select_convs)
  have goes: "\<exists>y. lstep env mx x y" if "fstep mx ?s s" for s using lstep.forward [OF that] by blast
  show ?thesis
  proof (cases qs)
    case (Cons e qs')
    obtain d where "e = (tcursor t, d)" "length d \<le> StreamChunkSize" using g Cons by (cases e) (simp add: going_def)
    then show ?thesis
      using receives [OF chunk_fits [OF room]] g Cons by (simp add: going_def chunks_on_wire_def)
  next
    case Nil
    have "fits mx (done_frame i)" unfolding done_frame_def by (rule small_fits [OF room]) simp
    then have aw: ?thesis if "qphase ?s = Awaiting"
      using receives [of "done_frame i" "[]"] g Nil that by (simp add: going_def chunks_on_wire_def)
    show ?thesis
    proof (cases "qphase ?s = Sending \<and> moreToSend ?s \<and> \<not> gateOpen ?s \<and> \<not> qnotify ?s")
      case False
      then show ?thesis using aw goes fstep.intros(1-3) [of ?s mx] g by (auto simp: going_def)
    next
      case True
      have "as \<noteq> []"
      proof
        assume "as = []"
        then have "qacked ?s = qoffset ?s" using g Nil by (simp add: going_def word_unat_eq_iff)
        then have "\<not> windowBytes \<le> 0" using windowBytes_unat
          by (simp add: word_le_nat_alt windowLimit_def streamWindow_def StreamChunkSize_def)
        then show False using True \<open>qacked ?s = qoffset ?s\<close> by (simp add: gateOpen_def)
      qed
      moreover have "fits mx (encodeOffset streamKindAck i z)" for z
        using small_fits [OF room] by (simp add: encodeOffset_def codec_simps)
      ultimately have "answers_of ?s \<noteq> []" using g fits_not_Nil by (cases as) (auto simp: going_def acks_on_wire_def)
      then show ?thesis using lstep.backward [of x env mx] g by (auto simp: going_def)
    qed
  qed
qed

lemma stuck_success:
  assumes p: "progress env mx dir name i c off n x" and room: "roomy mx i c" and stuck: "\<not> (\<exists>y. lstep env mx x y)"
  shows "success env dir name c off x"
  using p
proof cases
  case (going t qs as)
  then show ?thesis using going_goes_on [OF _ room] stuck by blast
next
  case (closing rest)
  show ?thesis
  proof (cases rest)
    case None
    then have "qphase (lsnd x) = Awaiting" "qdone (lsnd x) = Some completed_ok" using closing(2) by (simp_all add: closing_def)
    then show ?thesis using stuck lstep.forward [OF fstep.completed] by blast
  next
    case (Some as)
    have "fits mx (encodeComplete i True [])"
      using small_fits [OF room] by (simp add: encodeComplete_def completeBody_def)
    then have "qreading (lsnd x)" "answers_of (lsnd x) \<noteq> []"
      using closing(2) Some fits_not_Nil by (auto simp: closing_def)
    then show ?thesis using stuck lstep.backward by blast
  qed
qed

section \<open>Properties\<close>

lemma run_progress:
  assumes room: "roomy mx i c" and env: "friendly env" and dir: "dir \<noteq> []"
    and p: "progress env mx dir name i c off n x"
  shows "(lstep env mx ^^ k) x y \<Longrightarrow> \<exists>m. k + m \<le> n \<and> progress env mx dir name i c off m y"
proof (induction k arbitrary: y)
  case 0
  then show ?case using p by auto
next
  case (Suc k)
  obtain z where z: "(lstep env mx ^^ k) x z" "lstep env mx z y" using Suc(2) by auto
  obtain m where m: "k + m \<le> n" "progress env mx dir name i c off m z" using Suc(1) [OF z(1)] by blast
  obtain m' where "m' < m" "progress env mx dir name i c off m' y" using progress_step [OF room env dir m(2) z(2)] by blast
  with m(1) show ?case by (intro exI [of _ m']) simp
qed

text \<open>The state of the joined system after the receiver accepted INIT and the sender read the answer.\<close>

lemma accepted_start:
  assumes mx: "StreamChunkSize + 25 \<le> unat mx" and big: "length c < 2 ^ 63" and name: "length name \<le> 255"
    and i: "i = take 16 (sha256 c)"
    and r: "scontent r = c" "spos r = 0" "\<forall>n. srcFault r n = None"
    and w: "no_faults (wfs w)" "wf_fs (wfs w)" "map_of (transfers sr) i = None" "may_resume env sr i c w"
    and ini: "HandleFrame env (init_frame i c name) sr w = (Some (encodeOffset streamKindInitAck i off), sv, sr1, w1)"
    and cn: "wlimit (cwr cn) = None" "crd cn = \<lparr>rbuf = frameBytes mx (encodeOffset streamKindInitAck i off), rend = EOF\<rparr>"
  shows "roomy mx i c \<and> (\<exists>s t. streamSend mx False cn name r (int (length c)) = (Inr s, qconn s) \<and> qnotify s = False \<and>
    qphase s = Sending \<and> qoffset s = off \<and>
    going env mx (receivedDir sr) name i c off \<lparr>lsnd = s, lup = [], lsr = sr1, lworld = w1, lsaved = []\<rparr> t [] [])"
proof -
  have room: "roomy mx i c" using mx big by (simp add: roomy_def i)
  have big64: "length c < 2 ^ 64" "length i = 16" using big by (simp_all add: i)
  obtain t where t: "sr1 = sr\<lparr>transfers := aput i t (transfers sr)\<rparr>" "synced c t w1" "tcursor t = unat off" "thash t = sha256 c"
    "tname t = sanitizeBase name" "(tpartial t, tprivate t) \<in> partial_names env (shared_partial sr i)"
    "lookup (wfs w1) (tpartial t) = Some (tfile t)" "no_faults (wfs w1)" "tpending t = []"
    using init_starts [OF big64(2) name big64(1) w ini] by blast
  have le: "unat off \<le> length c" using t(2,3) by (auto simp: synced_def tinv_def)
  have wl: "unat (word_of_nat (length c) :: u64) = length c" using big by (simp add: unat_of_nat)
  then have off: "off \<le> word_of_int (int (length c))" using le by (simp add: word_le_nat_alt)
  have "fits mx (encodeOffset streamKindInitAck i off)" using small_fits [OF room] by (simp add: encodeOffset_def codec_simps)
  then have rd: "ReadFrame mx (crd cn) = (Inr (encodeOffset streamKindInitAck i off), \<lparr>rbuf = [], rend = EOF\<rparr>)"
    by (rule read_next) (simp_all add: cn(2))
  have i': "i = take 16 (sha256 (drop (spos r) (scontent r)))" using r i by simp
  obtain wr r3 where s: "streamSend mx False cn name r (int (length c)) =
      (Inr \<lparr>qid = i, qhash = sha256 c, qsize = int (length c), qresume = off, qsrc = r3, qoffset = off, qacked = off,
            qnotify = False, qdone = None, qreading = True, qconn = \<lparr>crd = \<lparr>rbuf = [], rend = EOF\<rparr>, cwr = wr\<rparr>, qphase = Sending\<rparr>,
       \<lparr>crd = \<lparr>rbuf = [], rend = EOF\<rparr>, cwr = wr\<rparr>)" "wlimit wr = None" "scontent r3 = c" "spos r3 = unat off"
      "\<forall>n. srcFault r3 n = None"
    using negotiate_ok [OF r(3) _ cn(1) i' rd off, of name] r by auto
  show ?thesis
    using room s t le
    by (auto simp: going_def healthy_def receiving_def chunks_on_wire_def acks_on_wire_def shared_partial_def partialDir_def)
qed

text \<open>
  C2. A file is delivered end to end.  Suppose the receiver accepts the INIT of a file with an
  offset, no file operation fails, and no timer fires.  Then, in every interleaving of the two
  goroutines of the sender with the receiver, the run ends after at most four steps per byte that
  is left and eight more; and where it ends, the sender has returned success with the exact
  numbers of bytes resumed and sent, and the receiver has stored exactly the content under its
  final name and reported it once.
\<close>

theorem file_delivered:
  assumes "StreamChunkSize + 25 \<le> unat mx" and "length c < 2 ^ 63" and "length name \<le> 255" and "i = take 16 (sha256 c)"
    and "scontent r = c" "spos r = 0" "\<forall>n. srcFault r n = None"
    and "no_faults (wfs w)" "wf_fs (wfs w)" "map_of (transfers sr) i = None" "may_resume env sr i c w"
    and "HandleFrame env (init_frame i c name) sr w = (Some (encodeOffset streamKindInitAck i off), sv, sr1, w1)"
    and "wlimit (cwr cn) = None" "crd cn = \<lparr>rbuf = frameBytes mx (encodeOffset streamKindInitAck i off), rend = EOF\<rparr>"
    and env: "friendly env" and dir: "receivedDir sr \<noteq> []"
  shows "\<exists>s. streamSend mx False cn name r (int (length c)) = (Inr s, qconn s) \<and>
    (\<forall>k y. (lstep env mx ^^ k) \<lparr>lsnd = s, lup = [], lsr = sr1, lworld = w1, lsaved = []\<rparr> y \<longrightarrow>
       k \<le> 4 * (length c - unat off) + 8 \<and>
       ((\<exists>z. lstep env mx y z) \<or>
        qphase (lsnd y) = Returned (Inr \<lparr>BytesSent = int (length c - unat off), BytesResumed = int (unat off),
          TotalBytes = int (length c), Sha256Hex = hex (sha256 c), OK = True, Message = []\<rparr>) \<and>
        (\<exists>n q. let final = nameSuffix env n q (sanitizeBase name); path = filepath_Join [receivedDir sr, final] in
           lsaved y = [(final, path, length c)] \<and>
           map_option (\<lambda>ino. fdata (store (wfs (lworld y)) ! ino)) (lookup (wfs (lworld y)) path) = Some c)))"
proof -
  obtain s t where room: "roomy mx i c" and s: "streamSend mx False cn name r (int (length c)) = (Inr s, qconn s)"
    "qnotify s = False" "qphase s = Sending" "qoffset s = off"
    and g: "going env mx (receivedDir sr) name i c off \<lparr>lsnd = s, lup = [], lsr = sr1, lworld = w1, lsaved = []\<rparr> t [] []"
    using accepted_start [OF assms(1-14)] by blast
  let ?x = "\<lparr>lsnd = s, lup = [], lsr = sr1, lworld = w1, lsaved = []\<rparr>"
  have n: "going_left c ?x [] [] = 4 * (length c - unat off) + 8" using s by (simp add: going_left_def)
  have p: "progress env mx (receivedDir sr) name i c off (4 * (length c - unat off) + 8) ?x"
    using going_progress [OF g] n by simp
  have "k \<le> 4 * (length c - unat off) + 8 \<and> ((\<exists>z. lstep env mx y z) \<or> success env (receivedDir sr) name c off y)"
    if "(lstep env mx ^^ k) ?x y" for k y
    using run_progress [OF room env dir p that] stuck_success [OF _ room] by force
  then show ?thesis using s(1) unfolding success_def delivered_def by blast
qed

theorem file_delivered_witness:
  "\<exists>s sr1 w1. streamSend 65536 False (demo_peer [demo_initAck]) ''f'' demo_source 2 = (Inr s, qconn s) \<and>
     HandleFrame demo_env (init_frame demo_tid [7, 8] ''f'') demo_sr demo_world = (Some demo_initAck, [], sr1, w1) \<and>
     (\<forall>k y. (lstep demo_env 65536 ^^ k) \<lparr>lsnd = s, lup = [], lsr = sr1, lworld = w1, lsaved = []\<rparr> y \<longrightarrow>
        k \<le> 16 \<and> ((\<exists>z. lstep demo_env 65536 y z) \<or> lsaved y = [(''f-1'', ''/r/f-1'', 2)]))"
proof -
  obtain sr1 w1 where h: "HandleFrame demo_env (init_frame demo_tid [7, 8] ''f'') demo_sr demo_world =
     (Some (encodeOffset streamKindInitAck demo_tid 0), [], sr1, w1)" using demo_tid_init by blast
  have src: "scontent demo_source = [7, 8]" "spos demo_source = 0" "\<forall>n. srcFault demo_source n = None"
    by (simp_all add: demo_source_def)
  have recv: "no_faults (wfs demo_world)" "wf_fs (wfs demo_world)" "map_of (transfers demo_sr) demo_tid = None"
    "may_resume demo_env demo_sr demo_tid [7, 8] demo_world"
    by (simp_all add: no_faults_def wf_fs_def demo_world_def demo_sr_def newReceiver_def may_resume_def
        prefix_at_def lookup_def)
  have peer: "wlimit (cwr (demo_peer [demo_initAck])) = None"
    "crd (demo_peer [demo_initAck]) = \<lparr>rbuf = frameBytes 65536 (encodeOffset streamKindInitAck demo_tid 0), rend = EOF\<rparr>"
    by (simp_all add: demo_peer_def demo_writer_def demo_initAck_def)
  have dir: "receivedDir demo_sr \<noteq> []" by (simp add: demo_sr_def newReceiver_def)
  have name: "filepath_Join [receivedDir demo_sr, ''f-1''] = ''/r/f-1''"
    "nameSuffix demo_env n q (sanitizeBase ''f'') = ''f-1''" for n q
    by (simp_all add: demo_sr_def newReceiver_def demo_env_def sanitizeBase_def filepath_Base_def
        filepath_Join_def filepath_Clean_def clean_elems_def clean_step_def)
  have pre: "StreamChunkSize + 25 \<le> unat (65536 :: 32 word)" "length [7 :: 8 word, 8] < 2 ^ 63" "length ''f'' \<le> 255"
    by (simp_all add: StreamChunkSize_def)
  obtain s where s: "streamSend 65536 False (demo_peer [demo_initAck]) ''f'' demo_source 2 = (Inr s, qconn s)"
    and run: "\<And>k y. (lstep demo_env 65536 ^^ k) \<lparr>lsnd = s, lup = [], lsr = sr1, lworld = w1, lsaved = []\<rparr> y \<Longrightarrow>
        k \<le> 16 \<and> ((\<exists>z. lstep demo_env 65536 y z) \<or> lsaved y = [(''f-1'', ''/r/f-1'', Suc (Suc 0))])"
    using file_delivered [OF pre demo_tid_def src recv h peer demo_friendly dir] by (auto simp: name Let_def)
  then show ?thesis using h s by (auto simp: demo_initAck_def numeral_2_eq_2)
qed

end
