(* ===== verification/ServiceStreams.thy ===== *)
theory ServiceStreams
  imports DiskSpace StreamTransfer
begin

text \<open>
  The service and the stream receiver together: what a connection that carries control frames does
  is what the receiver does with these frames, with its answers on the wire and one event for each
  saved file.
\<close>

section \<open>One frame\<close>

definition saved_events :: "svcEnv \<Rightarrow> saved \<Rightarrow> event list" where
  "saved_events env sv =
     (if hasEvents env
      then map (\<lambda>(name, path, n). (''file.received'',
        [(''filename'', JStr name), (''size'', JNum (dec n)), (''path'', JStr path)])) sv
      else [])"

lemma publishSaved_events: "publishSaved env sv s = s\<lparr>sevents := sevents s @ saved_events env sv\<rparr>"
  by (induction env sv s rule: publishSaved.induct) (simp_all add: saved_events_def publish_def)

definition answer_bytes :: "u32 \<Rightarrow> Frame option list \<Rightarrow> bytes" where
  "answer_bytes mx as = concat (map (\<lambda>a. case a of None \<Rightarrow> [] | Some g \<Rightarrow> frameBytes mx g) as)"

lemma answer_fits:
  assumes "fits (frameCap env) g" and "wlimit (cwr (cconn cs)) = None"
  obtains cs' where "answer env g cs = (None, cs')" "csr cs' = csr cs" "cclaim cs' = cclaim cs"
    "crd (cconn cs') = crd (cconn cs)" "wlimit (cwr (cconn cs')) = None"
    "sent (cwr (cconn cs')) = sent (cwr (cconn cs)) @ frameBytes (frameCap env) g"
proof -
  obtain t p where "framePayload (frameCap env) g = Inr (t, p)" using assms(1) by (rule fits_payload)
  then obtain w where w: "WriteFrame (frameCap env) (cwr (cconn cs)) g = (None, w)" "wlimit w = None"
    using WriteFrame_open [OF _ assms(2)] by blast
  show ?thesis
    using that [of "cs\<lparr>cconn := (cconn cs)\<lparr>cwr := w\<rparr>\<rparr>"] w WriteFrame_sent [OF w(1)] by (simp add: answer_def)
qed

text \<open>A frame of a connection that has its receiver.\<close>

definition control :: "Frame \<Rightarrow> bool" where
  "control f \<longleftrightarrow> Type f = TypeFileStream \<and> decodeStreamFrame (Some f) \<noteq> None"

lemma stream_frame:
  assumes f: "control f" and cs: "csr cs = Some sr" "wlimit (cwr (cconn cs)) = None"
    and h: "HandleFrame (streamEnv env) f sr (sworld s) = (a, sv, sr1, w1)"
    and fit: "pred_option (fits (frameCap env)) a"
  obtains cs' where
    "serveFrame env from f cs s = Some (True, cs', s\<lparr>sworld := w1, sevents := sevents s @ saved_events env sv\<rparr>)"
    "csr cs' = Some sr1" "cclaim cs' = cclaim cs" "crd (cconn cs') = crd (cconn cs)" "wlimit (cwr (cconn cs')) = None"
    "sent (cwr (cconn cs')) = sent (cwr (cconn cs)) @ answer_bytes (frameCap env) [a]"
proof -
  have d: "dedupeCacheFor b1 b2 f = None" for b1 b2
    using f by (simp add: control_def dedupeCacheFor_def dedupeEligible_def)
  obtain v where v: "decodeStreamFrame (Some f) = Some v" using f by (auto simp: control_def)
  let ?cs = "cs\<lparr>csr := Some sr1\<rparr>"
  have cs1: "cs\<lparr>csr := Some sr, csr := Some sr1\<rparr> = ?cs" by simp
  show ?thesis
  proof (cases a)
    case None
    then show ?thesis
      using that [of ?cs] f h v cs
      by (simp add: serveFrame_def d processFrame_def control_def handleStream_def ensureReceiver_def Let_def
          publishSaved_events answer_bytes_def)
  next
    case (Some g)
    obtain cs' where a: "answer env g ?cs = (None, cs')" "csr cs' = csr ?cs" "cclaim cs' = cclaim ?cs"
      "crd (cconn cs') = crd (cconn ?cs)" "wlimit (cwr (cconn cs')) = None"
      "sent (cwr (cconn cs')) = sent (cwr (cconn ?cs)) @ frameBytes (frameCap env) g"
      using answer_fits [of env g ?cs] fit Some cs(2) by auto
    show ?thesis
      using that [of cs'] f h v cs a Some
      by (simp add: serveFrame_def d processFrame_def control_def handleStream_def ensureReceiver_def Let_def
          publishSaved_events answer_bytes_def)
  qed
qed

section \<open>A connection\<close>

lemma saved_events_append: "saved_events env (a @ b) = saved_events env a @ saved_events env b"
  by (simp add: saved_events_def)

lemma streams_run:
  assumes "list_all control fs" and "list_all (fits (frameCap env)) fs"
    and "csr cs = Some sr" and "cclaim cs = None" and "wlimit (cwr (cconn cs)) = None"
    and "crd (cconn cs) = \<lparr>rbuf = concat (map (frameBytes (frameCap env)) fs), rend = EOF\<rparr>"
    and "handle_all (streamEnv env) fs sr (sworld s) = (as, sv, sr1, w1)"
    and "list_all (pred_option (fits (frameCap env))) as"
  shows "\<exists>cs'. handleConn env from cs s =
      Some (cs', s\<lparr>sworld := snd (Close sr1 w1), sevents := sevents s @ saved_events env sv\<rparr>) \<and>
    sent (cwr (cconn cs')) = sent (cwr (cconn cs)) @ answer_bytes (frameCap env) as"
  using assms
proof (induction fs arbitrary: cs sr s as sv)
  case Nil
  have "ReadFrame (frameCap env) (crd (cconn cs)) = (Inl (Io EOF), \<lparr>rbuf = [], rend = EOF\<rparr>)"
    using Nil.prems(6) by (simp add: ReadFrame_def ReadFull_def)
  then show ?case
    using Nil.prems
    by (auto simp: handleConn.simps [of env "from" cs s] closeConn_def finishClaim_def answer_bytes_def saved_events_def
        split: prod.split)
next
  case (Cons f fs)
  let ?mx = "frameCap env" and ?r = "\<lparr>rbuf = concat (map (frameBytes (frameCap env)) fs), rend = EOF\<rparr>"
  let ?cs = "cs\<lparr>cconn := (cconn cs)\<lparr>crd := ?r\<rparr>\<rparr>"
  obtain a sv1 sr2 w2 where h: "HandleFrame (streamEnv env) f sr (sworld s) = (a, sv1, sr2, w2)" by (metis surj_pair)
  obtain as2 sv2 where h2: "handle_all (streamEnv env) fs sr2 w2 = (as2, sv2, sr1, w1)"
    and as: "as = a # as2" "sv = sv1 @ sv2"
    using Cons.prems(7) h by (auto split: prod.splits)
  let ?s = "s\<lparr>sworld := w2, sevents := sevents s @ saved_events env sv1\<rparr>"
  have rd: "ReadFrame ?mx (crd (cconn cs)) = (Inr f, ?r)"
    using Cons.prems(2,6) by (simp add: ReadFrame_frameBytes)
  obtain cs' where c: "serveFrame env from f ?cs s = Some (True, cs', ?s)" "csr cs' = Some sr2" "cclaim cs' = cclaim ?cs"
    "crd (cconn cs') = crd (cconn ?cs)" "wlimit (cwr (cconn cs')) = None"
    "sent (cwr (cconn cs')) = sent (cwr (cconn ?cs)) @ answer_bytes ?mx [a]"
    using stream_frame [of f ?cs sr env s a sv1 sr2 w2 "from"] Cons.prems h as by auto
  obtain cs2 where "handleConn env from cs' ?s =
      Some (cs2, ?s\<lparr>sworld := snd (Close sr1 w1), sevents := sevents ?s @ saved_events env sv2\<rparr>)"
    "sent (cwr (cconn cs2)) = sent (cwr (cconn cs')) @ answer_bytes ?mx as2"
    using Cons.IH [of cs' sr2 ?s as2 sv2] Cons.prems c h2 as by auto
  then show ?case
    using c(1,6) rd by (auto simp: handleConn.simps [of env "from" cs s] as saved_events_append answer_bytes_def)
qed

text \<open>The first frame makes the receiver.\<close>

lemma stream_first:
  assumes "control f" and "csr cs = None" and "svc_receivedDir env (scfg s) = Inr dir"
    and "os_MkdirAll dir (sfs s) = (None, fs1)"
  shows "serveFrame env from f cs s =
    serveFrame env from f (cs\<lparr>csr := Some (newReceiver dir (effectiveReceivedMaxBytes (scfg s)))\<rparr>) (set_fs fs1 s)"
  using assms
  by (simp add: serveFrame_def dedupeCacheFor_def dedupeEligible_def control_def processFrame_def handleStream_def
      ensureReceiver_def Let_def)

text \<open>
  C10. A connection of the service that carries control frames is a stream receiver on the received
  directory: the service answers with exactly the answers of the receiver to these frames, in
  order, publishes one event for each file the receiver saved, leaves the files as the receiver and
  its \<^verbatim>\<open>Close\<close> leave them, and changes neither the duplicate caches nor the inbox account.
\<close>

theorem service_streams:
  assumes "fs \<noteq> []" and "list_all control fs" and "list_all (fits (frameCap env)) fs" and "wlimit w = None"
    and "svc_receivedDir env (scfg s) = Inr dir" and "os_MkdirAll dir (sfs s) = (None, fs1)"
    and run: "handle_all (streamEnv env) fs (newReceiver dir (effectiveReceivedMaxBytes (scfg s))) ((sworld s)\<lparr>wfs := fs1\<rparr>) =
      (as, sv, sr, w1)"
    and "list_all (pred_option (fits (frameCap env))) as"
  shows "\<exists>cs. handleConn env from
      (newConn \<lparr>crd = \<lparr>rbuf = concat (map (frameBytes (frameCap env)) fs), rend = EOF\<rparr>, cwr = w\<rparr>) s =
      Some (cs, s\<lparr>sworld := snd (Close sr w1), sevents := sevents s @ saved_events env sv\<rparr>) \<and>
    sent (cwr (cconn cs)) = sent w @ answer_bytes (frameCap env) as"
proof -
  let ?c = "newConn \<lparr>crd = \<lparr>rbuf = concat (map (frameBytes (frameCap env)) fs), rend = EOF\<rparr>, cwr = w\<rparr>"
  let ?sr = "newReceiver dir (effectiveReceivedMaxBytes (scfg s))" and ?s = "set_fs fs1 s"
  obtain f fs' where fs: "fs = f # fs'" using assms(1) by (cases fs) auto
  have "handleConn env from ?c s = handleConn env from (?c\<lparr>csr := Some ?sr\<rparr>) ?s"
    using stream_first [of f _ env s dir fs1 "from"] assms(2,3,5,6)
    unfolding handleConn.simps [of env "from" ?c s] handleConn.simps [of env "from" "?c\<lparr>csr := Some ?sr\<rparr>" ?s]
    by (simp add: fs newConn_def ReadFrame_frameBytes)
  then show ?thesis
    using streams_run [OF assms(2,3), of "?c\<lparr>csr := Some ?sr\<rparr>" ?sr ?s as sv sr w1 "from"] assms(4,8) run
    by (simp add: newConn_def set_fs_def)
qed

text \<open>A service whose peer starts a transfer and leaves.\<close>

theorem service_streams_witness:
  "\<exists>cs w. handleConn demo_svcEnv ''peer''
      (newConn \<lparr>crd = \<lparr>rbuf = frameBytes 65536 (init_frame demo_id [7, 8] ''f''), rend = EOF\<rparr>, cwr = demo_writer\<rparr>)
      (NewService demo_cfg demo_world) = Some (cs, (NewService demo_cfg demo_world)\<lparr>sworld := w\<rparr>) \<and>
     sent (cwr (cconn cs)) = frameBytes 65536 (encodeOffset streamKindInitAck demo_id 0)"
proof -
  let ?fs = "[init_frame demo_id [7, 8] ''f'']" and ?s = "NewService demo_cfg demo_world" and ?a = "encodeOffset streamKindInitAck demo_id 0"
  have cfg: "scfg ?s = demo_cfg" "sworld ?s = demo_world" "sevents ?s = []" "frameCap demo_svcEnv = 65536"
    "effectiveReceivedMaxBytes demo_cfg = 100" "svc_receivedDir demo_svcEnv demo_cfg = Inr ''/r''"
    by (simp_all add: NewService_def demo_svcEnv_def demo_cfg_def effectiveReceivedMaxBytes_def svc_receivedDir_def defaultDir_def)
  obtain fs1 where mk: "os_MkdirAll ''/r'' (wfs demo_world) = (None, fs1)"
    "fs1 = (wfs demo_world)\<lparr>ops := 1, dirs := [filepath_Clean ''/r'']\<rparr>"
    by (simp add: os_MkdirAll_def sys_def demo_world_def)
  obtain sr w1 where r: "handle_all (streamEnv demo_svcEnv) ?fs (newReceiver ''/r'' 100) (demo_world\<lparr>wfs := fs1\<rparr>) =
      ([Some ?a], [], sr, w1)"
    by (simp add: mk(2) demo_q_simps streamEnv_def demo_svcEnv_def)
  have fit: "list_all control ?fs" "list_all (fits 65536) ?fs" "list_all (pred_option (fits 65536)) [Some ?a]"
    by (auto simp: control_def init_frame_def encodeInit_def encodeOffset_def decode_stream demo_ids initBody_def
        codec_simps intro!: stream_fits) (simp_all add: encodeStreamFrame_def)
  have e: "?s\<lparr>sworld := snd (Close sr w1), sevents := []\<rparr> = ?s\<lparr>sworld := snd (Close sr w1)\<rparr>" by (simp add: NewService_def)
  obtain cs where c: "handleConn demo_svcEnv ''peer''
      (newConn \<lparr>crd = \<lparr>rbuf = frameBytes 65536 (init_frame demo_id [7, 8] ''f''), rend = EOF\<rparr>, cwr = demo_writer\<rparr>) ?s =
      Some (cs, ?s\<lparr>sworld := snd (Close sr w1), sevents := []\<rparr>)" "sent (cwr (cconn cs)) = frameBytes 65536 ?a"
    using service_streams [of ?fs demo_svcEnv demo_writer ?s "''/r''" fs1 "[Some ?a]" "[]" sr w1 "''peer''"] fit mk(1) r cfg
    by (auto simp: demo_writer_def sent_def answer_bytes_def saved_events_def)
  show ?thesis using c(1) [unfolded e] c(2) by blast
qed

end
