(* ===== verification/StreamHandles.thy ===== *)
theory StreamHandles
  imports StreamClaims
begin

text \<open>
  The open file handles of the receivers on one directory.  A handler keeps the handle of a
  transfer, closes it together with the end of the transfer, or opens one for a transfer it
  starts: the open handles of the process are at all times those of the transfers in the tables.
\<close>

section \<open>The handles of a table and of the process\<close>

definition hmap :: "streamReceiver \<Rightarrow> bytes \<Rightarrow> nat option" where
  "hmap sr i = map_option thandle (map_of (transfers sr) i)"

definition opens :: "world \<Rightarrow> nat set" where
  "opens w = {h. isOpen h w}"

lemma hmap_simps [simp]:
  "hmap (sr\<lparr>transfers := adel i ts\<rparr>) = (hmap (sr\<lparr>transfers := ts\<rparr>))(i := None)"
  "hmap (sr\<lparr>transfers := aput i t ts\<rparr>) = (hmap (sr\<lparr>transfers := ts\<rparr>))(i \<mapsto> thandle t)"
  "hmap (sr\<lparr>transfers := []\<rparr>) i = None" "hmap (sr\<lparr>transfers := transfers sr\<rparr>) = hmap sr"
  by (auto simp: hmap_def fun_eq_iff)

lemma opens_simps [simp]:
  "opens (closeFile h w) = opens w - {h}" "opens (w\<lparr>wfs := x\<rparr>) = opens w" "opens (w\<lparr>claims := c\<rparr>) = opens w"
  "opens (w\<lparr>active := m\<rparr>) = opens w" "opens (w\<lparr>wseq := n\<rparr>) = opens w"
  by (auto simp: opens_def)

lemma opens_openFile: "openFile w = (h, w') \<Longrightarrow> opens w' = insert h (opens w) \<and> h \<notin> opens w"
  using openFile_isOpen [of w h w'] by (auto simp: opens_def)

lemma opens_same: "handles w' = handles w \<Longrightarrow> opens w' = opens w"
  by (simp add: opens_def isOpen_def)

lemma opens_holds: "stillHolds p c w = (b, w') \<Longrightarrow> opens w' = opens w"
  by (auto simp: stillHolds_def split: option.splits if_splits)

lemma opens_release [simp]:
  "opens (unclaimPartial p c prev w) = opens w" "opens (try_remove p w) = opens w" "opens (release t w) = opens w"
  by (simp_all add: release_def releasePartial_def unclaimPartial_def try_remove_def Let_def)

lemma opens_initFail: "initFail i m isNew p priv c prev w = (f, w') \<Longrightarrow> opens w' = opens w"
  by (auto simp: initFail_def Let_def split: if_splits)

lemma opens_close_all: "opens (close_all ts w) = opens w - thandle ` snd ` set ts"
  by (induction ts w rule: close_all.induct) auto

section \<open>What a handler does to the handles\<close>

text \<open>The handles stay, or the entry of \<open>i\<close> ends or is replaced: its handle is closed, a new one is fresh.\<close>

definition hkeep :: "streamReceiver \<Rightarrow> world \<Rightarrow> streamReceiver \<Rightarrow> world \<Rightarrow> bool" where
  "hkeep sr w sr' w' \<longleftrightarrow> hmap sr' = hmap sr \<and> opens w' = opens w"

definition hswap :: "bytes \<Rightarrow> streamReceiver \<Rightarrow> world \<Rightarrow> streamReceiver \<Rightarrow> world \<Rightarrow> bool" where
  "hswap i sr w sr' w' \<longleftrightarrow> hmap sr' = (hmap sr)(i := hmap sr' i) \<and>
     opens w' = opens w - set_option (hmap sr i) \<union> set_option (hmap sr' i) \<and> set_option (hmap sr' i) \<inter> opens w = {}"

definition heffect :: "bytes \<Rightarrow> streamReceiver \<Rightarrow> world \<Rightarrow> streamReceiver \<Rightarrow> world \<Rightarrow> bool" where
  "heffect i sr w sr' w' \<longleftrightarrow> hkeep sr w sr' w' \<or> hswap i sr w sr' w'"

lemma hkeep_then: "hkeep sr w sr1 w1 \<Longrightarrow> heffect i sr1 w1 sr' w' \<Longrightarrow> heffect i sr w sr' w'"
  by (auto simp: heffect_def hkeep_def hswap_def)

lemma hkeep_refl [simp]: "hkeep sr w sr w"
  by (simp add: hkeep_def)

lemma discard_swaps: "discard i sr w = (sr', w') \<Longrightarrow> hswap i sr w sr' w'"
  by (auto simp: discard_def hswap_def hmap_def split: option.splits)

lemma abandon_swaps: "abandonIfDiskFull i e sr w = (sr', w') \<Longrightarrow> heffect i sr w sr' w'"
  by (auto simp: abandonIfDiskFull_def heffect_def hkeep_def hswap_def hmap_def dest!: opens_holds
      split: option.splits if_splits prod.splits)

lemma writeFailed_swaps: "writeFailed i e sr w = (f, sr', w') \<Longrightarrow> heffect i sr w sr' w'"
  using discard_swaps [of i sr w sr' w'] abandon_swaps [of i e sr w sr' w']
  by (auto simp: writeFailed_def heffect_def split: prod.splits if_splits)

lemma handleChunk_swaps:
  assumes "handleChunk i body sr w = (f, sr', w')"
  shows "heffect i sr w sr' w'"
proof (cases "\<exists>o64 d t. decodeChunk body = Some (o64, d) \<and> map_of (transfers sr) i = Some t \<and>
    unat o64 + length d \<le> tsize t")
  case True
  then obtain o64 d t where b: "decodeChunk body = Some (o64, d)" and t: "map_of (transfers sr) i = Some t"
    and fit: "unat o64 + length d \<le> tsize t" by auto
  obtain q t1 w1 where pc: "placeChunk t (unat o64) d w = (q, t1, w1)" by (metis surj_pair)
  let ?sr = "sr\<lparr>transfers := aput i t1 (transfers sr)\<rparr>"
  have "hkeep sr w ?sr w1"
    using placeChunk_wrote [OF pc] t opens_same [of w1 w] by (auto simp: hkeep_def hmap_def static_def wrote_def)
  then show ?thesis
    using assms [unfolded handleChunk_fits [OF b t fit pc]] hkeep_then writeFailed_swaps
    by (auto simp: heffect_def split: option.splits)
qed (use assms in \<open>auto simp: heffect_def handleChunk_def Let_def split: option.splits if_splits\<close>)

lemma forget_swaps:
  assumes "forget i sr w1 = (sr', w')" and "map_of (transfers sr) i = Some t" and "opens w1 = opens w - {thandle t}"
  shows "hswap i sr w sr' w'"
proof -
  have "sr' = sr\<lparr>transfers := adel i (transfers sr)\<rparr>" "w' = release t w1" using assms(1,2) by (simp_all add: forget_def)
  then show ?thesis using assms(2,3) by (simp add: hswap_def) (simp add: hmap_def)
qed

text \<open>Every way out of \<open>doneCommit\<close>, which has closed the handle, forgets the transfer.\<close>

lemma doneCommit_swaps:
  assumes r: "doneCommit env i t sr w = (f, sv, sr', w')" and t: "map_of (transfers sr) i = Some t"
  shows "hswap i sr w sr' w'"
proof -
  let ?w = "(closeFile (thandle t) w)\<lparr>wseq := wseq w + 1\<rparr>"
  obtain b w1 where s: "stillHolds (tpartial t) (tclaim t) ?w = (b, w1)" by (metis surj_pair)
  have w1: "opens w1 = opens w - {thandle t}" using opens_holds [OF s] by simp
  show ?thesis
    using r s w1 forget_swaps [OF _ t, of ?w sr' w' w] forget_swaps [OF _ t, of w1 sr' w' w]
      forget_swaps [OF _ t, of "w1\<lparr>wfs := fs\<rparr>" sr' w' w for fs]
    by (auto simp: doneCommit_def Let_def split: prod.splits option.splits bool.splits)
qed

lemma handleDone_swaps:
  assumes "handleDone env i sr w = (f, sv, sr', w')"
  shows "heffect i sr w sr' w'"
proof (cases "map_of (transfers sr) i")
  case (Some t)
  obtain b w1 where s: "stillHolds (tpartial t) (tclaim t) w = (b, w1)" by (metis surj_pair)
  obtain r w2 where v: "doneVerify t w1 = (r, w2)" by (metis surj_pair)
  have k: "hkeep sr w sr w1" "hkeep sr w sr w2"
    using opens_holds [OF s] doneVerify_touched [OF v] opens_same [of w2 w1] by (auto simp: hkeep_def touched_def)
  have "heffect i sr a sr' w'" if "discard i sr a = (sr', w')" for a
    using discard_swaps [OF that] by (simp add: heffect_def)
  moreover have "heffect i sr w2 sr' w'" if "doneCommit env i t sr w2 = (f, sv, sr', w')"
    using doneCommit_swaps [OF that Some] by (simp add: heffect_def)
  ultimately show ?thesis
    using assms Some s v hkeep_then [OF k(1)] hkeep_then [OF k(2)] k
    by (auto simp: handleDone_def heffect_def split: prod.splits bool.splits sum.splits if_splits)
qed (use assms in \<open>simp add: handleDone_def heffect_def\<close>)

lemma initPrior_swaps:
  assumes "initPrior i sr w = (prior, sr', w')"
  shows "heffect i sr w sr' w'"
proof (cases "map_of (transfers sr) i")
  case (Some t)
  obtain b w1 where s: "stillHolds (tpartial t) (tclaim t) w = (b, w1)" by (metis surj_pair)
  show ?thesis
  proof (cases b)
    case True
    then show ?thesis using assms Some s opens_holds [OF s] by (simp add: initPrior_def heffect_def hkeep_def)
  next
    case False
    then have "sr' = sr\<lparr>transfers := adel i (transfers sr)\<rparr>" "w' = closeFile (thandle t) w1"
      using assms Some s by (simp_all add: initPrior_def)
    then have "hswap i sr w sr' w'" using opens_holds [OF s] Some by (simp add: hswap_def) (simp add: hmap_def)
    then show ?thesis by (simp add: heffect_def)
  qed
qed (use assms in \<open>simp add: initPrior_def heffect_def\<close>)

lemma selectPartial_opens:
  assumes "selectPartial env shared sz prior sr w = (s, w')"
  shows "opens w' = opens w"
proof (cases prior)
  case None
  then show ?thesis
    using selectPartial_new [of env shared sz sr w s w'] assms opens_same [of w' w]
    by (auto simp: selected_new_def looked_def claimed_def split: sum.splits)
next
  case (Some t)
  then show ?thesis
    using assms admit_looked [of env sr "tpartial t" sz w] opens_same [of w' w]
    by (auto simp: selectPartial_def looked_def split: prod.splits sum.splits)
qed

lemma initOpen_swaps:
  assumes r: "initOpen i sz hash name isNew part priv claim prev budget sr w = (f, sr', w')"
    and own: "set_option (hmap sr i) \<subseteq> opens w"
  shows "heffect i sr w sr' w'"
proof -
  obtain q fs1 where o: "os_OpenCreate part (wfs w) = (q, fs1)" by (metis surj_pair)
  obtain h w1 where op: "openFile (w\<lparr>wfs := fs1\<rparr>) = (h, w1)" by (metis surj_pair)
  have w1: "opens w1 = insert h (opens w)" "h \<notin> opens w" using opens_openFile [OF op] by auto
  show ?thesis
  proof (cases "\<exists>ino. q = Inr ino \<and> \<not> (map_of (transfers sr) i = None \<and> length (transfers sr) \<ge> maxConcurrentTransfers)")
    case True
    then obtain ino where ino: "q = Inr ino"
      "\<not> (map_of (transfers sr) i = None \<and> length (transfers sr) \<ge> maxConcurrentTransfers)" by blast
    obtain info fs2 where st: "file_Stat part ino fs1 = (info, fs2)" by (metis surj_pair)
    show ?thesis
      using r o op ino st w1 own
      by (auto simp: initOpen_def Let_def heffect_def hswap_def hmap_def split: option.splits)
  next
    case False
    then show ?thesis
      using r o op w1 opens_initFail
      by (fastforce simp: initOpen_def heffect_def hkeep_def split: sum.splits if_splits prod.splits)
  qed
qed

section \<open>The invariant of all connections\<close>

text \<open>Two entries never share a handle, and the handles of the entries are the open ones.\<close>

definition hof :: "receivers \<Rightarrow> nat \<times> bytes \<Rightarrow> nat option" where
  "hof R k = hmap (R (fst k)) (snd k)"

definition handles_ok :: "receivers \<Rightarrow> world \<Rightarrow> bool" where
  "handles_ok R w \<longleftrightarrow> (\<forall>k k' h. hof R k = Some h \<longrightarrow> hof R k' = Some h \<longrightarrow> k = k') \<and>
     (\<forall>h. h \<in> opens w \<longleftrightarrow> (\<exists>k. hof R k = Some h))"

lemma handles_okD:
  assumes "handles_ok R w"
  shows hok_inj: "hof R k = Some h \<Longrightarrow> hof R k' = Some h \<Longrightarrow> k = k'"
    and hok_open: "h \<in> opens w \<longleftrightarrow> (\<exists>k. hof R k = Some h)"
  using assms unfolding handles_ok_def by blast+

lemma hok_keep:
  assumes "handles_ok R w" and "hkeep (R n) w sr' w'"
  shows "handles_ok (R(n := sr')) w'"
proof -
  have "hof (R(n := sr')) = hof R" using assms(2) by (auto simp: hkeep_def hof_def fun_eq_iff)
  then show ?thesis using assms by (simp add: handles_ok_def hkeep_def)
qed

lemma hok_swap:
  assumes ok: "handles_ok R w" and sw: "hswap i (R n) w sr' w'"
  shows "handles_ok (R(n := sr')) w'"
proof -
  let ?new = "hmap sr' i"
  have "hmap sr' j = hmap (R n) j" if "j \<noteq> i" for j using sw that by (metis hswap_def fun_upd_apply)
  then have at: "hof (R(n := sr')) k = (if k = (n, i) then ?new else hof R k)" for k
    by (cases k) (simp add: hof_def)
  have opn: "h \<in> opens w' \<longleftrightarrow> h \<in> opens w \<and> hof R (n, i) \<noteq> Some h \<or> ?new = Some h" for h
    using sw by (auto simp: hswap_def hof_def)
  have new: "?new = Some h \<Longrightarrow> hof R k \<noteq> Some h" for h k
    using sw hok_open [OF ok, of h] by (cases k) (auto simp: hswap_def)
  show ?thesis
    unfolding handles_ok_def
  proof (intro conjI allI impI)
    fix k k' h assume "hof (R(n := sr')) k = Some h" "hof (R(n := sr')) k' = Some h"
    then show "k = k'" unfolding at using hok_inj [OF ok, of k h k'] new [of h k] new [of h k'] by (simp split: if_split_asm)
  next
    fix h
    have "(\<exists>k. hof (R(n := sr')) k = Some h) \<longleftrightarrow> ?new = Some h \<or> (\<exists>k. k \<noteq> (n, i) \<and> hof R k = Some h)"
      unfolding at by metis
    moreover have "(\<exists>k. k \<noteq> (n, i) \<and> hof R k = Some h) \<longleftrightarrow> h \<in> opens w \<and> hof R (n, i) \<noteq> Some h"
      unfolding hok_open [OF ok] using hok_inj [OF ok] by metis
    ultimately show "h \<in> opens w' \<longleftrightarrow> (\<exists>k. hof (R(n := sr')) k = Some h)" using opn by blast
  qed
qed

lemma hok_effect: "handles_ok R w \<Longrightarrow> heffect i (R n) w sr' w' \<Longrightarrow> handles_ok (R(n := sr')) w'"
  using hok_keep hok_swap by (auto simp: heffect_def)

lemma hok_handleInit:
  assumes ok: "handles_ok R w" and r: "handleInit env i body (R n) w = (f, sr', w')"
  shows "handles_ok (R(n := sr')) w'"
proof (cases "decodeInit body")
  case (Some v)
  obtain sz hash v' name where v: "v = (sz, hash, v', name)" by (metis surj_pair)
  obtain e fs1 where mk: "os_MkdirAll (partialDir (R n)) (wfs w) = (e, fs1)" by (metis surj_pair)
  obtain prior sr1 w2 where pr: "initPrior i (R n) (w\<lparr>wfs := fs1\<rparr>) = (prior, sr1, w2)" by (metis surj_pair)
  have ok1: "handles_ok (R(n := R n)) (w\<lparr>wfs := fs1\<rparr>)" using hok_keep [OF ok, of n "R n"] by (simp add: hkeep_def)
  then have ok2: "handles_ok (R(n := sr1)) w2" using hok_effect [OF _ initPrior_swaps, of R _ i n] pr by simp
  obtain s w3 where sel: "selectPartial env (filepath_Join [partialDir (R n), hex i]) (unat sz) prior sr1 w2 = (s, w3)"
    by (metis surj_pair)
  have ok3: "handles_ok (R(n := sr1)) w3"
    using ok2 selectPartial_opens [OF sel] hok_keep [of "R(n := sr1)" w2 n sr1 w3] by (simp add: hkeep_def)
  have "set_option (hmap sr1 i) \<subseteq> opens w3" using hok_open [OF ok3] by (fastforce simp: hof_def)
  then have fin: "handles_ok (R(n := sr')) w'"
    if "initOpen i (unat sz) hash name isNew part priv c prev b sr1 w3 = (f, sr', w')" for isNew part priv c prev b
    using hok_effect [of "R(n := sr1)" w3 i n sr' w'] initOpen_swaps [OF that] ok3 by simp
  show ?thesis
    using r Some v mk pr sel ok1 ok2 ok3 fin
    by (auto simp: handleInit_def split: option.splits sum.splits if_splits)
qed (use assms in \<open>auto simp: handleInit_def\<close>)

lemma hok_HandleFrame:
  assumes ok: "handles_ok R w" and r: "HandleFrame env f (R n) w = (a, sv, sr', w')"
  shows "handles_ok (R(n := sr')) w'"
proof -
  consider "sr' = R n" "w' = w" | (init) i b g where "handleInit env i b (R n) w = (g, sr', w')"
    | (chunk) i b g where "handleChunk i b (R n) w = (g, sr', w')"
    | (fin) i g where "handleDone env i (R n) w = (g, sv, sr', w')"
    | (abort) i where "discard i (R n) w = (sr', w')"
    using r by (auto simp: HandleFrame_def split: option.splits prod.splits if_splits)
  then show ?thesis
  proof cases
    case init then show ?thesis by (rule hok_handleInit [OF ok])
  next
    case chunk then show ?thesis by (rule hok_effect [OF ok handleChunk_swaps])
  next
    case fin then show ?thesis by (rule hok_effect [OF ok handleDone_swaps])
  next
    case abort then show ?thesis by (rule hok_swap [OF ok discard_swaps])
  qed (use ok in simp)
qed

text \<open>A closed connection closes every handle it has.\<close>

lemma hok_Close:
  assumes ok: "handles_ok R w" and d: "distinct (map fst (transfers (R n)))" and r: "Close (R n) w = (sr', w')"
  shows "handles_ok (R(n := sr')) w'"
proof -
  have at: "hof (R(n := sr')) k = (if fst k = n then None else hof R k)" for k
    using r by (auto simp: Close_def hof_def)
  have "h \<in> thandle ` snd ` set (transfers (R n)) \<longleftrightarrow> (\<exists>i. hof R (n, i) = Some h)" for h
    using d by (force simp: hof_def hmap_def)
  then have opn: "h \<in> opens w' \<longleftrightarrow> h \<in> opens w \<and> (\<forall>i. hof R (n, i) \<noteq> Some h)" for h
    using r opens_close_all [of "transfers (R n)" w] by (auto simp: Close_def)
  show ?thesis
    unfolding handles_ok_def
  proof (intro conjI allI impI)
    fix k k' h assume "hof (R(n := sr')) k = Some h" "hof (R(n := sr')) k' = Some h"
    then show "k = k'" unfolding at using hok_inj [OF ok, of k h k'] by (simp split: if_split_asm)
  next
    fix h
    have "fst k \<noteq> n \<longleftrightarrow> (\<forall>i. hof R (n, i) \<noteq> Some h)" if "hof R k = Some h" for k
      using that hok_inj [OF ok that] by (metis fst_conv prod.collapse)
    then show "h \<in> opens w' \<longleftrightarrow> (\<exists>k. hof (R(n := sr')) k = Some h)"
      unfolding opn at hok_open [OF ok] by (metis option.distinct(1))
  qed
qed

section \<open>Reachable states\<close>

lemma rstep_srinv: "rstep s s' \<Longrightarrow> \<forall>n. srinv (rcv s n) \<Longrightarrow> \<forall>n. srinv (rcv s' n)"
  by (induction rule: rstep.induct) (auto simp: Close_def newReceiver_def srinv_def [of "_\<lparr>transfers := []\<rparr>"]
      srinv_def [of "\<lparr>receivedDir = _, quotaBytes = _, transfers = []\<rparr>"] intro: HandleFrame_srinv)

lemma rstep_handles:
  assumes "rstep s s'" and "\<forall>n. srinv (rcv s n)" and "handles_ok (rcv s) (rworld s)"
  shows "handles_ok (rcv s') (rworld s')"
  using assms
proof (induction rule: rstep.induct)
  case (frame env f s n a sv sr' w')
  then show ?case using hok_HandleFrame [OF frame.prems(2) frame.hyps] by (simp add: fun_upd_def)
next
  case (closed s n sr' w')
  then show ?case using hok_Close [OF closed.prems(2) _ closed.hyps] by (simp add: srinv_def fun_upd_def)
next
  case (opened s n dir q)
  have "hkeep (rcv s n) (rworld s) (newReceiver dir q) (rworld s)"
    using opened.hyps by (simp add: hkeep_def hmap_def newReceiver_def fun_eq_iff)
  then show ?case using hok_keep [OF opened.prems(2)] by (simp add: fun_upd_def)
next
  case (elsewhere fs s)
  then show ?case by (simp add: handles_ok_def)
qed

lemma receivers_handles:
  assumes "rreach s"
  shows "handles_ok (rcv s) (rworld s)"
proof -
  obtain s0 where i: "rinit s0" and r: "rstep\<^sup>*\<^sup>* s0 s" using assms by (auto simp: rreach_def)
  have "(\<forall>n. srinv (rcv s0 n)) \<and> handles_ok (rcv s0) (rworld s0)"
    using i by (simp add: rinit_def srinv_def handles_ok_def hof_def hmap_def opens_def isOpen_def)
  with r have "(\<forall>n. srinv (rcv s n)) \<and> handles_ok (rcv s) (rworld s)"
    by (induction rule: rtranclp_induct) (use rstep_srinv rstep_handles in blast)+
  then show ?thesis by blast
qed

text \<open>
  C40. Whatever frames arrive on any connections, in any order, with any outcome of the file
  operations, while connections open and close and other parts of the system change files: the
  open file handles are exactly those of the transfers in the tables.  The handle of every
  transfer is open, no two transfers share one, and every open handle belongs to a transfer, so
  that no handle leaks and none is stranded closed on any error path.  The file of a transfer
  exists, and its claim, if it has one, was handed out.
\<close>

theorem receivers_typed:
  assumes "rreach s"
  shows "(\<forall>n i t. map_of (transfers (rcv s n)) i = Some t \<longrightarrow>
       isOpen (thandle t) (rworld s) \<and> tfile t < length (store (wfs (rworld s))) \<and>
       (\<forall>c. tclaim t = Some c \<longrightarrow> c < length (claims (rworld s)))) \<and>
    (\<forall>n i t n' i' t'. map_of (transfers (rcv s n)) i = Some t \<longrightarrow> map_of (transfers (rcv s n')) i' = Some t' \<longrightarrow>
       thandle t = thandle t' \<longrightarrow> n = n' \<and> i = i') \<and>
    (\<forall>h. isOpen h (rworld s) \<longrightarrow> (\<exists>n i t. map_of (transfers (rcv s n)) i = Some t \<and> thandle t = h)) \<and>
    wf_fs (wfs (rworld s)) \<and> (\<forall>p c. active (rworld s) p = Some c \<longrightarrow> c < length (claims (rworld s)))"
proof -
  note c = receivers_ok [OF assms] and h = receivers_handles [OF assms]
  have tr: "transfer_of (rcv s) (n, i) = map_of (transfers (rcv s n)) i" for n i by (simp add: transfer_of_def)
  have ho: "hof (rcv s) (n, i) = Some g \<longleftrightarrow> (\<exists>t. map_of (transfers (rcv s n)) i = Some t \<and> thandle t = g)" for n i g
    by (auto simp: hof_def hmap_def)
  have op: "isOpen g (rworld s) \<longleftrightarrow> (\<exists>n i t. map_of (transfers (rcv s n)) i = Some t \<and> thandle t = g)" for g
    using hok_open [OF h, of g] ho by (simp add: opens_def)
  moreover have "n = n' \<and> i = i'" if "map_of (transfers (rcv s n)) i = Some t" "map_of (transfers (rcv s n')) i' = Some t'"
      "thandle t = thandle t'" for n i t n' i' t'
    using hok_inj [OF h, of "(n, i)" "thandle t" "(n', i')"] that ho by auto
  ultimately show ?thesis
    using ok_wf [OF c] ok_active [OF c] ok_file [OF c] ok_claim [OF c] unfolding tr [symmetric] by blast
qed

theorem receivers_typed_witness:
  "\<exists>s. rreach s \<and> rcv s 0 = demo_sr\<lparr>transfers := [(demo_id, demo_t)]\<rparr> \<and>
     isOpen 0 (rworld s) \<and> isOpen 1 (rworld s) \<and> 0 < length (claims (rworld s))"
proof -
  obtain s where s: "rreach s" "rcv s 0 = demo_sr\<lparr>transfers := [(demo_id, demo_t)]\<rparr>"
    "rcv s 1 = demo_sr\<lparr>transfers := [(demo_id, demo_t\<lparr>thandle := 1, tclaim := Some 1\<rparr>)]\<rparr>" using demo_two by blast
  have "map_of (transfers (rcv s 0)) demo_id = Some demo_t" "tclaim demo_t = Some 0" "thandle demo_t = 0"
    "map_of (transfers (rcv s 1)) demo_id = Some (demo_t\<lparr>thandle := 1, tclaim := Some 1\<rparr>)"
    using s by (simp_all add: demo_t_def)
  then show ?thesis
    using receivers_typed [OF s(1)] s(1,2) by (metis recvTransfer.select_convs(1) recvTransfer.surjective recvTransfer.update_convs(1,5))
qed

end
