(* ===== verification/Dedupe_Reference.thy ===== *)
theory Dedupe_Reference
  imports Dedupe_Protocol
begin

text \<open>
  The cache of \<^verbatim>\<open>dedupe.go\<close> (entries behind pointers, an index, a ring of stored entries with a
  head and compaction) against a reference of a few lines: the list of the remembered
  deliveries, oldest first, and the keys in flight.  Callers see the same answers from both.
\<close>

section \<open>Requests and answers\<close>

definition dedupeLen :: "deliveryDedupe \<Rightarrow> nat" where
  "dedupeLen d = card (dom (dentries d))"

text \<open>
  A caller claims a delivery at some time, without waiting for one that is in flight, or
  finishes the delivery it holds.  It learns the outcome and how many deliveries are remembered.
\<close>

datatype request = Claim_at int dedupeKey | Finish_at int dedupeKey bool string

datatype answer = Claimed | Duplicate string | InFlight | Finished | NotHeld

type_synonym ring_state = "deliveryDedupe \<times> (dedupeKey \<rightharpoonup> eptr)"

fun ring_step :: "request \<Rightarrow> ring_state \<Rightarrow> (answer \<times> ring_state) option" where
  "ring_step (Claim_at now k) (d, held) =
     (case claim_begin now d k of
        Some (Holding _ e, d') \<Rightarrow> Some (Claimed, d', held(k \<mapsto> e))
      | Some (Waiting _ e, d') \<Rightarrow>
          Some (if edone (dheap d' ! e)
                then (case claim_recheck d' k e of Duplicated _ a \<Rightarrow> Duplicate a | _ \<Rightarrow> InFlight)
                else InFlight, d', held)
      | _ \<Rightarrow> None)"
| "ring_step (Finish_at now k st a) (d, held) =
     (case held k of
        None \<Rightarrow> Some (NotHeld, d, held)
      | Some e \<Rightarrow> map_option (\<lambda>(_, d'). (Finished, d', held(k := None))) (claim_finish now d (Some (k, e)) st a))"

fun ring_run :: "request list \<Rightarrow> ring_state \<Rightarrow> (answer \<times> nat) list option" where
  "ring_run [] s = Some []"
| "ring_run (r # rs) s =
     (case ring_step r s of
        None \<Rightarrow> None
      | Some (a, s') \<Rightarrow> map_option (Cons (a, dedupeLen (fst s'))) (ring_run rs s'))"

section \<open>The reference\<close>

type_synonym remembered = "(dedupeKey \<times> string \<times> int) list"
type_synonym ref_state = "remembered \<times> dedupeKey list"

definition unexpired :: "int \<Rightarrow> remembered \<Rightarrow> remembered" where
  "unexpired now = dropWhile (\<lambda>(_, _, x). x \<le> now)"

definition newest :: "nat \<Rightarrow> remembered \<Rightarrow> remembered" where
  "newest n xs = drop (length xs - n) xs"

fun ref_step :: "int \<Rightarrow> nat \<Rightarrow> request \<Rightarrow> ref_state \<Rightarrow> answer \<times> ref_state" where
  "ref_step w mx (Claim_at now k) (S, H) =
     (let S' = unexpired now S in
      case map_of S' k of
        Some (a, _) \<Rightarrow> (Duplicate a, S', H)
      | None \<Rightarrow> if k \<in> set H then (InFlight, S', H) else (Claimed, S', k # H))"
| "ref_step w mx (Finish_at now k st a) (S, H) =
     (if k \<notin> set H then (NotHeld, S, H)
      else (Finished, if st then newest mx (S @ [(k, a, now + w)]) else S, removeAll k H))"

fun ref_run :: "int \<Rightarrow> nat \<Rightarrow> request list \<Rightarrow> ref_state \<Rightarrow> (answer \<times> nat) list" where
  "ref_run w mx [] s = []"
| "ref_run w mx (r # rs) s =
     (let (a, S, H) = ref_step w mx r s in (a, length S + length H) # ref_run w mx rs (S, H))"

section \<open>The simulation\<close>

definition entry_view :: "deliveryDedupe \<Rightarrow> dedupeOrder \<Rightarrow> dedupeKey \<times> string \<times> int" where
  "entry_view d x = (okey x, eack (dheap d ! the (oentry x)), eexpires (dheap d ! the (oentry x)))"

definition sim :: "int \<Rightarrow> nat \<Rightarrow> ring_state \<Rightarrow> ref_state \<Rightarrow> bool" where
  "sim w mx s r \<longleftrightarrow> (case (s, r) of ((d, held), (S, H)) \<Rightarrow>
     dinv d \<and> dwindow d = w \<and> dmax d = int mx \<and> S = map (entry_view d) (stored d) \<and>
     distinct H \<and> set H = dom held \<and>
     (\<forall>k e. held k = Some e \<longrightarrow> dentries d k = Some e \<and> \<not> edone (dheap d ! e)) \<and>
     (\<forall>x \<in> set (stored d). edone (dheap d ! the (oentry x))) \<and>
     dom (dentries d) = okey ` set (stored d) \<union> dom held)"

lemma sim_new: "sim w mx (newDeliveryDedupe w (int mx), Map.empty) ([], [])"
  by (simp add: sim_def newDeliveryDedupe_def dinv_def stored_def)

lemma simD:
  assumes "sim w mx (d, held) (S, H)"
  shows sim_dinv: "dinv d" and sim_config: "dwindow d = w" "dmax d = int mx"
    and sim_stored: "S = map (entry_view d) (stored d)"
    and sim_keys: "distinct H" "set H = dom held"
    and sim_held: "held k = Some e \<Longrightarrow> dentries d k = Some e" "held k = Some e \<Longrightarrow> \<not> edone (dheap d ! e)"
    and sim_done: "x \<in> set (stored d) \<Longrightarrow> edone (dheap d ! the (oentry x))"
    and sim_dom: "dom (dentries d) = okey ` set (stored d) \<union> dom held"
  using assms by (auto simp: sim_def)

lemma held_apart:
  assumes "sim w mx (d, held) (S, H)" and "x \<in> set (stored d)" and "held k = Some e"
  shows "okey x \<noteq> k" "oentry x \<noteq> Some e"
  using stored_entry [OF sim_dinv [OF assms(1)] assms(2)] sim_held [OF assms(1,3)] sim_done [OF assms(1,2)] by auto

text \<open>Both sides count the same deliveries.\<close>

lemma sim_len:
  assumes "sim w mx (d, held) (S, H)"
  shows "dedupeLen d = length S + length H"
proof -
  have "okey ` set (stored d) \<inter> dom held = {}" using held_apart [OF assms] by auto
  moreover have "card (okey ` set (stored d)) = length S"
    using distinct_card [OF stored_distinct [OF sim_dinv [OF assms]]] sim_stored [OF assms] by simp
  moreover have "card (dom held) = length H" "finite (dom held)"
    using sim_keys [OF assms] distinct_card [of H] by (auto, metis finite_set)
  ultimately show ?thesis by (simp add: dedupeLen_def sim_dom [OF assms] card_Un_disjoint)
qed

text \<open>Forgetting the oldest entries is a step of the reference.\<close>

lemma dropped_sim:
  assumes s: "sim w mx (d, held) (S, H)" and dr: "dq.dropped n d d'"
  shows "sim w mx (d', held) (drop n S, H)"
proof -
  note k = dropped_keeps [OF dr]
  have ents: "dentries d' = dentries d |` (- set (map okey (take n (stored d))))"
    using dr by (simp add: dq.dropped_def)
  have sub: "set (stored d') \<subseteq> set (stored d)" using k(5) by (simp add: set_drop_subset)
  have keys: "okey ` set (take n (stored d)) \<inter> okey ` set (drop n (stored d)) = {}"
  proof -
    have "distinct (map okey (take n (stored d)) @ map okey (drop n (stored d)))"
      using stored_distinct [OF sim_dinv [OF s]] by (metis append_take_drop_id map_append)
    then show ?thesis by simp
  qed
  have h: "k \<notin> okey ` set (take n (stored d))" if "held k = Some e" for k e
    using held_apart(1) [OF s _ that] set_take_subset [of n "stored d"] by fastforce
  have "okey ` set (stored d) = okey ` set (take n (stored d)) \<union> okey ` set (drop n (stored d))"
    by (metis append_take_drop_id image_Un set_append)
  moreover have "dom held \<inter> okey ` set (take n (stored d)) = {}" using h by blast
  ultimately have "dom (dentries d') = okey ` set (stored d') \<union> dom held"
    using keys unfolding ents k(5) dom_restrict sim_dom [OF s] by auto
  moreover have "dentries d' k = Some e" if "held k = Some e" for k e
    using h [OF that] sim_held(1) [OF s that] ents by simp
  moreover have "entry_view d' = entry_view d" using k(1) by (simp add: entry_view_def fun_eq_iff)
  ultimately show ?thesis
    using s k sub by (auto simp: sim_def drop_map)
qed

lemma unexpired_drop:
  assumes "sim w mx (d, held) (S, H)"
  shows "unexpired now S = drop (length (takeWhile (expired now d) (stored d))) S"
proof -
  have "(\<lambda>(_, _, x). x \<le> now) \<circ> entry_view d = expired now d" by (auto simp: entry_view_def expired_def)
  then show ?thesis
    by (simp add: unexpired_def sim_stored [OF assms] dropWhile_map takeWhile_map drop_map dropWhile_eq_drop)
qed

lemma begin_sim:
  assumes "sim w mx (d, held) (S, H)"
  obtains d1 where "sim w mx (d1, held) (unexpired now S, H)"
    "begin_delivery now d k = (case dentries d1 k of
         Some e \<Rightarrow> Some ((e, False), d1)
       | None \<Rightarrow> Some ((length (dheap d1), True), fresh_entry d1 k))"
proof -
  obtain d1 where d1: "dq.dropped (length (takeWhile (expired now d) (stored d))) d d1"
    "begin_delivery now d k = (case dentries d1 k of
         Some e \<Rightarrow> Some ((e, False), d1)
       | None \<Rightarrow> Some ((length (dheap d), True),
           d1\<lparr>dheap := dheap d @ [\<lparr>edone = False, eack = [], eexpires = 0\<rparr>],
              dentries := (dentries d1)(k \<mapsto> length (dheap d))\<rparr>))"
    using begin_delivery_cases [OF sim_dinv [OF assms]] by metis
  show thesis
    by (rule that [of d1])
      (use dropped_sim [OF assms d1(1)] d1(2) dropped_keeps(1) [OF d1(1)] in
        \<open>simp_all add: unexpired_drop [OF assms] fresh_entry_def split: option.split\<close>)
qed

lemma fresh_sim:
  assumes s: "sim w mx (d, held) (S, H)" and k: "dentries d k = None"
  shows "sim w mx (fresh_entry d k, held(k \<mapsto> length (dheap d))) (S, k # H)"
proof -
  note inv = sim_dinv [OF s]
  have nh: "k \<notin> dom held" using sim_held(1) [OF s, of k] k by fastforce
  have old: "the (oentry x) < length (dheap d)" if "x \<in> set (stored d)" for x
    using stored_entry [OF inv that] entry_bound [OF inv] by auto
  have hold: "e < length (dheap d)" if "held i = Some e" for i e
    using entry_bound [OF inv sim_held(1) [OF s that]] .
  have v: "map (entry_view (fresh_entry d k)) (stored d) = map (entry_view d) (stored d)"
    using old by (simp add: entry_view_def nth_append)
  show ?thesis
    using s v nh old hold k fresh_dinv [OF inv] by (auto simp: sim_def nth_append)
qed

lemma map_of_views:
  assumes "dinv d"
  shows "map_of (map (entry_view d) (stored d)) k =
    (if k \<in> okey ` set (stored d) then (case dentries d k of None \<Rightarrow> None
       | Some e \<Rightarrow> Some (eack (dheap d ! e), eexpires (dheap d ! e))) else None)"
proof (cases "k \<in> okey ` set (stored d)")
  case True
  then obtain x where x: "x \<in> set (stored d)" "okey x = k" by blast
  obtain e where e: "oentry x = Some e" "dentries d k = Some e" using stored_entry [OF assms x(1)] x(2) by auto
  have "distinct (map fst (map (entry_view d) (stored d)))"
    using stored_distinct [OF assms] by (simp add: entry_view_def comp_def)
  moreover have "(k, eack (dheap d ! e), eexpires (dheap d ! e)) \<in> set (map (entry_view d) (stored d))"
    using x e by (auto simp: entry_view_def image_iff intro!: bexI [of _ x])
  ultimately show ?thesis using True e(2) map_of_is_SomeI by fastforce
next
  case False
  then show ?thesis by (auto simp: map_of_eq_None_iff entry_view_def image_iff)
qed

lemma claim_sim:
  assumes s: "sim w mx (d, held) (S, H)"
  shows "\<exists>s'. ring_step (Claim_at now k) (d, held) = Some (fst (ref_step w mx (Claim_at now k) (S, H)), s') \<and>
    sim w mx s' (snd (ref_step w mx (Claim_at now k) (S, H)))"
proof -
  obtain d1 where d1: "sim w mx (d1, held) (unexpired now S, H)"
    and b: "begin_delivery now d k = (case dentries d1 k of
         Some e \<Rightarrow> Some ((e, False), d1)
       | None \<Rightarrow> Some ((length (dheap d1), True), fresh_entry d1 k))"
    using begin_sim [OF s] by metis
  note dom = sim_dom [OF d1] and keys = sim_keys(2) [OF d1]
  have m: "map_of (unexpired now S) k = (if k \<in> okey ` set (stored d1) then (case dentries d1 k of None \<Rightarrow> None
       | Some e \<Rightarrow> Some (eack (dheap d1 ! e), eexpires (dheap d1 ! e))) else None)"
    unfolding sim_stored [OF d1] by (rule map_of_views [OF sim_dinv [OF d1]])
  show ?thesis
  proof (cases "dentries d1 k")
    case None
    then have "k \<notin> okey ` set (stored d1)" "k \<notin> set H" using dom keys by auto
    then show ?thesis using None b m fresh_sim [OF d1 None] by (simp add: claim_begin_def Let_def)
  next
    case (Some e)
    have done_iff: "edone (dheap d1 ! e) \<longleftrightarrow> k \<in> okey ` set (stored d1)"
    proof
      assume "edone (dheap d1 ! e)"
      then have "k \<notin> dom held" using sim_held [OF d1, of k] Some by fastforce
      then show "k \<in> okey ` set (stored d1)" using dom Some by blast
    next
      assume "k \<in> okey ` set (stored d1)"
      then obtain x where x: "x \<in> set (stored d1)" "okey x = k" by blast
      then show "edone (dheap d1 ! e)"
        using stored_entry [OF sim_dinv [OF d1] x(1)] sim_done [OF d1 x(1)] Some by auto
    qed
    have "k \<in> set H" if "k \<notin> okey ` set (stored d1)" using that dom keys Some by blast
    then show ?thesis
      using Some b m d1 done_iff by (auto simp: claim_begin_def claim_recheck_def Let_def)
  qed
qed

lemma finish_sim:
  assumes s: "sim w mx (d, held) (S, H)"
  shows "\<exists>s'. ring_step (Finish_at now k st a) (d, held) = Some (fst (ref_step w mx (Finish_at now k st a) (S, H)), s') \<and>
    sim w mx s' (snd (ref_step w mx (Finish_at now k st a) (S, H)))"
proof (cases "held k")
  case None
  then have "k \<notin> set H" using sim_keys(2) [OF s] by auto
  then show ?thesis using None s by simp
next
  case (Some e)
  note inv = sim_dinv [OF s] and h = sim_held [OF s Some] and apart = held_apart [OF s _ Some]
  have kH: "k \<in> set H" using sim_keys(2) [OF s] Some by auto
  have bound: "e < length (dheap d)" by (rule entry_bound [OF inv h(1)])
  have other: "e \<noteq> the (oentry x)" if "x \<in> set (stored d)" for x
    using apart(2) [OF that] stored_entry [OF inv that] by auto
  have held': "e \<noteq> e'" if "held i = Some e'" "i \<noteq> k" for i e'
    using entry_inj [OF inv h(1)] sim_held(1) [OF s that(1)] that(2) by auto
  have mx: "0 \<le> dmax d" using sim_config [OF s] by simp
  show ?thesis
  proof (cases st)
    case False
    let ?d = "close_entry (drop_key d k) e"
    have f: "finish now d k e False a = Some ?d"
      using finish_failed_cases [OF h] by (simp add: drop_key_def)
    have "dinv ?d" using drop_key_dinv [OF inv apart(1)] by (rule close_dinv)
    moreover have "map (entry_view ?d) (stored d) = map (entry_view d) (stored d)"
      using other by (simp add: entry_view_def)
    moreover have "okey ` set (stored d) - {k} = okey ` set (stored d)" using apart(1) by auto
    ultimately have "sim w mx (?d, held(k := None)) (S, removeAll k H)"
      using s other held' bound by (auto simp: sim_def distinct_removeAll)
    then show ?thesis using False Some kH f by (simp add: claim_finish_def)
  next
    case True
    obtain d2 where d2: "dq.dropped (Suc (length (stored d)) - nat (dmax d)) (record_entry now d k e a) d2"
      and f: "finish now d k e True a = Some (close_entry d2 e)"
      using finish_stored_cases [OF inv mx h apart(1)] by blast
    let ?r = "close_entry (record_entry now d k e a) e"
    have "dinv ?r" using record_dinv [OF inv h(1) apart(1)] by (rule close_dinv)
    moreover have "map (entry_view ?r) (stored ?r) = map (entry_view d) (stored d) @ [(k, a, now + w)]"
      using other bound sim_config [OF s] by (auto simp: entry_view_def record_sel inv)
    moreover have "dom (dentries ?r) = okey ` set (stored ?r) \<union> dom (held(k := None))"
      using sim_dom [OF s] Some by (auto simp: record_sel inv)
    ultimately have r: "sim w mx (?r, held(k := None)) (S @ [(k, a, now + w)], removeAll k H)"
      using s other held' bound by (auto simp: sim_def record_sel inv distinct_removeAll)
    have "sim w mx (close_entry d2 e, held(k := None)) (newest mx (S @ [(k, a, now + w)]), removeAll k H)"
      using dropped_sim [OF r close_dropped [OF d2]] sim_config [OF s] sim_stored [OF s] by (simp add: newest_def)
    then show ?thesis using True Some kH f by (simp add: claim_finish_def)
  qed
qed

lemma step_sim:
  assumes "sim w mx s r"
  shows "\<exists>s'. ring_step q s = Some (fst (ref_step w mx q r), s') \<and> sim w mx s' (snd (ref_step w mx q r))"
proof (cases q)
  case (Claim_at now k)
  then show ?thesis using claim_sim assms by (metis surj_pair)
next
  case (Finish_at now k st a)
  then show ?thesis using finish_sim assms by (metis surj_pair)
qed

lemma run_sim: "sim w mx s r \<Longrightarrow> ring_run qs s = Some (ref_run w mx qs r)"
proof (induction qs arbitrary: s r)
  case (Cons q qs)
  obtain s' where s': "ring_step q s = Some (fst (ref_step w mx q r), s')" "sim w mx s' (snd (ref_step w mx q r))"
    using step_sim [OF Cons.prems] by blast
  obtain a S H where r: "ref_step w mx q r = (a, S, H)" by (metis surj_pair)
  have "dedupeLen (fst s') = length S + length H"
    using s'(2) sim_len [of w mx "fst s'" "snd s'"] r by simp
  then show ?case using Cons.IH [OF s'(2)] s'(1) r by simp
qed simp

text \<open>
  C11. The cache is equivalent to a list: for every sequence of claims and finished deliveries, at
  any times, with any capacity, the cache never panics and gives the answers and the numbers of
  remembered deliveries that the reference gives, which keeps the last deliveries in a plain list.
\<close>

theorem cache_is_reference:
  "ring_run qs (newDeliveryDedupe w (int mx), Map.empty) = Some (ref_run w mx qs ([], []))"
  by (rule run_sim [OF sim_new])

end
