(* ===== verification/Lifecycle.thy ===== *)
theory Lifecycle
  imports Prelude
begin

text \<open>
  Starting and stopping the service, \<^verbatim>\<open>service.go\<close>: \<^verbatim>\<open>Start\<close>, the accept loop that runs as a
  goroutine of its own, and \<^verbatim>\<open>Stop\<close>.  The listener belongs to another package: whether it can be
  opened is an argument, and what \<^verbatim>\<open>Accept\<close> may return is the relation \<open>acc\<close>, which depends on
  whether the listener is still open.
\<close>

section \<open>State\<close>

text \<open>Where the accept loop stands: not started, at its check of the context, in \<^verbatim>\<open>Accept\<close>, returned.\<close>

datatype loopState = NotStarted | Checking | Accepting | Ended

text \<open>
  The fields of the service that the three share, \<open>None\<close> for nil: the listener and whether it is
  open, the cancel function and whether its context has ended, the channel and whether it is
  closed; and the connections handed to their own goroutine.
\<close>

record life =
  lListener :: "bool option"
  lCancel :: "bool option"
  lDone :: "bool option"
  lLoop :: loopState
  lConns :: "nat list"

definition new_life :: life where
  "new_life = \<lparr>lListener = None, lCancel = None, lDone = None, lLoop = NotStarted, lConns = []\<rparr>"

section \<open>Operations\<close>

definition Name :: string where "Name = ''dataexchange''"

definition Order :: int where "Order = 110"

text \<open>The port is a constant of another package.\<close>

definition Start :: "nat \<Rightarrow> string option \<Rightarrow> life \<Rightarrow> string option \<times> life" where
  "Start port listenErr s =
     (case listenErr of
        Some e \<Rightarrow> (Some (''dataexchange: listen on port '' @ dec port @ '': '' @ e), s)
      | None \<Rightarrow> (None, s\<lparr>lListener := Some True, lCancel := Some False, lDone := Some False, lLoop := Checking\<rparr>))"

text \<open>The first half of \<^verbatim>\<open>Stop\<close>: cancel the context and close the listener.\<close>

definition stopSignal :: "life \<Rightarrow> life" where
  "stopSignal s = s\<lparr>lCancel := map_option (\<lambda>_. True) (lCancel s), lListener := map_option (\<lambda>_. False) (lListener s)\<rparr>"

datatype stopResult = StopNil | StopCtxErr

text \<open>
  The second half: the answers possible now, none while it waits.  \<open>early\<close> says whether the
  caller's context had ended at the call, \<open>late\<close> whether it has ended by now; where both the loop
  and the context have ended meanwhile, the runtime picks either.
\<close>

definition stopAnswers :: "bool \<Rightarrow> bool \<Rightarrow> life \<Rightarrow> stopResult list" where
  "stopAnswers early late s =
     (case lDone s of
        None \<Rightarrow> [StopNil]
      | Some closed \<Rightarrow>
          if early then [StopCtxErr]
          else (if closed then [StopNil] else []) @ (if late then [StopCtxErr] else []))"

definition loopEnds :: "life \<Rightarrow> life" where
  "loopEnds s = s\<lparr>lLoop := Ended, lDone := Some True\<rparr>"

text \<open>One step of \<^verbatim>\<open>acceptLoop\<close>.\<close>

inductive acceptLoop :: "(bool \<Rightarrow> string + nat \<Rightarrow> bool) \<Rightarrow> life \<Rightarrow> life \<Rightarrow> bool" for acc where
  cancelled: "acceptLoop acc s (loopEnds s)" if "lLoop s = Checking" "lCancel s = Some True"
| going: "acceptLoop acc s (s\<lparr>lLoop := Accepting\<rparr>)" if "lLoop s = Checking" "lCancel s = Some False"
| accepted: "acceptLoop acc s (s\<lparr>lLoop := Checking, lConns := lConns s @ [c]\<rparr>)"
    if "lLoop s = Accepting" "lListener s = Some b" "acc b (Inr c)"
| refused: "acceptLoop acc s (loopEnds s)" if "lLoop s = Accepting" "lListener s = Some b" "acc b (Inl e)"

inductive_cases acceptLoopE: "acceptLoop acc s s'"

text \<open>A service over time: started once, its loop, calls of \<^verbatim>\<open>Stop\<close>, the end of the parent context.\<close>

inductive lifeStep :: "(bool \<Rightarrow> string + nat \<Rightarrow> bool) \<Rightarrow> life \<Rightarrow> life \<Rightarrow> bool" for acc where
  started: "lifeStep acc s s'" if "lLoop s = NotStarted" "Start port r s = (e, s')"
| looping: "lifeStep acc s s'" if "acceptLoop acc s s'"
| stopping: "lifeStep acc s (stopSignal s)"
| parent_ended: "lifeStep acc s (s\<lparr>lCancel := map_option (\<lambda>_. True) (lCancel s)\<rparr>)"

section \<open>The service left out of a build\<close>

text \<open>The stub of \<^verbatim>\<open>service_disabled.go\<close>: no state, and answers that do nothing.\<close>

datatype disabledService = DisabledService

definition disabled_NewService :: "'cfg \<Rightarrow> disabledService" where
  "disabled_NewService cfg = DisabledService"

definition disabled_Name :: string where "disabled_Name = ''dataexchange-disabled''"

definition disabled_Order :: int where "disabled_Order = 110"

definition disabled_Start :: "nat \<Rightarrow> string option \<Rightarrow> disabledService \<Rightarrow> string option \<times> disabledService" where
  "disabled_Start port listenErr s = (None, s)"

definition disabled_Stop :: "bool \<Rightarrow> bool \<Rightarrow> disabledService \<Rightarrow> stopResult list" where
  "disabled_Stop early late s = [StopNil]"

text \<open>
  What the daemon relies on for both: a start that fails changes nothing, a start whose port can be
  bound succeeds, and a service that was never started stops at once.
\<close>

locale plugin =
  fixes fresh :: 's and start :: "nat \<Rightarrow> string option \<Rightarrow> 's \<Rightarrow> string option \<times> 's"
    and signal :: "'s \<Rightarrow> 's" and answers :: "bool \<Rightarrow> bool \<Rightarrow> 's \<Rightarrow> stopResult list"
  assumes start_ok: "fst (start port None s) = None"
    and start_fails: "fst (start port r s) \<noteq> None \<Longrightarrow> snd (start port r s) = s"
    and fresh_stops: "answers early late (signal fresh) = [StopNil]"
begin

lemma failed_start_stops:
  assumes "start port r fresh = (Some e, s)"
  shows "answers early late (signal s) = [StopNil]"
  using start_fails [of port r fresh] fresh_stops assms by simp

end

interpretation service_plugin: plugin new_life Start stopSignal stopAnswers
  by unfold_locales (auto simp: Start_def stopSignal_def stopAnswers_def new_life_def split: option.splits)

interpretation disabled_plugin: plugin DisabledService disabled_Start "\<lambda>s. s" disabled_Stop
  by unfold_locales (simp_all add: disabled_Start_def disabled_Stop_def)

section \<open>The invariant\<close>

definition life_ok :: "life \<Rightarrow> bool" where
  "life_ok s \<longleftrightarrow>
     (case lLoop s of
        NotStarted \<Rightarrow> lListener s = None \<and> lCancel s = None \<and> lDone s = None \<and> lConns s = []
      | Ended \<Rightarrow> lListener s \<noteq> None \<and> lCancel s \<noteq> None \<and> lDone s = Some True
      | _ \<Rightarrow> lListener s \<noteq> None \<and> lCancel s \<noteq> None \<and> lDone s = Some False)"

lemma life_step_ok: "lifeStep acc s s' \<Longrightarrow> life_ok s \<Longrightarrow> life_ok s'"
  by (induction rule: lifeStep.induct)
    (auto simp: life_ok_def Start_def stopSignal_def loopEnds_def split: option.splits loopState.splits elim!: acceptLoopE)

lemma life_reach_ok: "(lifeStep acc)\<^sup>*\<^sup>* new_life s \<Longrightarrow> life_ok s"
  by (induction rule: rtranclp_induct) (auto intro: life_step_ok, simp add: life_ok_def new_life_def)

text \<open>How many steps a loop whose context has ended still makes, and the connections it may take.\<close>

definition last_steps :: "life \<Rightarrow> nat" where
  "last_steps s = (case lLoop s of Checking \<Rightarrow> 1 | Accepting \<Rightarrow> 2 | _ \<Rightarrow> 0)"

definition last_conns :: "life \<Rightarrow> nat" where
  "last_conns s = length (lConns s) + (if lLoop s = Accepting then 1 else 0)"

lemma stopped_step:
  assumes "acceptLoop acc s s'" and "lCancel s = Some True"
  shows "last_steps s' < last_steps s \<and> lCancel s' = Some True \<and> lListener s' = lListener s \<and> last_conns s' \<le> last_conns s"
  using assms by (cases rule: acceptLoop.cases) (auto simp: last_steps_def last_conns_def loopEnds_def)

lemma stopped_run:
  assumes "(acceptLoop acc ^^ k) s s'" and "lCancel s = Some True"
  shows "k + last_steps s' \<le> last_steps s \<and> lCancel s' = Some True \<and> lListener s' = lListener s \<and> last_conns s' \<le> last_conns s"
  using assms
proof (induction k arbitrary: s')
  case (Suc k)
  then obtain y where y: "(acceptLoop acc ^^ k) s y" "acceptLoop acc y s'" by auto
  have 1: "k + last_steps y \<le> last_steps s \<and> lCancel y = Some True \<and> lListener y = lListener s \<and> last_conns y \<le> last_conns s"
    using Suc.IH [OF y(1)] Suc.prems(2) by blast
  then show ?case using stopped_step [OF y(2)] by auto
qed simp

text \<open>A loop that was cancelled goes on until it ends, as long as \<^verbatim>\<open>Accept\<close> returns.\<close>

lemma stopped_goes_on:
  assumes "life_ok s" and "lCancel s = Some True" and "lListener s = Some b" and "acc b r"
  shows "(\<exists>z. acceptLoop acc s z) \<or> lLoop s = Ended"
proof (cases "lLoop s")
  case Accepting
  then show ?thesis using assms acceptLoop.accepted acceptLoop.refused by (cases r) blast+
qed (use assms in \<open>auto simp: life_ok_def intro: acceptLoop.intros\<close>)

lemma loop_reach: "(acceptLoop acc ^^ k) s s' \<Longrightarrow> life_ok s \<Longrightarrow> life_ok s'"
  by (induction k arbitrary: s') (auto intro: life_step_ok lifeStep.looping)

text \<open>
  C38. \<^verbatim>\<open>Stop\<close> ends the service.  Once it has cancelled the context and closed the listener, the accept
  loop makes at most two more steps and hands out at most one more connection.  \<^verbatim>\<open>Stop\<close> can return
  without an error exactly when the loop has returned and the context of the call had not ended when
  it was made: a context that had already ended gives its error even after the loop has returned.
  If \<^verbatim>\<open>Accept\<close> returns on a closed listener, the loop goes on until \<^verbatim>\<open>Stop\<close> returns without an error,
  given a context that does not end.
\<close>

theorem stop_ends:
  assumes "(lifeStep acc)\<^sup>*\<^sup>* new_life s" and "lLoop s \<noteq> NotStarted" and "(acceptLoop acc ^^ k) (stopSignal s) s'"
  shows "k \<le> 2 \<and> length (lConns s') \<le> Suc (length (lConns s)) \<and>
    (StopNil \<in> set (stopAnswers early late s') \<longleftrightarrow> \<not> early \<and> lLoop s' = Ended) \<and>
    ((\<exists>r. acc False r) \<longrightarrow> (\<exists>z. acceptLoop acc s' z) \<or> stopAnswers False False s' = [StopNil])"
proof -
  let ?s = "stopSignal s"
  have ok: "life_ok s" "life_ok ?s" using life_reach_ok [OF assms(1)] life_step_ok [OF lifeStep.stopping] by blast+
  have sig: "lCancel ?s = Some True" "lListener ?s = Some False" "lConns ?s = lConns s"
    using ok(1) assms(2) by (auto simp: life_ok_def stopSignal_def split: loopState.splits)
  have run: "k + last_steps s' \<le> last_steps ?s" "lCancel s' = Some True" "lListener s' = Some False" "last_conns s' \<le> last_conns ?s"
    using stopped_run [OF assms(3) sig(1)] sig(2) by auto
  have ok': "life_ok s'" by (rule loop_reach [OF assms(3) ok(2)])
  have "k \<le> 2" using run(1) by (auto simp: last_steps_def split: loopState.splits)
  moreover have "length (lConns s') \<le> Suc (length (lConns s))"
    using run(4) sig(3) by (auto simp: last_conns_def split: if_splits)
  moreover have "(StopNil \<in> set (stopAnswers early late s') \<longleftrightarrow> \<not> early \<and> lLoop s' = Ended) \<and>
      (lLoop s' = Ended \<longrightarrow> stopAnswers False False s' = [StopNil])"
    using ok' run(3) by (auto simp: life_ok_def stopAnswers_def split: loopState.splits)
  ultimately show ?thesis using stopped_goes_on [OF ok' run(2,3)] by blast
qed

definition demo_accept :: "bool \<Rightarrow> string + nat \<Rightarrow> bool" where
  "demo_accept b r \<longleftrightarrow> (if b then r = Inr 5 else r = Inl ''closed'')"

theorem stop_ends_witness:
  "\<exists>s s'. (lifeStep demo_accept)\<^sup>*\<^sup>* new_life s \<and> lConns s = [5] \<and>
     (acceptLoop demo_accept ^^ 1) (stopSignal s) s' \<and> lLoop s' = Ended \<and> StopNil \<in> set (stopAnswers False True s')"
proof -
  let ?s1 = "snd (Start 1001 None new_life)" and ?f = "\<lambda>s. s\<lparr>lLoop := Accepting\<rparr>"
  let ?s2 = "(?f ?s1)\<lparr>lLoop := Checking, lConns := [5]\<rparr>"
  let ?s' = "loopEnds (stopSignal ?s2)"
  have "lifeStep demo_accept new_life ?s1"
    by (rule lifeStep.started [of _ 1001 None None]) (simp_all add: new_life_def Start_def)
  moreover have "lifeStep demo_accept ?s1 (?f ?s1)"
    by (rule lifeStep.looping, rule acceptLoop.going) (simp_all add: new_life_def Start_def)
  moreover have "lifeStep demo_accept (?f ?s1) ?s2"
    using acceptLoop.accepted [of "?f ?s1" True demo_accept 5]
    by (intro lifeStep.looping) (simp add: new_life_def Start_def demo_accept_def)
  ultimately have r: "(lifeStep demo_accept)\<^sup>*\<^sup>* new_life ?s2"
    by (meson rtranclp.rtrancl_into_rtrancl rtranclp.rtrancl_refl)
  have st: "(acceptLoop demo_accept ^^ 1) (stopSignal ?s2) ?s'"
    using acceptLoop.cancelled [of "stopSignal ?s2" demo_accept] by (simp add: stopSignal_def new_life_def Start_def eq_OO)
  show ?thesis
    using stop_ends [OF r _ st] r st by (intro exI [of _ ?s2] exI [of _ ?s']) (simp add: loopEnds_def)
qed

end
