(* ===== verification/Spec2Isabelle.thy ===== *)
theory Spec2Isabelle
  imports Json_Fuel Example Exchange ServiceStreams StreamHandles Dedupe_Reference Lifecycle
begin

text \<open>
  A verification library for the data exchange package of the pilot protocol: framed messages and
  files between two nodes, with acknowledgements, correlation tags, duplicate suppression, a
  bounded inbox and a resumable file transfer.  File names below are those of the Go sources.

  \<^bold>\<open>The program and its model.\<close>
  A client writes frames on a connection; the service reads them frame by frame, suppresses
  duplicates, stores each payload as a message in the inbox directory or as a received file, and
  answers.  Large files travel as a sequence of control frames between a stream sender and a
  stream receiver.  Each theory holds one part, in the order in which the code builds on them.

  \<^item> \<open>Prelude\<close>, \<open>Gostd\<close>, \<open>Goformat\<close>, \<open>Sha256\<close>, \<open>Json\<close>, \<open>Json_Roundtrip\<close>, \<open>Json_Fuel\<close>, \<open>Fs\<close>: what the sources use of
    the language and its standard library: machine integers as words, strings as lists of bytes,
    readers and writers with their errors, time layouts, SHA-256 as an executable function, the
    JSON printer and reader with the proof that they invert each other, and a file system with
    inodes and names in which any call may fail.
  \<^item> \<open>Wire\<close>, \<open>Tagged\<close>, \<open>Frames\<close> (\<^verbatim>\<open>dataexchange.go\<close>, \<^verbatim>\<open>tagged.go\<close>): \<open>Frame\<close> is the struct; \<open>wirePayload\<close>,
    \<open>parseFramePayload\<close>, \<open>WriteFrame\<close>, \<open>ReadFrame\<close>, \<open>readBounded\<close>, \<open>MaxFrameSize\<close>, \<open>ValidMessageID\<close>,
    \<open>taggedWirePayload\<close> and \<open>decodeTaggedPayload\<close> are the functions of these names.  Round trips of one
    frame and of a whole connection, safety of everything that is accepted, every error, sizes.
  \<^item> \<open>Client\<close>, \<open>Server\<close>, \<open>Example\<close> (\<^verbatim>\<open>client.go\<close>, \<^verbatim>\<open>server.go\<close>, \<^verbatim>\<open>examples/main.go\<close>): \<open>sendAndAwaitAck\<close> with
    its two fall-backs to an untagged frame and the send helpers; \<open>ListenAndServe\<close> and the loop of a
    plain server; the demonstration client and server, and that the one prints what the other answers.
  \<^item> \<open>Dedupe\<close>, \<open>Dedupe_Protocol\<close>, \<open>Dedupe_Reference\<close> (\<^verbatim>\<open>dedupe.go\<close>): \<open>deliveryDedupe\<close> is the struct, with
    entries in a heap so that pointers can be compared, an index, and the ring \<open>dorder\<close> with its
    head.  \<open>dstep\<close> interleaves the connections that use one cache, one call under its lock per step;
    the invariants give that a delivery is stored once per window, has one holder, is replayed
    while remembered and retried after a failure, and that nobody waits for ever.  The whole cache
    answers like a list of a few lines.
  \<^item> \<open>InboxBudget\<close>, \<open>InboxProps\<close>, \<open>InboxRuns\<close> (\<^verbatim>\<open>inbox_budget.go\<close>): \<open>inboxBudget\<close> and its operations
    \<open>reserveInbox\<close>, \<open>inboxWriteDone\<close>, \<open>inboxFileRemoved\<close>, \<open>evictInboxOverflow\<close>; exact admission,
    oldest-first eviction, and the byte cap on disk in every interleaving of \<open>istep\<close>.
  \<^item> \<open>StreamCodec\<close>, \<open>StreamReceiver\<close>, \<open>StreamProps\<close>, \<open>StreamDelivery\<close>, \<open>StreamClaims\<close>, \<open>StreamHandles\<close>
    (\<^verbatim>\<open>filestream.go\<close>, control frames and receiving side): \<open>recvTransfer\<close>, \<open>streamReceiver\<close> and the
    shared \<open>world\<close> (files, the table of claims on \<^verbatim>\<open>.partial\<close> files, and which file handles are
    open); \<open>handleInit\<close>, \<open>handleChunk\<close>, \<open>handleDone\<close> and \<open>HandleFrame\<close>.  Bounds whatever arrives and
    fails, one writer for each file among all connections (\<open>rstep\<close>), open handles for exactly the
    transfers in the tables, and delivery of the exact content.
  \<^item> \<open>StreamQuota\<close>, \<open>DiskSpace\<close> (\<^verbatim>\<open>filestream.go\<close>, \<^verbatim>\<open>filestream_disk_unix.go\<close> and its variants): admission
    by quota and by free space.  The bytes on disk together with those open transfers may still
    write are a potential that only an accepted INIT raises, to at most one quota for each open
    transfer; \<open>platformFreeDiskBytes\<close> on block counts of 64 bits, and the reserve it leaves.
  \<^item> \<open>StreamSender\<close>, \<open>SenderProps\<close>, \<open>Negotiation\<close>, \<open>StreamTransfer\<close> (\<^verbatim>\<open>filestream.go\<close>, sending side):
    \<open>streamSendWithInit\<close>, the sending loop as the steps \<open>fstep\<close> and \<open>expire\<close>, the reading goroutine
    as \<open>streamReadLoop\<close>; offsets are 64-bit words whose difference wraps.  What is on the wire, the
    window, every outcome of the negotiation; and sender, connection and receiver together (\<open>lstep\<close>).
  \<^item> \<open>Service\<close>, \<open>ServiceProps\<close>, \<open>Clocks\<close>, \<open>ServiceRuns\<close>, \<open>Lifecycle\<close> (\<^verbatim>\<open>service.go\<close>): the record \<open>Service\<close>,
    storing with commit and rollback, \<open>serveFrame\<close> and \<open>handleConn\<close> with every kind of frame; \<open>sstep\<close>
    runs frames of any connections, with a log of what was stored that is read off the states before
    and after each frame (\<open>frame_log\<close>).  The service refines the protocol of \<open>Dedupe_Protocol\<close> with
    this log; stored messages give back what was sent.  \<open>Lifecycle\<close> has \<open>Start\<close>, the accept loop and \<open>Stop\<close>.
    It also has the stub of \<^verbatim>\<open>service_disabled.go\<close>, with the contract that both keep.
  \<^item> \<open>Exchange\<close>, \<open>ServiceStreams\<close>: the client against the service, with what an acknowledgement
    vouches for (\<open>acknowledged\<close>: not every one means that something was stored); a connection of the service with
    control frames against the stream receiver.

  \<^bold>\<open>Interfaces.\<close>
  Locales state what one part relies on: a fixed-width field, a codec on a byte stream, the body
  of a control frame, a queue whose elements are indexed, a sort of which only order and content
  are known, a plugin that is started and stopped.  Each is interpreted on the definitions of the code.

  \<^bold>\<open>Bounds and termination.\<close>
  Loops are recursive functions with a termination proof: every frame read shortens the stream,
  every removal shortens the list of candidates, every round of \<open>drain\<close> the pending chunks.  Only
  the JSON reader has fuel, twice the length of its input, and \<open>Json_Fuel\<close> shows that more changes
  nothing.  The end of a whole transfer is proved by a count of steps, four for each byte left and
  eight more, which every step of either side decreases.

  \<^bold>\<open>Not modelled, and why.\<close>
  A frame is handled in one step, with a clock that stands still meanwhile; connections interleave
  between frames, and at every call that holds a lock where the order inside a frame matters (the
  duplicate cache, the inbox, the sender's two goroutines).  The driver, the listener, the address
  parser, the event bus, a server handler that reads from its connection, and the system call that reports free space are other packages or the
  system, and appear as arguments.  A connection that is closed after a timer is not read again, so
  closing it is left out.  Log lines of the package itself are left out; those of the example
  program are values.  Sums of file sizes are integers where the code has \<^verbatim>\<open>int64\<close>; they differ only
  beyond \<open>2^63\<close> bytes.  Panics of other packages, and the boundaries that contain them, are outside
  the model.
\<close>

end
